(* ===== verification/Prelude.thy ===== *)
theory Prelude
  imports Main "HOL-Library.Word" "HOL-Library.Monad_Syntax"
begin

text \<open>
  What the components of the resolver share: the machine integers and byte slices of the
  Rust source as \<open>word\<close> and \<open>list\<close> types, the slice operations the code uses (\<open>get\<close>,
  ranged \<open>get\<close>, \<open>copy_from_slice\<close>), big-endian encodings of \<open>u16\<close> and \<open>u32\<close>, ASCII case
  folding, and the generic lemmas on them that the component proofs use as simplification
  rules. The two collections declared here gather the facts about slices (\<open>slice_simps\<close>)
  and about big-endian integers (\<open>be_simps\<close>).
\<close>

unbundle bit_operations_syntax

named_theorems slice_simps "reading and writing byte slices"
named_theorems be_simps "big-endian encodings"

subsection \<open>Types\<close>

type_synonym u8 = "8 word"
type_synonym u16 = "16 word"
type_synonym u32 = "32 word"
type_synonym u64 = "64 word"
type_synonym bytes = "u8 list"
type_synonym ipv4 = "u8 \<times> u8 \<times> u8 \<times> u8"

text \<open>The bytes of a string literal.\<close>

definition bytes_of :: "string \<Rightarrow> bytes" where
  "bytes_of s = map of_char s"

subsection \<open>Slices\<close>

text \<open>
  \<open>slice.get(i)\<close>, \<open>slice.get(a..b)\<close> and the writing of a slice at an offset
  (\<open>buf[i..i + src.len()].copy_from_slice(src)\<close>, which is used within range only).
\<close>

definition get :: "'a list \<Rightarrow> nat \<Rightarrow> 'a option" where
  "get xs i = (if i < length xs then Some (xs ! i) else None)"

definition get_range :: "'a list \<Rightarrow> nat \<Rightarrow> nat \<Rightarrow> 'a list option" where
  "get_range xs a b = (if a \<le> b \<and> b \<le> length xs then Some (take (b - a) (drop a xs)) else None)"

definition blit :: "'a list \<Rightarrow> nat \<Rightarrow> 'a list \<Rightarrow> 'a list" where
  "blit buf i src = take i buf @ src @ drop (i + length src) buf"

lemma get_eq_Some [slice_simps]: "get xs i = Some x \<longleftrightarrow> i < length xs \<and> xs ! i = x"
  by (simp add: get_def)

lemma get_eq_None [slice_simps]: "get xs i = None \<longleftrightarrow> length xs \<le> i"
  by (simp add: get_def not_less)

lemma get_append_left [simp]: "i < length xs \<Longrightarrow> get (xs @ ys) i = get xs i"
  by (simp add: get_def nth_append)

lemma get_append_right [simp]: "get (xs @ ys) (length xs + i) = get ys i"
  by (simp add: get_def nth_append)

lemma get_append_at [simp]: "get (xs @ ys) (length xs) = get ys 0"
  using get_append_right [of xs ys 0] by simp

lemma get_Cons_0 [simp]: "get (x # xs) 0 = Some x"
  by (simp add: get_def)

lemma get_Cons_Suc [simp]: "get (x # xs) (Suc i) = get xs i"
  by (simp add: get_def)

lemma get_Cons_numeral [simp]: "get (x # xs) (numeral k) = get xs (pred_numeral k)"
  by (simp add: get_def)

lemma get_Nil [simp]: "get [] i = None"
  by (simp add: get_def)

lemma get_range_eq_Some [slice_simps]:
  "get_range xs a b = Some ys \<longleftrightarrow> a \<le> b \<and> b \<le> length xs \<and> ys = take (b - a) (drop a xs)"
  by (auto simp: get_range_def)

lemma get_range_eq_None [slice_simps]: "get_range xs a b = None \<longleftrightarrow> b < a \<or> length xs < b"
  by (auto simp: get_range_def)

lemma get_range_mid [simp]:
  "get_range (pre @ xs @ post) (length pre) (length pre + length xs) = Some xs"
  by (simp add: get_range_def)

lemma get_range_length: "get_range xs a b = Some ys \<Longrightarrow> length ys = b - a"
  by (auto simp: get_range_def split: if_splits)

lemma length_blit [simp]:
  "i + length src \<le> length buf \<Longrightarrow> length (blit buf i src) = length buf"
  by (simp add: blit_def)

lemma take_blit [simp]: "i \<le> length buf \<Longrightarrow> take i (blit buf i src) = take i buf"
  by (simp add: blit_def)

lemma take_blit_upto [simp]:
  "i \<le> length buf \<Longrightarrow> take (i + length src) (blit buf i src) = take i buf @ src"
  by (simp add: blit_def)

lemma blit_append [simp]: "blit (pre @ xs @ post) (length pre) ys = pre @ ys @ drop (length ys) (xs @ post)"
  by (simp add: blit_def)

lemma nth_blit_outside:
  "i + length src \<le> length buf \<Longrightarrow> k < i \<or> i + length src \<le> k \<Longrightarrow> k < length buf
    \<Longrightarrow> blit buf i src ! k = buf ! k"
  by (auto simp: blit_def nth_append min_def)

subsection \<open>Big-endian integers\<close>

text \<open>\<open>u16::from_be_bytes\<close>, \<open>u16::to_be_bytes\<close> and the same for \<open>u32\<close>.\<close>

definition u16_of_be :: "u8 \<Rightarrow> u8 \<Rightarrow> u16" where
  "u16_of_be a b = push_bit 8 (ucast a) OR ucast b"

definition be16 :: "u16 \<Rightarrow> bytes" where
  "be16 w = [ucast (drop_bit 8 w), ucast w]"

definition u32_of_be :: "u8 \<Rightarrow> u8 \<Rightarrow> u8 \<Rightarrow> u8 \<Rightarrow> u32" where
  "u32_of_be a b c d =
     push_bit 24 (ucast a) OR push_bit 16 (ucast b) OR push_bit 8 (ucast c) OR ucast d"

definition be32 :: "u32 \<Rightarrow> bytes" where
  "be32 w = [ucast (drop_bit 24 w), ucast (drop_bit 16 w), ucast (drop_bit 8 w), ucast w]"

lemma length_be16 [simp]: "length (be16 w) = 2"
  by (simp add: be16_def)

lemma length_be32 [simp]: "length (be32 w) = 4"
  by (simp add: be32_def)

lemma u16_of_be_ucast [simp, be_simps]: "u16_of_be (ucast (drop_bit 8 w)) (ucast w) = w"
  unfolding u16_of_be_def by (rule bit_word_eqI) (auto simp: bit_simps)

lemma bit_word8_ge [simp]: "8 \<le> n \<Longrightarrow> \<not> bit (w :: u8) n"
  using bit_imp_le_length [of w n] by auto

lemma be16_u16_of_be [simp, be_simps]: "be16 (u16_of_be a b) = [a, b]"
  unfolding u16_of_be_def be16_def
  by (auto intro!: bit_word_eqI simp: bit_simps)

lemma u32_of_be_ucast [simp, be_simps]:
  "u32_of_be (ucast (drop_bit 24 w)) (ucast (drop_bit 16 w)) (ucast (drop_bit 8 w)) (ucast w) = w"
proof (rule bit_word_eqI)
  fix n assume "n < LENGTH(32)"
  then consider "n < 8" | "8 \<le> n \<and> n < 16" | "16 \<le> n \<and> n < 24" | "24 \<le> n \<and> n < 32"
    by force
  then show "bit (u32_of_be (ucast (drop_bit 24 w)) (ucast (drop_bit 16 w))
      (ucast (drop_bit 8 w)) (ucast w)) n = bit w n"
    by cases (auto simp: u32_of_be_def bit_simps)
qed

lemma be32_u32_of_be [simp, be_simps]: "be32 (u32_of_be a b c d) = [a, b, c, d]"
  unfolding u32_of_be_def be32_def
  by (auto intro!: bit_word_eqI simp: bit_simps)

lemma be16_inject [be_simps]: "be16 v = be16 w \<longleftrightarrow> v = w"
  by (metis be16_def list.inject u16_of_be_ucast)

subsection \<open>ASCII case\<close>

text \<open>\<open>u8::make_ascii_lowercase\<close> and \<open>u8::eq_ignore_ascii_case\<close>.\<close>

definition ascii_lower :: "u8 \<Rightarrow> u8" where
  "ascii_lower b = (if 65 \<le> b \<and> b \<le> 90 then b OR 32 else b)"

definition eq_ignore_ascii_case :: "u8 \<Rightarrow> u8 \<Rightarrow> bool" where
  "eq_ignore_ascii_case a b \<longleftrightarrow> ascii_lower a = ascii_lower b"

lemma ascii_lower_range: "65 \<le> (b::u8) \<Longrightarrow> b \<le> 90 \<Longrightarrow> 97 \<le> b OR 32 \<and> b OR 32 \<le> 122"
proof -
  assume "65 \<le> b" "b \<le> 90"
  then have "unat b \<in> {65..90}"
    by (auto simp: word_le_nat_alt)
  moreover have "b = of_nat (unat b)"
    by simp
  ultimately have "b \<in> of_nat ` {65..90}"
    by blast
  then show ?thesis
    by (auto simp: atLeastAtMost_upt upt_rec)
qed

lemma ascii_lower_idem [simp]: "ascii_lower (ascii_lower b) = ascii_lower b"
  using ascii_lower_range [of b]
  by (auto simp: ascii_lower_def word_le_nat_alt)

lemma map_ascii_lower_idem [simp]: "map ascii_lower (map ascii_lower bs) = map ascii_lower bs"
  by simp

lemma ascii_lower_eq_dot [simp]: "ascii_lower b = 46 \<longleftrightarrow> b = 46"
  using ascii_lower_range [of b]
  by (auto simp: ascii_lower_def word_le_nat_alt)

subsection \<open>Bit masks on lengths and flag bytes\<close>

lemma and_mask_eq_mod: "(n::nat) AND (2 ^ k - 1) = n mod 2 ^ k"
  by (metis mask_eq_exp_minus_1 take_bit_eq_mask take_bit_eq_mod)

lemma u8_eq_iff:
  "(a :: u8) = b \<longleftrightarrow>
     bit a 0 = bit b 0 \<and> bit a 1 = bit b 1 \<and> bit a 2 = bit b 2 \<and> bit a 3 = bit b 3 \<and>
     bit a 4 = bit b 4 \<and> bit a 5 = bit b 5 \<and> bit a 6 = bit b 6 \<and> bit a 7 = bit b 7"
proof -
  have "(\<forall>n<8. bit a n = bit b n) = (\<forall>n\<in>set [0..<8]. bit a n = bit b n)" by auto
  moreover have "a = b \<longleftrightarrow> (\<forall>n<8. bit a n = bit b n)"
    using bit_word_eqI [of a b] by auto
  ultimately show ?thesis by (simp add: upt_rec numeral_eq_Suc)
qed

subsection \<open>Loops in the option monad\<close>

text \<open>A \<open>for\<close> loop whose body may panic.\<close>

fun foldM :: "('a \<Rightarrow> 's \<Rightarrow> 's option) \<Rightarrow> 'a list \<Rightarrow> 's \<Rightarrow> 's option" where
  "foldM f [] s = Some s" |
  "foldM f (x # xs) s = do { s' \<leftarrow> f x s; foldM f xs s' }"

lemma foldM_append: "foldM f (xs @ ys) s = do { s' \<leftarrow> foldM f xs s; foldM f ys s' }"
  by (induction xs arbitrary: s) (auto split: Option.bind_split)

lemma foldM_concat: "foldM (foldM f) xss s = foldM f (concat xss) s"
  by (induction xss arbitrary: s) (auto simp: foldM_append intro: Option.bind_cong)

text \<open>A loop over a range keeps an invariant that every iteration keeps.\<close>

lemma foldM_range:
  assumes "\<And>k s. a \<le> k \<Longrightarrow> k < b \<Longrightarrow> P k s \<Longrightarrow> \<exists>s'. f k s = Some s' \<and> P (Suc k) s'"
    and "a \<le> b" "P a s"
  shows "\<exists>s'. foldM f [a..<b] s = Some s' \<and> P b s'"
  using assms
proof (induction "b - a" arbitrary: a s)
  case (Suc n)
  then have "a < b" by simp
  then obtain s' where "f a s = Some s'" "P (Suc a) s'" using Suc.prems(1) [of a s] Suc.prems(3) by auto
  moreover have "[a..<b] = a # [Suc a..<b]" using Suc.hyps(2) by (simp add: upt_rec)
  moreover have "\<exists>s''. foldM f [Suc a..<b] s' = Some s'' \<and> P b s''"
    using Suc.prems Suc.hyps calculation(2) by (intro Suc.hyps(1)) auto
  ultimately show ?case by simp
qed simp

end
