(* ===== verification/Wire.thy ===== *)
theory Wire
  imports Prelude
begin

text \<open>
  The DNS wire format of \<open>src/dns/wire.rs\<close>: reading a query's question in place
  (\<open>parse_query\<close>), walking names and records (\<open>skip_name\<close>, \<open>find_opt\<close>, \<open>question_span\<close>),
  the question comparison of upstream answers (\<open>question_key\<close>), patching a message ID
  (\<open>set_id\<close>), ageing TTLs in place (\<open>age_ttls\<close>) and building responses (\<open>synthesize\<close>,
  \<open>bare_error\<close>). A function that returns \<open>Option\<close> in the source returns \<open>option\<close> here;
  the caller-owned name buffer and the in-place edits are passed and returned explicitly.
  The record types and classes are values of \<open>hickory_proto\<close>, so the conversions to and
  from their 16-bit codes are the parameter \<open>rr_codec\<close>.
\<close>

section \<open>Definitions\<close>

subsection \<open>Constants\<close>

abbreviation (input) MAX_NAME_LEN :: nat where "MAX_NAME_LEN \<equiv> 255"
abbreviation (input) MAX_QUESTION_LEN :: nat where "MAX_QUESTION_LEN \<equiv> 259"
abbreviation (input) HEADER_LEN :: nat where "HEADER_LEN \<equiv> 12"
abbreviation (input) OPT_RECORD_TYPE :: u16 where "OPT_RECORD_TYPE \<equiv> 41"
abbreviation (input) DNSSEC_OK_BIT :: u32 where "DNSSEC_OK_BIT \<equiv> 0x8000"
abbreviation (input) EDNS_PAYLOAD_SIZE :: u16 where "EDNS_PAYLOAD_SIZE \<equiv> 1232"
abbreviation (input) RCODE_NOERROR :: u8 where "RCODE_NOERROR \<equiv> 0"
abbreviation (input) RCODE_FORMERR :: u8 where "RCODE_FORMERR \<equiv> 1"
abbreviation (input) RCODE_SERVFAIL :: u8 where "RCODE_SERVFAIL \<equiv> 2"
abbreviation (input) RCODE_NXDOMAIN :: u8 where "RCODE_NXDOMAIN \<equiv> 3"

subsection \<open>Record types and classes of \<open>hickory_proto\<close>\<close>

text \<open>
  \<open>RecordType::from(u16)\<close>, \<open>DNSClass::from(u16)\<close>, \<open>u16::from\<close> of both, \<open>RecordType::A\<close>
  and \<open>DNSClass::IN\<close>. What is documented of them, and used, is that the conversions are
  lossless and that A and IN have the code 1.
\<close>

record ('rt, 'cl) rr_codec =
  rtype_from :: "u16 \<Rightarrow> 'rt"
  class_from :: "u16 \<Rightarrow> 'cl"
  rtype_code :: "'rt \<Rightarrow> u16"
  class_code :: "'cl \<Rightarrow> u16"
  rtype_A :: 'rt
  class_IN :: 'cl

definition codec_ok :: "('rt, 'cl) rr_codec \<Rightarrow> bool" where
  "codec_ok h \<longleftrightarrow>
     (\<forall>n. rtype_code h (rtype_from h n) = n) \<and> (\<forall>n. class_code h (class_from h n) = n) \<and>
     rtype_from h 1 = rtype_A h \<and> class_from h 1 = class_IN h"

subsection \<open>Reading\<close>

record ('rt, 'cl) parsed_query =
  pq_id :: u16
  opcode :: u8
  recursion_desired :: bool
  name_len :: nat
  qtype :: 'rt
  qclass :: 'cl
  question :: "nat \<times> nat"
  has_opt :: bool
  dnssec_ok :: bool
  checking_disabled :: bool

definition u16_at :: "bytes \<Rightarrow> nat \<Rightarrow> u16 option" where
  "u16_at raw at = do { a \<leftarrow> get raw at; b \<leftarrow> get raw (at + 1); Some (u16_of_be a b) }"

definition u32_at :: "bytes \<Rightarrow> nat \<Rightarrow> u32 option" where
  "u32_at raw at = do {
     a \<leftarrow> get raw at; b \<leftarrow> get raw (at + 1); c \<leftarrow> get raw (at + 2); d \<leftarrow> get raw (at + 3);
     Some (u32_of_be a b c d) }"

text \<open>The label loop of \<open>parse_query\<close>: the offset past the name, its length and the buffer.\<close>

function qname_loop :: "bytes \<Rightarrow> nat \<Rightarrow> nat \<Rightarrow> bytes \<Rightarrow> (nat \<times> nat \<times> bytes) option" where
  "qname_loop raw at nlen name_buf =
     (case get raw at of
        None \<Rightarrow> None
      | Some b \<Rightarrow>
          let label_len = unat b in
          if label_len AND 0xc0 \<noteq> 0 then None
          else if label_len = 0 then Some (at + 1, nlen, name_buf)
          else case get_range raw (at + 1) (at + 1 + label_len) of
                 None \<Rightarrow> None
               | Some label \<Rightarrow>
                   if nlen + label_len + 1 > MAX_NAME_LEN then None
                   else
                     let buf1 = blit name_buf nlen (map ascii_lower label);
                         buf2 = buf1[nlen + label_len := 46]
                     in qname_loop raw (at + 1 + label_len) (nlen + label_len + 1) buf2)"
  by pat_completeness auto
termination
  by (relation "measure (\<lambda>(raw, at, _, _). length raw - at)") (auto simp: get_eq_Some)

function skip_name :: "bytes \<Rightarrow> nat \<Rightarrow> nat option" where
  "skip_name raw at =
     (case get raw at of
        None \<Rightarrow> None
      | Some b \<Rightarrow>
          let len = unat b in
          if len AND 0xc0 = 0xc0 then (if at + 2 \<le> length raw then Some (at + 2) else None)
          else if len AND 0xc0 \<noteq> 0 then None
          else if len = 0 then (if at + 1 \<le> length raw then Some (at + 1) else None)
          else skip_name raw (at + (1 + len)))"
  by pat_completeness auto
termination
  by (relation "measure (\<lambda>(raw, at). length raw - at)") (auto simp: get_eq_Some)

declare qname_loop.simps [simp del] skip_name.simps [simp del]

text \<open>
  The record walk of \<open>find_opt\<close>: \<open>Inl\<close> is the early return with an OPT record,
  \<open>Inr\<close> the offset past the section.
\<close>

fun find_opt_records :: "bytes \<Rightarrow> nat \<Rightarrow> nat \<Rightarrow> nat \<Rightarrow> ((bool \<times> bool) + nat) option" where
  "find_opt_records raw sec 0 at = Some (Inr at)"
| "find_opt_records raw sec (Suc n) at = do {
     at \<leftarrow> skip_name raw at;
     rtype \<leftarrow> u16_at raw at;
     rdlen \<leftarrow> u16_at raw (at + 8);
     if sec = 2 \<and> rtype = OPT_RECORD_TYPE then do {
       ttl \<leftarrow> u32_at raw (at + 4);
       Some (Inl (True, ttl AND DNSSEC_OK_BIT \<noteq> 0)) }
     else if at + 10 + unat rdlen > length raw then None
     else find_opt_records raw sec n (at + 10 + unat rdlen) }"

fun find_opt_sections :: "bytes \<Rightarrow> (nat \<times> u16) list \<Rightarrow> nat \<Rightarrow> (bool \<times> bool) option" where
  "find_opt_sections raw [] at = Some (False, False)"
| "find_opt_sections raw ((sec, count) # cs) at =
     (case find_opt_records raw sec (unat count) at of
        None \<Rightarrow> None
      | Some (Inl r) \<Rightarrow> Some r
      | Some (Inr at') \<Rightarrow> find_opt_sections raw cs at')"

definition find_opt :: "bytes \<Rightarrow> nat \<Rightarrow> (bool \<times> bool) option" where
  "find_opt raw at = do {
     an \<leftarrow> u16_at raw 6; ns \<leftarrow> u16_at raw 8; ar \<leftarrow> u16_at raw 10;
     find_opt_sections raw [(0, an), (1, ns), (2, ar)] at }"

definition parse_query ::
  "('rt, 'cl) rr_codec \<Rightarrow> bytes \<Rightarrow> bytes \<Rightarrow> (('rt, 'cl) parsed_query \<times> bytes) option" where
  "parse_query h raw name_buf =
     (if length raw < HEADER_LEN then None
      else if raw ! 2 AND 0x80 \<noteq> 0 then None
      else do {
        qdcount \<leftarrow> u16_at raw 4;
        if qdcount \<noteq> 1 then None else do {
        (at, nlen, buf) \<leftarrow> qname_loop raw HEADER_LEN 0 name_buf;
        let (nlen, buf) = (if nlen = 0 then (1, buf[0 := 46]) else (nlen, buf));
        qt \<leftarrow> u16_at raw at;
        qc \<leftarrow> u16_at raw (at + 2);
        if at + 4 > length raw then None else do {
        let (opt, dok) = (case find_opt raw (at + 4) of Some r \<Rightarrow> r | None \<Rightarrow> (False, False));
        Some
          (\<lparr>pq_id = u16_of_be (raw ! 0) (raw ! 1),
            opcode = drop_bit 3 (raw ! 2) AND 0x0f,
            recursion_desired = (raw ! 2 AND 1 \<noteq> 0),
            name_len = nlen,
            qtype = rtype_from h qt,
            qclass = class_from h qc,
            question = (HEADER_LEN, at + 4),
            has_opt = opt,
            dnssec_ok = dok,
            checking_disabled = (raw ! 3 AND 0x10 \<noteq> 0)\<rparr>, buf) }}})"

definition set_id :: "bytes \<Rightarrow> u16 \<Rightarrow> bytes" where
  "set_id wire i = (if length wire \<ge> 2 then blit wire 0 (be16 i) else wire)"

definition question_span :: "bytes \<Rightarrow> (nat \<times> nat) option" where
  "question_span raw =
     (if length raw < HEADER_LEN then None
      else do {
        qdcount \<leftarrow> u16_at raw 4;
        if qdcount \<noteq> 1 then None else do {
        e \<leftarrow> skip_name raw HEADER_LEN;
        if e + 4 \<le> length raw then Some (HEADER_LEN, e + 4) else None }})"

definition questions_match :: "bytes \<Rightarrow> bytes \<Rightarrow> bool" where
  "questions_match a b \<longleftrightarrow>
     length a = length b \<and> list_all (\<lambda>(x, y). eq_ignore_ascii_case x y) (zip a b)"

text \<open>\<open>QuestionKey\<close>: a length and a fixed array of \<open>MAX_QUESTION_LEN\<close> bytes.\<close>

record question_key =
  qk_len :: u16
  qk_bytes :: bytes

definition question_key_from_wire :: "bytes \<Rightarrow> question_key option" where
  "question_key_from_wire wire = do {
     (a, b) \<leftarrow> question_span wire;
     q \<leftarrow> get_range wire a b;
     if length q > MAX_QUESTION_LEN then None
     else Some \<lparr>qk_len = of_nat (length q),
                qk_bytes = blit (replicate MAX_QUESTION_LEN 0) 0 q\<rparr> }"

definition question_key_matches :: "question_key \<Rightarrow> bytes \<Rightarrow> bool" where
  "question_key_matches k wire =
     (case question_span wire of
        None \<Rightarrow> False
      | Some (a, b) \<Rightarrow>
          questions_match (take (b - a) (drop a wire)) (take (unat (qk_len k)) (qk_bytes k)))"

subsection \<open>Ageing TTLs in place\<close>

definition aged_ttl :: "u32 \<Rightarrow> bool \<Rightarrow> u32 \<Rightarrow> u32" where
  "aged_ttl elapsed force_zero ttl =
     (if force_zero then 0 else if elapsed \<le> ttl then ttl - elapsed else 0)"

fun age_skip_questions :: "bytes \<Rightarrow> nat \<Rightarrow> nat \<Rightarrow> nat option" where
  "age_skip_questions wire 0 at = Some at"
| "age_skip_questions wire (Suc n) at =
     (case skip_name wire at of
        None \<Rightarrow> None
      | Some e \<Rightarrow> if e + 4 > length wire then None else age_skip_questions wire n (e + 4))"

text \<open>The record loop edits \<open>wire\<close> as it goes, so an early \<open>false\<close> leaves earlier edits in.\<close>

fun age_records :: "bytes \<Rightarrow> nat \<Rightarrow> nat \<Rightarrow> u32 \<Rightarrow> bool \<Rightarrow> bool \<times> bytes" where
  "age_records wire 0 at elapsed fz = (True, wire)"
| "age_records wire (Suc n) at elapsed fz =
     (case skip_name wire at of
        None \<Rightarrow> (False, wire)
      | Some at \<Rightarrow>
     (case u16_at wire at of
        None \<Rightarrow> (False, wire)
      | Some rtype \<Rightarrow>
     (case u32_at wire (at + 4) of
        None \<Rightarrow> (False, wire)
      | Some ttl \<Rightarrow>
          let wire' = (if rtype \<noteq> OPT_RECORD_TYPE
                       then blit wire (at + 4) (be32 (aged_ttl elapsed fz ttl)) else wire)
          in case u16_at wire' (at + 8) of
               None \<Rightarrow> (False, wire')
             | Some rdlen \<Rightarrow>
                 if at + (10 + unat rdlen) > length wire' then (False, wire')
                 else age_records wire' n (at + (10 + unat rdlen)) elapsed fz)))"

definition age_ttls :: "bytes \<Rightarrow> u32 \<Rightarrow> bool \<Rightarrow> bool \<times> bytes" where
  "age_ttls wire elapsed fz =
     (if length wire < HEADER_LEN then (False, wire)
      else case u16_at wire 4 of
        None \<Rightarrow> (False, wire)
      | Some questions \<Rightarrow>
          (case (u16_at wire 6, u16_at wire 8, u16_at wire 10) of
             (Some a, Some n, Some r) \<Rightarrow>
               (case age_skip_questions wire (unat questions) HEADER_LEN of
                  None \<Rightarrow> (False, wire)
                | Some at \<Rightarrow> age_records wire (unat a + unat n + unat r) at elapsed fz)
           | _ \<Rightarrow> (False, wire)))"

subsection \<open>Building responses\<close>

text \<open>An IPv4 address is its four octets; \<open>of_bool\<close> is \<open>u8::from(bool)\<close>.\<close>

fun octets :: "ipv4 \<Rightarrow> bytes" where
  "octets (a, b, c, d) = [a, b, c, d]"

definition synthesize ::
  "('rt, 'cl) rr_codec \<Rightarrow> bytes \<Rightarrow> ('rt, 'cl) parsed_query \<Rightarrow> u8 \<Rightarrow> (ipv4 \<times> u32) option \<Rightarrow> bytes" where
  "synthesize h raw q rcode answer =
     be16 (pq_id q)
     @ [0x80 OR push_bit 3 (opcode q) OR of_bool (recursion_desired q)]
     @ [0x80 OR push_bit 4 (of_bool (checking_disabled q)) OR (rcode AND 0x0f)]
     @ be16 1
     @ be16 (of_bool (answer \<noteq> None))
     @ be16 0
     @ be16 (of_bool (has_opt q))
     @ take (snd (question q) - fst (question q)) (drop (fst (question q)) raw)
     @ (case answer of
          None \<Rightarrow> []
        | Some (ip, ttl) \<Rightarrow>
            [0xc0, of_nat HEADER_LEN] @ be16 (rtype_code h (rtype_A h))
            @ be16 (class_code h (class_IN h)) @ be32 ttl @ be16 4 @ octets ip)
     @ (if has_opt q
        then [0] @ be16 OPT_RECORD_TYPE @ be16 EDNS_PAYLOAD_SIZE
             @ be32 (if dnssec_ok q then DNSSEC_OK_BIT else 0) @ be16 0
        else [])"

definition bare_error :: "bytes \<Rightarrow> u8 \<Rightarrow> bytes" where
  "bare_error raw rcode =
     (let i = (case get_range raw 0 2 of Some b \<Rightarrow> u16_of_be (b ! 0) (b ! 1) | None \<Rightarrow> 0);
          opc = (case get raw 2 of Some b \<Rightarrow> drop_bit 3 b AND 0x0f | None \<Rightarrow> 0)
      in be16 i @ [0x80 OR push_bit 3 opc] @ [0x80 OR (rcode AND 0x0f)] @ replicate 8 0)"

end
