(* ===== verification/Wire_Correct.thy ===== *)
theory Wire_Correct
  imports Wire
begin

text \<open>
  The correctness of \<open>Wire\<close>. A small grammar of the wire format comes first: labels and
  names (\<open>enc_name\<close>), the dotted form the resolver keys on (\<open>canonical\<close>), headers, questions,
  resource records and whole messages (\<open>enc_msg\<close>). The lemmas then describe every walker by
  what it returns when the bytes at its offset start with an encoded item, and the properties
  at the end state what parsing, response building, ageing and the question comparison do.
\<close>

section \<open>The grammar of names and messages\<close>

definition label_ok :: "bytes \<Rightarrow> bool" where
  "label_ok l \<longleftrightarrow> 0 < length l \<and> length l < 64"

definition enc_labels :: "bytes list \<Rightarrow> bytes" where
  "enc_labels ls = concat (map (\<lambda>l. of_nat (length l) # l) ls)"

definition enc_name :: "bytes list \<Rightarrow> bytes" where
  "enc_name ls = enc_labels ls @ [0]"

definition dotted :: "bytes list \<Rightarrow> bytes" where
  "dotted ls = concat (map (\<lambda>l. map ascii_lower l @ [46]) ls)"

definition canonical :: "bytes list \<Rightarrow> bytes" where
  "canonical ls = (if ls = [] then [46] else dotted ls)"

lemma enc_labels_simps [simp]:
  "enc_labels [] = []" "enc_labels (l # ls) = of_nat (length l) # l @ enc_labels ls"
  by (simp_all add: enc_labels_def)

lemma dotted_simps [simp]:
  "dotted [] = []" "dotted (l # ls) = map ascii_lower l @ [46] @ dotted ls"
  by (simp_all add: dotted_def)

lemma enc_name_simps [simp]:
  "enc_name [] = [0]" "enc_name (l # ls) = of_nat (length l) # l @ enc_name ls"
  by (simp_all add: enc_name_def)

text \<open>The two top bits of a length byte, for the test \<open>len & 0xc0\<close>.\<close>

lemma and_0xc0: "n < 256 \<Longrightarrow> (n::nat) AND 0xc0 = 64 * (n div 64)"
proof -
  assume n: "n < 256"
  have eq: "n AND push_bit 6 m = push_bit 6 (drop_bit 6 n AND m)" for m :: nat
    by (rule bit_eqI) (auto simp: bit_simps)
  have "n AND push_bit 6 3 = push_bit 6 (drop_bit 6 n AND 3)"
    by (rule eq)
  also have "drop_bit 6 n AND 3 = take_bit 2 (n div 64)"
    by (simp add: take_bit_eq_mask mask_eq_exp_minus_1 drop_bit_eq_div)
  also have "\<dots> = n div 64"
    using n by (simp add: take_bit_eq_mod)
  finally show ?thesis
    by (simp add: push_bit_eq_mult)
qed
lemma and_0xc0_eq:
  assumes "n < 256"
  shows "n AND 0xc0 = 0 \<longleftrightarrow> n < 64" "n AND 0xc0 = 0xc0 \<longleftrightarrow> 192 \<le> (n::nat)"
proof -
  have "n div 64 = 3 \<longleftrightarrow> 192 \<le> n" "n div 64 = 0 \<longleftrightarrow> n < 64"
    using assms by linarith+
  then show "n AND 0xc0 = 0 \<longleftrightarrow> n < 64" "n AND 0xc0 = 0xc0 \<longleftrightarrow> 192 \<le> (n::nat)"
    using assms by (simp_all add: and_0xc0)
qed

lemma unat_u8_less [simp]: "unat (b :: u8) < 256"
  using unsigned_less [of b, where ?'a = nat] by simp

lemma label_byte_top [simp]:
  "unat (b :: u8) AND 0xc0 = 0 \<longleftrightarrow> unat b < 64"
  "0 < unat (b :: u8) AND 0xc0 \<longleftrightarrow> 64 \<le> unat b"
  "unat (b :: u8) AND 0xc0 = 0xc0 \<longleftrightarrow> 192 \<le> unat b"
  using and_0xc0_eq [of "unat b"] by auto

lemma unat_length_byte [simp]: "length l < 256 \<Longrightarrow> unat (of_nat (length l) :: u8) = length l"
  by (simp add: unat_of_nat)

lemma length_byte_eq_0 [simp]: "length l < 256 \<Longrightarrow> (of_nat (length l) :: u8) = 0 \<longleftrightarrow> l = []"
  by (auto simp: unat_eq_zero [symmetric] simp del: unat_eq_zero)

section \<open>The label loop\<close>

lemma blit_Nil [simp]: "blit buf i [] = buf"
  by (simp add: blit_def)

lemma blit_blit:
  "n + length a + length b \<le> length buf \<Longrightarrow> blit (blit buf n a) (n + length a) b = blit buf n (a @ b)"
  by (simp add: blit_def add_ac)

lemma list_update_blit: "i < length buf \<Longrightarrow> buf[i := x] = blit buf i [x]"
  by (simp add: blit_def upd_conv_take_nth_drop)

lemma blit_label:
  "n + length l < length buf \<Longrightarrow>
   (blit buf n l)[n + length l := x] = blit buf n (l @ [x])"
  by (simp add: list_update_blit blit_blit)

lemma qname_loop_stop [simp]:
  "get raw at = Some 0 \<Longrightarrow> qname_loop raw at n buf = Some (at + 1, n, buf)"
  by (simp add: qname_loop.simps)

lemma qname_loop_label:
  assumes "get raw at = Some b" "0 < unat b" "unat b < 64"
    and "get_range raw (at + 1) (at + 1 + unat b) = Some l"
    and "n + length l + 1 \<le> 255" "length buf = 255"
  shows "qname_loop raw at n buf =
    qname_loop raw (at + 1 + length l) (n + length (map ascii_lower l @ [46]))
      (blit buf n (map ascii_lower l @ [46]))"
proof -
  have len: "length l = unat b"
    using get_range_length [OF assms(4)] by simp
  show ?thesis
    using assms len blit_label [of n "map ascii_lower l" buf 46]
    by (subst qname_loop.simps) (simp add: Let_def add.assoc)
qed

lemma qname_loop_complete:
  "list_all label_ok ls \<Longrightarrow> n + length (dotted ls) \<le> 255 \<Longrightarrow> length buf = 255 \<Longrightarrow>
   qname_loop (pre @ enc_name ls @ post) (length pre) n buf =
     Some (length pre + length (enc_name ls), n + length (dotted ls), blit buf n (dotted ls))"
proof (induction ls arbitrary: pre n buf)
  case Nil
  then show ?case by simp
next
  case (Cons l ls)
  let ?raw = "pre @ enc_name (l # ls) @ post"
  let ?pre = "pre @ of_nat (length l) # l"
  let ?d = "map ascii_lower l @ [46]"
  have l: "0 < length l" "length l < 64"
    using Cons.prems by (auto simp: label_ok_def)
  have raw: "?raw = ?pre @ enc_name ls @ post"
    by simp
  have b: "get ?raw (length pre) = Some (of_nat (length l))"
    by simp
  have r: "get_range ?raw (length pre + 1) (length pre + 1 + unat (of_nat (length l) :: u8)) = Some l"
    using get_range_mid [of "pre @ [of_nat (length l)]" l "enc_name ls @ post"] l by simp
  have "qname_loop ?raw (length pre) n buf =
      qname_loop ?raw (length pre + 1 + length l) (n + length ?d) (blit buf n ?d)"
    using l Cons.prems by (intro qname_loop_label [OF b _ _ r]) auto
  also have "\<dots> = qname_loop (?pre @ enc_name ls @ post) (length ?pre) (n + length ?d) (blit buf n ?d)"
    by simp
  also have "\<dots> = Some (length ?pre + length (enc_name ls), n + length ?d + length (dotted ls),
      blit (blit buf n ?d) (n + length ?d) (dotted ls))"
    using Cons.prems by (intro Cons.IH) auto
  also have "blit (blit buf n ?d) (n + length ?d) (dotted ls) = blit buf n (?d @ dotted ls)"
    using Cons.prems by (intro blit_blit) auto
  finally show ?case by simp
qed

lemma qname_loop_sound:
  "qname_loop raw at n buf = Some (at', n', buf') \<Longrightarrow> n \<le> 255 \<Longrightarrow> length buf = 255 \<Longrightarrow>
   \<exists>ls. list_all label_ok ls \<and> at + length (enc_name ls) = at' \<and> at' \<le> length raw \<and>
     take (length (enc_name ls)) (drop at raw) = enc_name ls \<and>
     n' = n + length (dotted ls) \<and> n' \<le> 255 \<and> buf' = blit buf n (dotted ls)"
proof (induction raw at n buf rule: qname_loop.induct)
  case (1 raw at n buf)
  from "1.prems"(1) obtain b where b: "get raw at = Some b"
    by (subst (asm) qname_loop.simps) (auto split: option.splits)
  then have at: "at < length raw" "drop at raw = b # drop (at + 1) raw"
    by (auto simp: slice_simps Cons_nth_drop_Suc)
  have top: "unat b < 64"
    using "1.prems"(1) b by (subst (asm) qname_loop.simps) (auto simp: Let_def split: if_splits)
  show ?case
  proof (cases "unat b = 0")
    case True
    with b "1.prems" at show ?thesis
      by (intro exI [of _ "[]"]) (auto simp: unat_eq_zero)
  next
    case False
    from "1.prems"(1) b top False obtain l where l: "get_range raw (at + 1) (at + 1 + unat b) = Some l"
      and fit: "n + unat b + 1 \<le> 255"
      by (subst (asm) qname_loop.simps) (auto simp: Let_def split: option.splits if_splits)
    let ?d = "map ascii_lower l @ [46]"
    have len: "length l = unat b" "at + 1 + length l \<le> length raw" "take (length l) (drop (at + 1) raw) = l"
      using l by (auto simp: slice_simps)
    have step: "qname_loop raw at n buf =
        qname_loop raw (at + 1 + length l) (n + length ?d) (blit buf n ?d)"
      using b l top False fit "1.prems" len by (intro qname_loop_label) auto
    have upd: "(blit buf n (map ascii_lower l))[n + unat b := 46] = blit buf n ?d"
      using fit len "1.prems" blit_label [of n "map ascii_lower l" buf 46] by simp
    have "\<exists>ls. list_all label_ok ls \<and> at + 1 + length l + length (enc_name ls) = at' \<and> at' \<le> length raw \<and>
       take (length (enc_name ls)) (drop (at + 1 + length l) raw) = enc_name ls \<and>
       n' = n + length ?d + length (dotted ls) \<and> n' \<le> 255 \<and>
       buf' = blit (blit buf n ?d) (n + length ?d) (dotted ls)"
      using "1.IH" [OF b refl _ False l _ refl refl] top fit len step upd "1.prems"
      by (simp add: add.assoc)
    then obtain ls where ls: "list_all label_ok ls" "at + 1 + length l + length (enc_name ls) = at'"
      "at' \<le> length raw" "take (length (enc_name ls)) (drop (at + 1 + length l) raw) = enc_name ls"
      "n' = n + length ?d + length (dotted ls)" "n' \<le> 255"
      "buf' = blit (blit buf n ?d) (n + length ?d) (dotted ls)"
      by blast
    have "b = of_nat (length l)"
      using len by simp
    moreover have "take (length l + length (enc_name ls)) (drop (at + 1) raw) = l @ enc_name ls"
      using len ls by (simp add: take_add add.commute)
    moreover have "buf' = blit buf n (?d @ dotted ls)"
      using ls "1.prems" blit_blit [of n ?d "dotted ls" buf] by simp
    ultimately show ?thesis
      using ls len top False at by (intro exI [of _ "l # ls"]) (auto simp: label_ok_def [of l])
  qed
qed

section \<open>Reading at an offset\<close>

text \<open>
  A walker at offset \<open>at\<close> sees \<open>drop at raw\<close>: each reader is described by what it returns
  when that suffix starts with an encoded item, and \<open>at_append\<close> moves past the item.
\<close>

lemma at_append: "drop at raw = xs @ rest \<Longrightarrow> drop (at + length xs) raw = rest"
  by (metis append_eq_conv_conj drop_drop add.commute)

lemma at_append_le:
  assumes "drop at raw = xs @ rest" "xs \<noteq> []"
  shows "at + length xs \<le> length raw"
proof -
  have "length raw - at = length xs + length rest"
    using arg_cong [OF assms(1), of length] by simp
  moreover have "0 < length xs"
    using assms(2) by simp
  ultimately show ?thesis by linarith
qed

lemma at_get:
  assumes "drop at raw = b # rest"
  shows "get raw at = Some b"
proof -
  have "at + length [b] \<le> length raw"
    by (rule at_append_le) (use assms in auto)
  with assms show ?thesis
    by (simp add: get_eq_Some nth_via_drop)
qed

lemma at_get_nth: "drop at raw = xs @ rest \<Longrightarrow> k < length xs \<Longrightarrow> get raw (at + k) = Some (xs ! k)"
  by (rule at_get [where rest = "drop (Suc k) (xs @ rest)"])
    (metis Cons_nth_drop_Suc add.commute append_assoc drop_append drop_drop length_append nth_append
      trans_less_add1)

lemma at_u16: "drop at raw = be16 w @ rest \<Longrightarrow> u16_at raw at = Some w"
  using at_get_nth [of at raw "be16 w" rest 0] at_get_nth [of at raw "be16 w" rest 1]
  by (simp add: u16_at_def be16_def)

lemma at_u32: "drop at raw = be32 w @ rest \<Longrightarrow> u32_at raw at = Some w"
  using at_get_nth [of at raw "be32 w" rest 0] at_get_nth [of at raw "be32 w" rest 1]
    at_get_nth [of at raw "be32 w" rest 2] at_get_nth [of at raw "be32 w" rest 3]
  by (simp add: u32_at_def be32_def)

lemma u16_at_SomeE:
  assumes "u16_at raw at = Some w"
  obtains rest where "drop at raw = be16 w @ rest"
proof -
  from assms have l: "at + 1 < length raw" and w: "w = u16_of_be (raw ! at) (raw ! (at + 1))"
    by (auto simp: u16_at_def slice_simps bind_eq_Some_conv)
  have "drop at raw = raw ! at # raw ! (at + 1) # drop (at + 2) raw"
    using l by (simp add: Cons_nth_drop_Suc)
  then have "drop at raw = be16 w @ drop (at + 2) raw"
    by (simp add: w)
  then show ?thesis by (rule that)
qed

section \<open>Queries\<close>

definition enc_header :: "u16 \<Rightarrow> u8 \<Rightarrow> u8 \<Rightarrow> u16 \<Rightarrow> u16 \<Rightarrow> u16 \<Rightarrow> u16 \<Rightarrow> bytes" where
  "enc_header i b2 b3 qd an ns ar = be16 i @ [b2, b3] @ be16 qd @ be16 an @ be16 ns @ be16 ar"

lemma length_enc_header [simp]: "length (enc_header i b2 b3 qd an ns ar) = 12"
  by (simp add: enc_header_def)

lemma enc_header_nth:
  "enc_header i b2 b3 qd an ns ar ! 0 = ucast (drop_bit 8 i)"
  "enc_header i b2 b3 qd an ns ar ! Suc 0 = ucast i"
  "enc_header i b2 b3 qd an ns ar ! 2 = b2"
  "enc_header i b2 b3 qd an ns ar ! 3 = b3"
  by (simp_all add: enc_header_def be16_def)

lemma enc_header_u16_at [simp]:
  "u16_at (enc_header i b2 b3 qd an ns ar @ rest) 4 = Some qd"
  "u16_at (enc_header i b2 b3 qd an ns ar @ rest) 6 = Some an"
  "u16_at (enc_header i b2 b3 qd an ns ar @ rest) 8 = Some ns"
  "u16_at (enc_header i b2 b3 qd an ns ar @ rest) 10 = Some ar"
  by (rule at_u16, simp add: enc_header_def be16_def)+

lemma split_header:
  assumes "12 \<le> length raw"
  obtains i b2 b3 qd an ns ar rest where "raw = enc_header i b2 b3 qd an ns ar @ rest"
proof -
  obtain a b c d e f g h i j k l rest where
    "raw = a # b # c # d # e # f # g # h # i # j # k # l # rest"
    using assms by (auto simp: Suc_le_length_iff numeral_eq_Suc)
  then have "raw = enc_header (u16_of_be a b) c d (u16_of_be e f) (u16_of_be g h) (u16_of_be i j)
      (u16_of_be k l) @ rest"
    by (simp add: enc_header_def)
  then show ?thesis by (rule that)
qed

definition query_wire ::
  "u16 \<Rightarrow> u8 \<Rightarrow> u8 \<Rightarrow> u16 \<Rightarrow> u16 \<Rightarrow> u16 \<Rightarrow> bytes list \<Rightarrow> u16 \<Rightarrow> u16 \<Rightarrow> bytes \<Rightarrow> bytes" where
  "query_wire i b2 b3 an ns ar ls qt qc rest =
     enc_header i b2 b3 1 an ns ar @ enc_name ls @ be16 qt @ be16 qc @ rest"

text \<open>What \<open>parse_query\<close> reports of such a message.\<close>

definition query_info ::
  "('rt, 'cl) rr_codec \<Rightarrow> u16 \<Rightarrow> u8 \<Rightarrow> u8 \<Rightarrow> bytes list \<Rightarrow> u16 \<Rightarrow> u16 \<Rightarrow> bool \<times> bool
    \<Rightarrow> ('rt, 'cl) parsed_query" where
  "query_info h i b2 b3 ls qt qc eo =
     \<lparr>pq_id = i, opcode = drop_bit 3 b2 AND 0x0f, recursion_desired = (b2 AND 1 \<noteq> 0),
      name_len = length (canonical ls), qtype = rtype_from h qt, qclass = class_from h qc,
      question = (12, 16 + length (enc_name ls)), has_opt = fst eo, dnssec_ok = snd eo,
      checking_disabled = (b3 AND 0x10 \<noteq> 0)\<rparr>"

definition opt_of :: "bytes \<Rightarrow> nat \<Rightarrow> bool \<times> bool" where
  "opt_of raw at = (case find_opt raw at of Some r \<Rightarrow> r | None \<Rightarrow> (False, False))"

lemma dotted_eq_Nil [simp]: "dotted ls = [] \<longleftrightarrow> ls = []"
  by (cases ls) simp_all

lemma parse_query_complete:
  assumes "raw = query_wire i b2 b3 an ns ar ls qt qc rest"
    and "b2 AND 0x80 = 0" "list_all label_ok ls" "length (dotted ls) \<le> 255" "length buf = 255"
  shows "parse_query h raw buf =
    Some (query_info h i b2 b3 ls qt qc (opt_of raw (16 + length (enc_name ls))),
          blit buf 0 (canonical ls))"
proof -
  have loop: "qname_loop raw 12 0 buf = Some (12 + length (enc_name ls), length (dotted ls), blit buf 0 (dotted ls))"
    using qname_loop_complete [of ls 0 buf "enc_header i b2 b3 1 an ns ar" "be16 qt @ be16 qc @ rest"] assms
    by (simp add: query_wire_def)
  have d: "drop (12 + length (enc_name ls)) raw = be16 qt @ be16 qc @ rest"
    using assms(1) by (simp add: query_wire_def)
  have qt: "u16_at raw (12 + length (enc_name ls)) = Some qt"
    by (rule at_u16 [OF d])
  have d2: "drop (12 + length (enc_name ls) + 2) raw = be16 qc @ rest"
    using at_append [OF d] by simp
  have qc: "u16_at raw (12 + length (enc_name ls) + 2) = Some qc"
    by (rule at_u16 [OF d2])
  have le: "12 + length (enc_name ls) + 4 \<le> length raw"
    using assms(1) by (simp add: query_wire_def)
  have hd: "12 \<le> length raw" "u16_at raw 4 = Some 1" "raw ! 2 = b2" "raw ! 3 = b3"
    "u16_of_be (raw ! 0) (raw ! Suc 0) = i"
    using assms(1) by (simp_all add: query_wire_def nth_append enc_header_nth)
  show ?thesis
    using hd loop qt qc le assms(2-)
    by (auto simp: parse_query_def Let_def query_info_def opt_of_def canonical_def
        list_update_blit add.commute split: prod.splits)
qed

lemma parse_query_sound:
  assumes "parse_query h raw buf = Some (q, buf')" "length buf = 255"
  obtains i b2 b3 an ns ar ls qt qc rest where
    "raw = query_wire i b2 b3 an ns ar ls qt qc rest" "b2 AND 0x80 = 0"
    "list_all label_ok ls" "length (dotted ls) \<le> 255"
proof -
  from assms(1) have "12 \<le> length raw"
    by (auto simp: parse_query_def split: if_splits)
  then obtain i b2 b3 qd an ns ar rest0 where raw: "raw = enc_header i b2 b3 qd an ns ar @ rest0"
    by (rule split_header)
  from assms(1) have b2: "b2 AND 0x80 = 0" and qd: "qd = 1"
    by (auto simp: parse_query_def raw nth_append enc_header_nth split: if_splits)
  from assms(1) obtain at nlen buf1 qt qc where
    loop: "qname_loop raw 12 0 buf = Some (at, nlen, buf1)"
    and qt: "u16_at raw at = Some qt" and qc: "u16_at raw (at + 2) = Some qc"
    by (auto simp: parse_query_def Let_def bind_eq_Some_conv split: if_splits)
  from qname_loop_sound [OF loop] assms(2) obtain ls where
    ls: "list_all label_ok ls" "12 + length (enc_name ls) = at" "length (dotted ls) \<le> 255"
      "take (length (enc_name ls)) (drop 12 raw) = enc_name ls"
    by auto
  have "drop 12 raw = enc_name ls @ drop at raw"
    using ls by (metis append_take_drop_id drop_drop add.commute)
  moreover obtain r1 where r1: "drop at raw = be16 qt @ r1"
    by (rule u16_at_SomeE [OF qt])
  moreover obtain r2 where "drop (at + 2) raw = be16 qc @ r2"
    by (rule u16_at_SomeE [OF qc])
  then have "r1 = be16 qc @ r2"
    using at_append [OF r1] by simp
  ultimately have "raw = query_wire i b2 b3 an ns ar ls qt qc r2"
    by (simp add: raw qd query_wire_def)
  then show ?thesis using b2 ls that by blast
qed

section \<open>Names and records of a message\<close>

text \<open>An encoded name: labels, then the root byte or a two-byte compression pointer.\<close>

function wire_name :: "bytes \<Rightarrow> bool" where
  "wire_name [] = False"
| "wire_name (b # bs) =
     (if b = 0 then bs = []
      else if 192 \<le> unat b then length bs = 1
      else unat b < 64 \<and> unat b \<le> length bs \<and> wire_name (drop (unat b) bs))"
  by pat_completeness auto
termination
  by (relation "measure length") auto

lemma skip_name_at:
  "wire_name ns \<Longrightarrow> drop at raw = ns @ rest \<Longrightarrow> skip_name raw at = Some (at + length ns)"
proof (induction ns arbitrary: at rule: wire_name.induct)
  case 1
  then show ?case by simp
next
  case (2 b bs)
  have g: "get raw at = Some b" and le: "at + length (b # bs) \<le> length raw"
    using at_get [of at raw b "bs @ rest"] at_append_le [OF "2.prems"(2)] "2.prems"(2) by auto
  consider (root) "b = 0" "bs = []" | (ptr) "192 \<le> unat b" "length bs = 1" |
    (label) "b \<noteq> 0" "unat b < 64" "unat b \<le> length bs" "wire_name (drop (unat b) bs)"
    using "2.prems"(1) by (auto split: if_splits)
  then show ?case
  proof cases
    case root
    with g le show ?thesis by (simp add: skip_name.simps)
  next
    case ptr
    with g le show ?thesis by (simp add: skip_name.simps)
  next
    case label
    have "drop (at + length (b # take (unat b) bs)) raw = drop (unat b) bs @ rest"
      by (rule at_append) (use "2.prems"(2) in \<open>simp flip: append_assoc\<close>)
    then have "drop (at + (1 + unat b)) raw = drop (unat b) bs @ rest"
      using label by simp
    then have "skip_name raw (at + (1 + unat b)) = Some (at + (1 + unat b) + length (drop (unat b) bs))"
      using label by (intro "2.IH") auto
    with g label show ?thesis
      by (subst skip_name.simps) (simp add: Let_def unat_eq_zero)
  qed
qed

lemma skip_name_SomeE:
  assumes "skip_name raw at = Some e"
  obtains ns rest where "wire_name ns" "drop at raw = ns @ rest" "e = at + length ns"
proof -
  have "\<exists>ns rest. wire_name ns \<and> drop at raw = ns @ rest \<and> e = at + length ns"
    using assms
  proof (induction raw at rule: skip_name.induct)
    case (1 raw at)
    from "1.prems" obtain b where b: "get raw at = Some b"
      by (subst (asm) skip_name.simps) (auto split: option.splits)
    then have d: "drop at raw = b # drop (at + 1) raw"
      by (auto simp: slice_simps Cons_nth_drop_Suc)
    consider (ptr) "192 \<le> unat b" "at + 2 \<le> length raw" "e = at + 2" | (root) "b = 0" "e = at + 1" |
      (label) "b \<noteq> 0" "unat b < 64" "skip_name raw (at + (1 + unat b)) = Some e"
      using "1.prems" b
      by (subst (asm) skip_name.simps) (auto simp: Let_def unat_eq_zero split: if_splits)
    then show ?case
    proof cases
      case ptr
      then have "drop at raw = b # raw ! (at + 1) # drop (at + 2) raw"
        using d by (simp add: Cons_nth_drop_Suc)
      with ptr show ?thesis
        by (intro exI [of _ "[b, raw ! (at + 1)]"] exI [of _ "drop (at + 2) raw"]) auto
    next
      case root
      with d show ?thesis
        by (intro exI [of _ "[0]"] exI [of _ "drop (at + 1) raw"]) auto
    next
      case label
      then obtain ns rest where ns: "wire_name ns" "drop (at + (1 + unat b)) raw = ns @ rest"
        "e = at + (1 + unat b) + length ns"
        using "1.IH" [OF b refl] by (auto simp: unat_eq_zero)
      have "at + (1 + unat b) + length ns \<le> length raw"
        using ns by (intro at_append_le) auto
      moreover have "drop (unat b) (drop (at + 1) raw) = ns @ rest"
        using ns(2) by (simp add: add_ac)
      then have "drop (at + 1) raw = take (unat b) (drop (at + 1) raw) @ ns @ rest"
        by (metis append_take_drop_id)
      ultimately show ?thesis
        using ns label d
        by (intro exI [of _ "b # take (unat b) (drop (at + 1) raw) @ ns"] exI [of _ rest])
          (auto simp: min_def)
    qed
  qed
  then show ?thesis using that by blast
qed

lemma wire_name_enc_name: "list_all label_ok ls \<Longrightarrow> wire_name (enc_name ls)"
  by (induction ls) (auto simp: label_ok_def)

record rr =
  rr_name :: bytes
  rr_type :: u16
  rr_class :: u16
  rr_ttl :: u32
  rr_data :: bytes

definition rr_ok :: "rr \<Rightarrow> bool" where
  "rr_ok r \<longleftrightarrow> wire_name (rr_name r) \<and> length (rr_data r) < 65536"

definition enc_rr :: "rr \<Rightarrow> bytes" where
  "enc_rr r = rr_name r @ be16 (rr_type r) @ be16 (rr_class r) @ be32 (rr_ttl r)
     @ be16 (of_nat (length (rr_data r))) @ rr_data r"

definition enc_rrs :: "rr list \<Rightarrow> bytes" where
  "enc_rrs rs = concat (map enc_rr rs)"

lemma enc_rrs_simps [simp]:
  "enc_rrs [] = []" "enc_rrs (r # rs) = enc_rr r @ enc_rrs rs" "enc_rrs (rs @ ss) = enc_rrs rs @ enc_rrs ss"
  by (simp_all add: enc_rrs_def)

lemma length_enc_rr: "length (enc_rr r) = length (rr_name r) + 10 + length (rr_data r)"
  by (simp add: enc_rr_def)

text \<open>What every record walk reads at an encoded record.\<close>

lemma at_rr:
  assumes "rr_ok r" "drop at raw = enc_rr r @ rest"
  defines "e \<equiv> at + length (rr_name r)"
  shows "skip_name raw at = Some e" "u16_at raw e = Some (rr_type r)" "u32_at raw (e + 4) = Some (rr_ttl r)"
    "u16_at raw (e + 8) = Some (of_nat (length (rr_data r)))"
    "unat (of_nat (length (rr_data r)) :: u16) = length (rr_data r)"
    "e + 10 + length (rr_data r) = at + length (enc_rr r)"
    "at + length (enc_rr r) \<le> length raw" "drop (at + length (enc_rr r)) raw = rest"
proof -
  have d: "drop at raw = rr_name r @ be16 (rr_type r) @ be16 (rr_class r) @ be32 (rr_ttl r)
     @ be16 (of_nat (length (rr_data r))) @ rr_data r @ rest"
    using assms(2) by (simp add: enc_rr_def)
  show "skip_name raw at = Some e"
    using assms(1) unfolding e_def rr_ok_def by (intro skip_name_at [OF _ d]) simp
  have e0: "drop e raw = be16 (rr_type r) @ be16 (rr_class r) @ be32 (rr_ttl r)
     @ be16 (of_nat (length (rr_data r))) @ rr_data r @ rest"
    unfolding e_def by (rule at_append [OF d])
  have e4: "drop (e + 4) raw = be32 (rr_ttl r) @ be16 (of_nat (length (rr_data r))) @ rr_data r @ rest"
    using at_append [OF at_append [OF e0]] by (simp add: numeral_eq_Suc)
  have e8: "drop (e + 8) raw = be16 (of_nat (length (rr_data r))) @ rr_data r @ rest"
    using at_append [OF e4] by (simp add: add.commute)
  show "u16_at raw e = Some (rr_type r)" by (rule at_u16 [OF e0])
  show "u32_at raw (e + 4) = Some (rr_ttl r)" by (rule at_u32 [OF e4])
  show "u16_at raw (e + 8) = Some (of_nat (length (rr_data r)))" by (rule at_u16 [OF e8])
  show "unat (of_nat (length (rr_data r)) :: u16) = length (rr_data r)"
    using assms(1) by (simp add: rr_ok_def unat_of_nat)
  show "e + 10 + length (rr_data r) = at + length (enc_rr r)"
    by (simp add: e_def length_enc_rr)
  show "at + length (enc_rr r) \<le> length raw"
    by (rule at_append_le [OF assms(2)]) (simp add: enc_rr_def be16_def)
  show "drop (at + length (enc_rr r)) raw = rest"
    by (rule at_append [OF assms(2)])
qed

section \<open>The EDNS record of a query\<close>

definition is_opt :: "rr \<Rightarrow> bool" where
  "is_opt r \<longleftrightarrow> rr_type r = OPT_RECORD_TYPE"

definition opt_answer :: "rr list \<Rightarrow> bool \<times> bool" where
  "opt_answer rs = (case find is_opt rs of
     None \<Rightarrow> (False, False) | Some r \<Rightarrow> (True, rr_ttl r AND DNSSEC_OK_BIT \<noteq> 0))"

lemma find_opt_records_at:
  "list_all rr_ok rs \<Longrightarrow> drop at raw = enc_rrs rs @ rest \<Longrightarrow>
   find_opt_records raw sec (length rs) at =
     Some (if sec = 2 \<and> find is_opt rs \<noteq> None then Inl (opt_answer rs)
           else Inr (at + length (enc_rrs rs)))"
proof (induction rs arbitrary: at)
  case Nil
  then show ?case by simp
next
  case (Cons r rs)
  have "rr_ok r" and d: "drop at raw = enc_rr r @ enc_rrs rs @ rest"
    using Cons.prems by auto
  note rd = at_rr [OF this]
  have ih: "find_opt_records raw sec (length rs) (at + length (enc_rr r)) =
     Some (if sec = 2 \<and> find is_opt rs \<noteq> None then Inl (opt_answer rs)
           else Inr (at + length (enc_rr r) + length (enc_rrs rs)))"
    using Cons.prems rd(8) by (intro Cons.IH) auto
  show ?case
    using rd ih
    by (cases "is_opt r") (auto simp: is_opt_def [of r] opt_answer_def add.assoc)
qed

lemma find_opt_at:
  assumes "list_all rr_ok (ans @ auths @ adds)"
    and "length ans < 65536" "length auths < 65536" "length adds < 65536"
    and "u16_at raw 6 = Some (of_nat (length ans))" "u16_at raw 8 = Some (of_nat (length auths))"
      "u16_at raw 10 = Some (of_nat (length adds))"
    and d: "drop at raw = enc_rrs (ans @ auths @ adds) @ rest"
  shows "find_opt raw at = Some (opt_answer adds)"
proof -
  have n: "unat (of_nat (length ans) :: u16) = length ans" "unat (of_nat (length auths) :: u16) = length auths"
    "unat (of_nat (length adds) :: u16) = length adds"
    using assms by (simp_all add: unat_of_nat)
  have d0: "drop at raw = enc_rrs ans @ enc_rrs auths @ enc_rrs adds @ rest"
    using d by simp
  have d1: "drop (at + length (enc_rrs ans)) raw = enc_rrs auths @ enc_rrs adds @ rest"
    by (rule at_append [OF d0])
  have d2: "drop (at + length (enc_rrs ans) + length (enc_rrs auths)) raw = enc_rrs adds @ rest"
    by (rule at_append [OF d1])
  have "find_opt_records raw 0 (length ans) at = Some (Inr (at + length (enc_rrs ans)))"
    "find_opt_records raw (Suc 0) (length auths) (at + length (enc_rrs ans)) =
      Some (Inr (at + length (enc_rrs ans) + length (enc_rrs auths)))"
    "find_opt_records raw 2 (length adds) (at + length (enc_rrs ans) + length (enc_rrs auths)) =
      Some (if find is_opt adds \<noteq> None then Inl (opt_answer adds)
        else Inr (at + length (enc_rrs ans) + length (enc_rrs auths) + length (enc_rrs adds)))"
    using assms(1) find_opt_records_at [OF _ d0, of 0] find_opt_records_at [OF _ d1, of 1]
      find_opt_records_at [OF _ d2, of 2] by simp_all
  then show ?thesis
    using assms n by (auto simp: find_opt_def opt_answer_def split: option.splits)
qed

section \<open>Messages\<close>

type_synonym wire_question = "bytes \<times> u16 \<times> u16"

fun enc_q :: "wire_question \<Rightarrow> bytes" where
  "enc_q (ns, t, c) = ns @ be16 t @ be16 c"

definition enc_qs :: "wire_question list \<Rightarrow> bytes" where
  "enc_qs qs = concat (map enc_q qs)"

lemma enc_qs_simps [simp]: "enc_qs [] = []" "enc_qs (q # qs) = enc_q q @ enc_qs qs"
  by (simp_all add: enc_qs_def)

definition enc_msg ::
  "u16 \<Rightarrow> u8 \<Rightarrow> u8 \<Rightarrow> wire_question list \<Rightarrow> rr list \<Rightarrow> rr list \<Rightarrow> rr list \<Rightarrow> bytes" where
  "enc_msg i b2 b3 qs ans auths adds =
     enc_header i b2 b3 (of_nat (length qs)) (of_nat (length ans)) (of_nat (length auths))
       (of_nat (length adds)) @ enc_qs qs @ enc_rrs (ans @ auths @ adds)"

definition msg_ok :: "wire_question list \<Rightarrow> rr list \<Rightarrow> rr list \<Rightarrow> rr list \<Rightarrow> bool" where
  "msg_ok qs ans auths adds \<longleftrightarrow>
     list_all (\<lambda>q. wire_name (fst q)) qs \<and> list_all rr_ok (ans @ auths @ adds) \<and>
     length qs < 65536 \<and> length ans < 65536 \<and> length auths < 65536 \<and> length adds < 65536"

lemma unat_count [simp]: "n < 65536 \<Longrightarrow> unat (of_nat n :: u16) = n"
  by (simp add: unat_of_nat)

section \<open>Ageing\<close>

definition age_rr :: "u32 \<Rightarrow> bool \<Rightarrow> rr \<Rightarrow> rr" where
  "age_rr e fz r = (if is_opt r then r else r\<lparr>rr_ttl := aged_ttl e fz (rr_ttl r)\<rparr>)"

lemma age_rr_simps [simp]:
  "rr_name (age_rr e fz r) = rr_name r" "rr_type (age_rr e fz r) = rr_type r"
  "rr_data (age_rr e fz r) = rr_data r" "rr_ok (age_rr e fz r) = rr_ok r"
  "length (enc_rr (age_rr e fz r)) = length (enc_rr r)"
  by (simp_all add: age_rr_def rr_ok_def length_enc_rr)

lemma age_skip_questions_at:
  "list_all (\<lambda>q. wire_name (fst q)) qs \<Longrightarrow> drop at raw = enc_qs qs @ rest \<Longrightarrow>
   age_skip_questions raw (length qs) at = Some (at + length (enc_qs qs))"
proof (induction qs arbitrary: at)
  case Nil
  then show ?case by simp
next
  case (Cons q qs)
  obtain ns t c where q: "q = (ns, t, c)" by (cases q)
  have d: "drop at raw = ns @ be16 t @ be16 c @ enc_qs qs @ rest"
    using Cons.prems by (simp add: q)
  have "skip_name raw at = Some (at + length ns)"
    using Cons.prems by (intro skip_name_at [OF _ d]) (simp add: q)
  moreover have d': "drop at raw = enc_q q @ enc_qs qs @ rest"
    using d by (simp add: q)
  moreover have "at + length (enc_q q) \<le> length raw"
    by (rule at_append_le [OF d']) (simp add: q be16_def)
  moreover have "age_skip_questions raw (length qs) (at + length (enc_q q)) =
      Some (at + length (enc_q q) + length (enc_qs qs))"
    using Cons.prems at_append [OF d'] by (intro Cons.IH) auto
  ultimately show ?case
    by (simp add: q add.assoc)
qed

lemma blit_ttl:
  assumes "\<not> is_opt r"
  shows "blit (pre @ enc_rr r @ rest) (length pre + length (rr_name r) + 4)
      (be32 (aged_ttl e fz (rr_ttl r))) = pre @ enc_rr (age_rr e fz r) @ rest"
proof -
  let ?pre = "pre @ rr_name r @ be16 (rr_type r) @ be16 (rr_class r)"
  let ?post = "be16 (of_nat (length (rr_data r))) @ rr_data r @ rest"
  have "blit (pre @ enc_rr r @ rest) (length pre + length (rr_name r) + 4) x
      = blit (?pre @ be32 (rr_ttl r) @ ?post) (length ?pre) x" for x
    by (simp add: enc_rr_def add.assoc)
  also have "\<dots> (be32 (aged_ttl e fz (rr_ttl r))) = ?pre @ be32 (aged_ttl e fz (rr_ttl r)) @ ?post"
    by (subst blit_append) simp
  finally show ?thesis
    using assms by (simp add: enc_rr_def age_rr_def)
qed

lemma age_records_at:
  "list_all rr_ok rs \<Longrightarrow>
   age_records (pre @ enc_rrs rs @ rest) (length rs) (length pre) e fz =
     (True, pre @ enc_rrs (map (age_rr e fz) rs) @ rest)"
proof (induction rs arbitrary: pre)
  case Nil
  then show ?case by simp
next
  case (Cons r rs)
  let ?raw = "pre @ enc_rr r @ enc_rrs rs @ rest"
  let ?raw' = "pre @ enc_rr (age_rr e fz r) @ enc_rrs rs @ rest"
  let ?at = "length pre + length (rr_name r)"
  have ok: "rr_ok r" "rr_ok (age_rr e fz r)"
    using Cons.prems by auto
  have rd: "drop (length pre) ?raw = enc_rr r @ enc_rrs rs @ rest"
    "drop (length pre) ?raw' = enc_rr (age_rr e fz r) @ enc_rrs rs @ rest"
    by simp_all
  note r = at_rr [OF ok(1) rd(1)] and r' = at_rr [OF ok(2) rd(2)]
  have w: "(if rr_type r \<noteq> OPT_RECORD_TYPE then blit ?raw (?at + 4) (be32 (aged_ttl e fz (rr_ttl r))) else ?raw)
      = ?raw'"
    using blit_ttl [of r pre "enc_rrs rs @ rest" e fz] by (auto simp: is_opt_def age_rr_def)
  have "age_records ?raw (length (r # rs)) (length pre) e fz =
      age_records ?raw' (length rs) (length pre + length (enc_rr (age_rr e fz r))) e fz"
    unfolding length_Cons age_records.simps r(1-3) option.case w Let_def
    using r' by (simp add: add.assoc)
  also have "\<dots> = (True, pre @ enc_rr (age_rr e fz r) @ enc_rrs (map (age_rr e fz) rs) @ rest)"
    using Cons.IH [of "pre @ enc_rr (age_rr e fz r)"] Cons.prems by simp
  finally show ?case by simp
qed

lemma age_ttls_enc_msg:
  assumes "msg_ok qs ans auths adds"
  shows "age_ttls (enc_msg i b2 b3 qs ans auths adds) e fz =
    (True, enc_msg i b2 b3 qs (map (age_rr e fz) ans) (map (age_rr e fz) auths) (map (age_rr e fz) adds))"
proof -
  let ?h = "enc_header i b2 b3 (of_nat (length qs)) (of_nat (length ans)) (of_nat (length auths))
       (of_nat (length adds))"
  let ?rs = "ans @ auths @ adds"
  let ?w = "enc_msg i b2 b3 qs ans auths adds"
  have w: "?w = ?h @ enc_qs qs @ enc_rrs ?rs"
    by (simp add: enc_msg_def)
  have c: "u16_at ?w 4 = Some (of_nat (length qs))" "u16_at ?w 6 = Some (of_nat (length ans))"
    "u16_at ?w 8 = Some (of_nat (length auths))" "u16_at ?w 10 = Some (of_nat (length adds))"
    unfolding w by (rule enc_header_u16_at)+
  have q: "age_skip_questions ?w (length qs) 12 = Some (12 + length (enc_qs qs))"
    using assms by (intro age_skip_questions_at) (auto simp: msg_ok_def w)
  have r: "age_records ?w (length ?rs) (12 + length (enc_qs qs)) e fz =
      (True, (?h @ enc_qs qs) @ enc_rrs (map (age_rr e fz) ?rs))"
    using age_records_at [of ?rs "?h @ enc_qs qs" "[]" e fz] assms by (simp add: msg_ok_def w)
  have "length ?w \<ge> 12"
    by (simp add: w)
  with c q r assms show ?thesis
    by (simp add: age_ttls_def msg_ok_def enc_msg_def add.assoc)
qed

lemma age_records_frame:
  "age_records w n at e fz = (ok, w') \<Longrightarrow> length w' = length w \<and> take at w' = take at w"
proof (induction w n at e fz arbitrary: ok w' rule: age_records.induct)
  case (1 wire at elapsed fz)
  then show ?case by simp
next
  case (2 wire n at elapsed fz)
  show ?case
  proof (cases "skip_name wire at = None \<or> u16_at wire (the (skip_name wire at)) = None \<or>
      u32_at wire (the (skip_name wire at) + 4) = None")
    case True
    with "2.prems" show ?thesis by (auto split: option.splits)
  next
    case False
    then obtain at1 t ttl where s: "skip_name wire at = Some at1" "u16_at wire at1 = Some t"
      "u32_at wire (at1 + 4) = Some ttl"
      by auto
    let ?w = "if t \<noteq> OPT_RECORD_TYPE then blit wire (at1 + 4) (be32 (aged_ttl elapsed fz ttl)) else wire"
    have ge: "at \<le> at1"
      by (rule skip_name_SomeE [OF s(1)]) auto
    have "at1 + 7 < length wire"
      using s(3) by (auto simp: u32_at_def bind_eq_Some_conv slice_simps)
    then have w: "length ?w = length wire \<and> take at ?w = take at wire"
      using ge by (auto simp: blit_def)
    show ?thesis
    proof (cases "u16_at ?w (at1 + 8)")
      case None
      with "2.prems" s w show ?thesis by (simp add: Let_def)
    next
      case (Some rdlen)
      show ?thesis
      proof (cases "at1 + (10 + unat rdlen) > length ?w")
        case True
        with "2.prems" s w Some show ?thesis by (simp add: Let_def)
      next
        case False
        then have "age_records ?w n (at1 + (10 + unat rdlen)) elapsed fz = (ok, w')"
          using "2.prems" s Some by (simp add: Let_def split: if_splits)
        then have ih: "length w' = length ?w \<and>
            take (at1 + (10 + unat rdlen)) w' = take (at1 + (10 + unat rdlen)) ?w"
          using "2.IH" [OF s refl Some] False by simp
        have "take at w' = take at (take (at1 + (10 + unat rdlen)) w')"
          using ge by (simp add: min_def)
        also have "\<dots> = take at ?w"
          using ih ge by (simp add: min_def)
        finally show ?thesis using ih w by simp
      qed
    qed
  qed
qed

lemma age_skip_questions_ge: "age_skip_questions w n at = Some at' \<Longrightarrow> at \<le> at'"
proof (induction w n at rule: age_skip_questions.induct)
  case (2 wire n at)
  then obtain e where e: "skip_name wire at = Some e" "age_skip_questions wire n (e + 4) = Some at'"
    by (auto split: option.splits if_splits)
  then have "e + 4 \<le> at'"
    using 2 by (auto split: if_splits)
  moreover have "at \<le> e"
    by (rule skip_name_SomeE [OF e(1)]) auto
  ultimately show ?case by simp
qed simp

lemma age_ttls_cases:
  assumes "age_ttls w e fz = (ok, w')"
  obtains "w' = w"
  | c at m where "12 \<le> length w" "u16_at w 4 = Some c" "age_skip_questions w (unat c) 12 = Some at"
      "age_records w m at e fz = (ok, w')"
  using assms by (auto simp: age_ttls_def split: if_splits option.splits)

lemma age_ttls_frame_lemma:
  assumes "age_ttls w e fz = (ok, w')"
  shows "length w' = length w \<and> take 12 w' = take 12 w"
proof (rule age_ttls_cases [OF assms])
  fix c at m assume "age_skip_questions w (unat c) 12 = Some at" "age_records w m at e fz = (ok, w')"
  then have "12 \<le> at" "length w' = length w \<and> take at w' = take at w"
    using age_skip_questions_ge age_records_frame by blast+
  then show ?thesis
    by (metis min.absorb1 take_take)
qed simp

lemma unat_aged_ttl: "unat (aged_ttl e False t) = unat t - unat e"
  by (auto simp: aged_ttl_def unat_sub word_le_nat_alt)

lemma aged_ttl_add:
  assumes "unat a + unat b < 2 ^ 32"
  shows "aged_ttl b False (aged_ttl a False t) = aged_ttl (a + b) False t"
proof -
  have "unat (a + b) = unat a + unat b"
    using assms by (simp add: unat_word_ariths)
  then have "unat (aged_ttl b False (aged_ttl a False t)) = unat (aged_ttl (a + b) False t)"
    by (simp add: unat_aged_ttl)
  then show ?thesis by (rule unsigned_word_eqI)
qed

section \<open>Questions\<close>

definition question_bytes :: "bytes \<Rightarrow> bytes option" where
  "question_bytes w = map_option (\<lambda>(a, b). take (b - a) (drop a w)) (question_span w)"

lemma questions_match_iff: "questions_match a b \<longleftrightarrow> map ascii_lower a = map ascii_lower b"
  by (auto simp: questions_match_def eq_ignore_ascii_case_def list_all_length list_eq_iff_nth_eq)

lemma question_span_bounds:
  assumes "question_span w = Some (a, b)"
  shows "a = 12" "16 < b" "b \<le> length w"
proof -
  from assms obtain e where e: "skip_name w 12 = Some e" and ab: "a = 12" "b = e + 4" "b \<le> length w"
    by (auto simp: question_span_def bind_eq_Some_conv split: if_splits)
  obtain ns where "wire_name ns" "e = 12 + length ns"
    by (rule skip_name_SomeE [OF e])
  then have "12 < e"
    by (cases ns) auto
  with ab show "a = 12" "16 < b" "b \<le> length w" by auto
qed

lemma question_key_from_wire_eq:
  "question_key_from_wire w = Some k \<longleftrightarrow>
    (\<exists>q. question_bytes w = Some q \<and> length q \<le> 259 \<and> qk_len k = of_nat (length q) \<and>
      qk_bytes k = q @ replicate (259 - length q) 0)"
proof (cases "question_span w")
  case None
  then show ?thesis by (simp add: question_key_from_wire_def question_bytes_def)
next
  case (Some ab)
  obtain a b where ab: "ab = (a, b)" by (cases ab)
  have "get_range w a b = Some (take (b - a) (drop a w))"
    using question_span_bounds [of w a b] Some ab by (simp add: get_range_def)
  with Some ab show ?thesis
    by (cases k) (auto simp: question_key_from_wire_def question_bytes_def blit_def)
qed

lemma question_key_exists_iff:
  "question_key_from_wire w = None \<longleftrightarrow> (\<forall>q. question_bytes w = Some q \<longrightarrow> 259 < length q)"
proof -
  have "(\<exists>k. question_key_from_wire w = Some k) \<longleftrightarrow> (\<exists>q. question_bytes w = Some q \<and> length q \<le> 259)"
    unfolding question_key_from_wire_eq
    by (metis question_key.select_convs)
  then show ?thesis
    by (metis linorder_not_less not_None_eq)
qed

lemma question_key_matches_iff:
  assumes "question_key_from_wire w = Some k"
  shows "question_key_matches k w' \<longleftrightarrow>
    (\<exists>q q'. question_bytes w = Some q \<and> question_bytes w' = Some q' \<and>
      map ascii_lower q = map ascii_lower q')"
proof -
  from assms obtain q where q: "question_bytes w = Some q" "length q \<le> 259"
    "qk_len k = of_nat (length q)" "qk_bytes k = q @ replicate (259 - length q) 0"
    by (auto simp: question_key_from_wire_eq)
  then have "take (unat (qk_len k)) (qk_bytes k) = q"
    by (simp add: unat_of_nat)
  with q(1) show ?thesis
    by (auto simp: question_key_matches_def questions_match_iff question_bytes_def split: option.splits)
qed

lemma question_bytes_msg:
  assumes "wire_name ns" "w = enc_header i b2 b3 1 an nc ar @ ns @ be16 t @ be16 c @ rest"
  shows "question_bytes w = Some (ns @ be16 t @ be16 c)"
proof -
  have "skip_name w 12 = Some (12 + length ns)"
    using assms by (intro skip_name_at [where rest = "be16 t @ be16 c @ rest"]) simp_all
  moreover have "u16_at w 4 = Some 1"
    unfolding assms(2) by (rule enc_header_u16_at)
  ultimately show ?thesis
    using assms(2) by (simp add: question_bytes_def question_span_def)
qed

lemma length_enc_name: "length (enc_name ls) = Suc (length (dotted ls))"
  by (induction ls) auto

section \<open>Synthesized responses\<close>

definition answer_rrs :: "(ipv4 \<times> u32) option \<Rightarrow> rr list" where
  "answer_rrs answer = (case answer of None \<Rightarrow> []
     | Some (ip, ttl) \<Rightarrow> [\<lparr>rr_name = [0xc0, 12], rr_type = 1, rr_class = 1, rr_ttl = ttl, rr_data = octets ip\<rparr>])"

definition opt_rrs :: "('rt, 'cl) parsed_query \<Rightarrow> rr list" where
  "opt_rrs q = (if has_opt q
     then [\<lparr>rr_name = [0], rr_type = 41, rr_class = 1232,
            rr_ttl = (if dnssec_ok q then 0x8000 else 0), rr_data = []\<rparr>] else [])"

definition response_flags :: "('rt, 'cl) parsed_query \<Rightarrow> u8 \<Rightarrow> u8 \<Rightarrow> u8 \<Rightarrow> bool" where
  "response_flags q rcode b2 b3 \<longleftrightarrow>
     b2 AND 0x80 \<noteq> 0 \<and> drop_bit 3 b2 AND 0x0f = opcode q \<and> b2 AND 6 = 0 \<and>
     (b2 AND 1 \<noteq> 0) = recursion_desired q \<and>
     b3 AND 0x80 \<noteq> 0 \<and> b3 AND 0x60 = 0 \<and> (b3 AND 0x10 \<noteq> 0) = checking_disabled q \<and>
     b3 AND 0x0f = rcode AND 0x0f"

lemma octets_length [simp]: "length (octets ip) = 4"
  by (cases ip) simp

lemma synthesize_query_wire:
  fixes h :: "('rt, 'cl) rr_codec"
  assumes "codec_ok h" and raw: "raw = query_wire i b2 b3 an ns ar ls qt qc rest"
    and q: "q = query_info h i b2 b3 ls qt qc eo"
  shows "synthesize h raw q rcode answer =
    enc_msg i (0x80 OR push_bit 3 (opcode q) OR of_bool (recursion_desired q))
      (0x80 OR push_bit 4 (of_bool (checking_disabled q)) OR (rcode AND 0x0f))
      [(enc_name ls, qt, qc)] (answer_rrs answer) [] (opt_rrs q)"
proof -
  have code: "rtype_code h (rtype_A h) = 1" "class_code h (class_IN h) = 1"
    using assms(1) by (metis codec_ok_def)+
  have "take (snd (question q) - fst (question q)) (drop (fst (question q)) raw) = enc_q (enc_name ls, qt, qc)"
    by (simp add: raw q query_info_def query_wire_def)
  moreover have "pq_id q = i"
    by (simp add: q query_info_def)
  ultimately show ?thesis
    using code
    by (cases answer) (auto simp: synthesize_def enc_msg_def enc_header_def answer_rrs_def opt_rrs_def
        enc_rr_def)
qed

lemma response_flags_bits:
  fixes op rc :: u8
  assumes "op = x AND 0x0f"
  shows "(0x80 OR push_bit 3 op OR of_bool rd) AND 0x80 \<noteq> 0"
    "drop_bit 3 (0x80 OR push_bit 3 op OR of_bool rd) AND 0x0f = op"
    "(0x80 OR push_bit 3 op OR of_bool rd) AND 6 = 0"
    "((0x80 OR push_bit 3 op OR of_bool rd) AND 1 \<noteq> 0) = rd"
    "(0x80 OR push_bit 4 (of_bool cd) OR (rc AND 0x0f)) AND 0x80 \<noteq> 0"
    "(0x80 OR push_bit 4 (of_bool cd) OR (rc AND 0x0f)) AND 0x60 = 0"
    "((0x80 OR push_bit 4 (of_bool cd) OR (rc AND 0x0f)) AND 0x10 \<noteq> 0) = cd"
    "(0x80 OR push_bit 4 (of_bool cd) OR (rc AND 0x0f)) AND 0x0f = rc AND 0x0f"
  unfolding assms u8_eq_iff by (simp_all add: bit_simps)

section \<open>What patching an ID and ageing keep\<close>

lemma skip_name_prefix:
  assumes "skip_name w at = Some e" "take e w' = take e w"
  shows "skip_name w' at = Some e"
proof -
  obtain ns rest where ns: "wire_name ns" "drop at w = ns @ rest" "e = at + length ns"
    by (rule skip_name_SomeE [OF assms(1)])
  have "take (length ns) (drop at w') = drop at (take e w')"
    by (simp add: ns(3) take_drop add.commute)
  also have "\<dots> = take (length ns) (drop at w)"
    by (simp add: assms(2) [unfolded ns(3)] ns(3) take_drop add.commute)
  also have "\<dots> = ns"
    by (simp add: ns(2))
  finally have "drop at w' = ns @ drop (length ns) (drop at w')"
    by (metis append_take_drop_id)
  from skip_name_at [OF ns(1) this] ns(3) show ?thesis by simp
qed

lemma u16_at_prefix: "k + 2 \<le> n \<Longrightarrow> n \<le> length w \<Longrightarrow> n \<le> length w' \<Longrightarrow>
   take n w' = take n w \<Longrightarrow> u16_at w' k = u16_at w k"
proof -
  assume a: "k + 2 \<le> n" "n \<le> length w" "n \<le> length w'" "take n w' = take n w"
  have "w' ! j = w ! j" if "j < n" for j
    using a(4) that by (metis nth_take)
  with a show ?thesis
    by (simp add: u16_at_def get_def)
qed

text \<open>Two messages of the same length that agree up to the end of the question have the same question.\<close>

lemma question_bytes_prefix:
  assumes "question_span w = Some (12, b)" "length w' = length w" "take b w' = take b w"
  shows "question_bytes w' = question_bytes w"
proof -
  from assms(1) obtain e where e: "12 \<le> length w" "u16_at w 4 = Some 1" "skip_name w 12 = Some e"
    "b = e + 4" "b \<le> length w"
    by (auto simp: question_span_def bind_eq_Some_conv split: if_splits)
  have b: "16 < b"
    using question_span_bounds [OF assms(1)] by simp
  have "take e w' = take e (take b w')"
    using e by simp
  also have "\<dots> = take e w"
    unfolding assms(3) using e by simp
  finally have "skip_name w' 12 = Some e"
    by (rule skip_name_prefix [OF e(3)])
  moreover have "u16_at w' 4 = Some 1"
    using u16_at_prefix [of 4 b w w'] e b assms by simp
  ultimately have "question_span w' = Some (12, b)"
    using e assms(2) by (simp add: question_span_def)
  moreover have "take (b - 12) (drop 12 w') = take (b - 12) (drop 12 w)"
    using assms(3) by (simp flip: drop_take)
  ultimately show ?thesis
    by (simp add: question_bytes_def assms(1))
qed

lemma question_bytes_age:
  assumes "age_ttls w e fz = (ok, w')"
  shows "question_bytes w' = question_bytes w"
proof (rule age_ttls_cases [OF assms])
  fix c at m
  assume c: "12 \<le> length w" "u16_at w 4 = Some c"
    and sk: "age_skip_questions w (unat c) 12 = Some at" and r: "age_records w m at e fz = (ok, w')"
  have fr: "length w' = length w" "take 12 w' = take 12 w"
    using age_ttls_frame_lemma [OF assms] by auto
  show ?thesis
  proof (cases "c = 1")
    case True
    then obtain x where "skip_name w 12 = Some x" "x + 4 \<le> length w" "at = x + 4"
      using sk by (auto split: option.splits if_splits)
    then have "question_span w = Some (12, at)"
      using c True by (simp add: question_span_def)
    then show ?thesis
      using question_bytes_prefix age_records_frame [OF r] by blast
  next
    case False
    moreover have "u16_at w' 4 = Some c"
      using u16_at_prefix [of 4 12 w w'] c fr by simp
    ultimately show ?thesis
      using c fr by (simp add: question_bytes_def question_span_def)
  qed
qed simp

lemma skip_name_drop:
  assumes "drop at w' = drop at w"
  shows "skip_name w' at = skip_name w at"
proof (rule option.expand)
  have imp: "skip_name u at = skip_name v at"
    if eq: "drop at u = drop at v" and "skip_name v at \<noteq> None" for u v
  proof -
    from that(2) obtain e where e: "skip_name v at = Some e" by auto
    obtain ns rest where "wire_name ns" "drop at v = ns @ rest" "e = at + length ns"
      by (rule skip_name_SomeE [OF e])
    with e eq show ?thesis by (simp add: skip_name_at)
  qed
  from imp [OF assms] imp [OF assms [symmetric]] show "(skip_name w' at = None) = (skip_name w at = None)"
    by metis
  from imp [OF assms] show "the (skip_name w' at) = the (skip_name w at)"
    if "skip_name w' at \<noteq> None" "skip_name w at \<noteq> None"
    using that by simp
qed

lemma set_id_length [simp]: "length (set_id w i) = length w"
  by (simp add: set_id_def)

lemma set_id_drop [simp]: "2 \<le> k \<Longrightarrow> drop k (set_id w i) = drop k w"
  by (auto simp: set_id_def blit_def dest!: le_Suc_ex)

lemma set_id_get [simp]: "2 \<le> k \<Longrightarrow> get (set_id w i) k = get w k"
  by (auto simp: get_def set_id_def nth_blit_outside)

lemma set_id_u16_at [simp]: "2 \<le> k \<Longrightarrow> u16_at (set_id w i) k = u16_at w k"
  by (simp add: u16_at_def)

lemma set_id_read: "2 \<le> length w \<Longrightarrow> u16_at (set_id w i) 0 = Some i"
  by (rule at_u16 [where rest = "drop 2 w"]) (simp add: set_id_def blit_def numeral_2_eq_2)

lemma question_bytes_set_id [simp]: "question_bytes (set_id w i) = question_bytes w"
proof -
  have sk: "skip_name (set_id w i) 12 = skip_name w 12"
    by (rule skip_name_drop) simp
  have "question_span (set_id w i) = question_span w"
    by (simp add: question_span_def sk cong: if_cong)
  then show ?thesis
    using question_span_bounds [of w] by (cases "question_span w") (auto simp: question_bytes_def)
qed

section \<open>Properties\<close>

text \<open>
  C9. \<open>parse_query\<close> accepts exactly the messages that are a query header (QR clear, one
  question) followed by an uncompressed name of 1 to 63 byte labels whose dotted form fits
  in 255 bytes, a type and a class; and what it reports is the message's ID, opcode, flags,
  type, class and question range, with the lowercased dotted name in the caller's buffer.
\<close>

theorem parse_query_exact:
  fixes h :: "('rt, 'cl) rr_codec"
  assumes "length buf = 255"
  shows "parse_query h raw buf = Some (q, buf') \<longleftrightarrow>
    (\<exists>i b2 b3 an ns ar ls qt qc rest.
       raw = query_wire i b2 b3 an ns ar ls qt qc rest \<and> b2 AND 0x80 = 0 \<and>
       list_all label_ok ls \<and> length (dotted ls) \<le> 255 \<and>
       q = query_info h i b2 b3 ls qt qc (opt_of raw (16 + length (enc_name ls))) \<and>
       buf' = blit buf 0 (canonical ls))"
  (is "?L \<longleftrightarrow> ?R")
proof
  assume L: ?L
  obtain i b2 b3 an ns ar ls qt qc rest where
    w: "raw = query_wire i b2 b3 an ns ar ls qt qc rest" "b2 AND 0x80 = 0"
    "list_all label_ok ls" "length (dotted ls) \<le> 255"
    by (rule parse_query_sound [OF L assms])
  from parse_query_complete [OF w assms, of h] L w show ?R by fastforce
next
  assume ?R
  with assms show ?L by (metis parse_query_complete)
qed

definition codec_id :: "(u16, u16) rr_codec" where
  "codec_id = \<lparr>rtype_from = id, class_from = id, rtype_code = id, class_code = id,
     rtype_A = 1, class_IN = 1\<rparr>"

lemma codec_id_ok: "codec_ok codec_id"
  by (simp add: codec_id_def codec_ok_def)

lemmas wire_eval = query_wire_def enc_header_def be16_def be32_def label_ok_def canonical_def

theorem parse_query_exact_witness:
  "length (replicate 255 (0::u8)) = 255 \<and>
   (\<exists>q buf'. parse_query codec_id (query_wire 7 1 0 0 0 0 [[65], [98, 99]] 1 1 []) (replicate 255 0)
      = Some (q, buf') \<and> take (name_len q) buf' = [97, 46, 98, 99, 46] \<and> qtype q = 1)"
proof -
  have "parse_query codec_id (query_wire 7 1 0 0 0 0 [[65], [98, 99]] 1 1 []) (replicate 255 0) =
     Some (query_info codec_id 7 1 0 [[65], [98, 99]] 1 1
        (opt_of (query_wire 7 1 0 0 0 0 [[65], [98, 99]] 1 1 []) (16 + length (enc_name [[65], [98, 99]]))),
       blit (replicate 255 0) 0 (canonical [[65], [98, 99]]))"
    by (subst parse_query_exact) (auto simp: label_ok_def intro!: exI)
  then show ?thesis
    by (simp add: query_info_def canonical_def blit_def ascii_lower_def codec_id_def)
qed

text \<open>
  C36. On a well-formed query that carries records, \<open>parse_query\<close> reports an EDNS record
  exactly when the additional section has an OPT record, and the DO bit of the first one.
\<close>

theorem parse_query_edns:
  fixes h :: "('rt, 'cl) rr_codec"
  assumes "msg_ok [(enc_name ls, qt, qc)] ans auths adds"
    and "b2 AND 0x80 = 0" "list_all label_ok ls" "length (dotted ls) \<le> 255" "length buf = 255"
  shows "\<exists>q. parse_query h (enc_msg i b2 b3 [(enc_name ls, qt, qc)] ans auths adds @ rest) buf =
      Some (q, blit buf 0 (canonical ls)) \<and>
    has_opt q = (\<exists>r \<in> set adds. is_opt r) \<and>
    dnssec_ok q = (\<exists>r. find is_opt adds = Some r \<and> rr_ttl r AND DNSSEC_OK_BIT \<noteq> 0)"
proof -
  let ?rs = "enc_rrs (ans @ auths @ adds) @ rest"
  let ?raw = "enc_msg i b2 b3 [(enc_name ls, qt, qc)] ans auths adds @ rest"
  let ?h = "enc_header i b2 b3 1 (of_nat (length ans)) (of_nat (length auths)) (of_nat (length adds))"
  have raw: "?raw = query_wire i b2 b3 (of_nat (length ans)) (of_nat (length auths))
      (of_nat (length adds)) ls qt qc ?rs"
    by (simp add: enc_msg_def query_wire_def)
  have eq: "?raw = ?h @ enc_name ls @ be16 qt @ be16 qc @ ?rs"
    by (simp add: enc_msg_def)
  have c: "u16_at ?raw 6 = Some (of_nat (length ans))" "u16_at ?raw 8 = Some (of_nat (length auths))"
    "u16_at ?raw 10 = Some (of_nat (length adds))"
    unfolding eq by (rule enc_header_u16_at)+
  have "find_opt ?raw (16 + length (enc_name ls)) = Some (opt_answer adds)"
    using assms(1) c by (intro find_opt_at [where rest = rest]) (auto simp: msg_ok_def eq)
  then have o: "opt_of ?raw (16 + length (enc_name ls)) = opt_answer adds"
    by (simp add: opt_of_def)
  have "(\<exists>r \<in> set adds. is_opt r) \<longleftrightarrow> find is_opt adds \<noteq> None"
    by (auto simp: find_None_iff)
  then show ?thesis
    using parse_query_complete [OF raw assms(2-5), of h] o
    by (auto simp: query_info_def opt_answer_def split: option.splits)
qed

theorem parse_query_edns_witness:
  "\<exists>q. parse_query codec_id
      (enc_msg 3 1 0 [(enc_name [[97]], 1, 1)] [] []
        [\<lparr>rr_name = [0], rr_type = 41, rr_class = 1232, rr_ttl = 0x8000, rr_data = []\<rparr>] @ [])
      (replicate 255 0) = Some (q, blit (replicate 255 0) 0 (canonical [[97]])) \<and>
    has_opt q \<and> dnssec_ok q"
  using parse_query_edns [where ls = "[[97]]" and qt = 1 and qc = 1 and ans = "[]" and auths = "[]"
      and adds = "[\<lparr>rr_name = [0], rr_type = 41, rr_class = 1232, rr_ttl = 0x8000, rr_data = []\<rparr>]"
      and ?b2.0 = 1 and buf = "replicate 255 0" and h = codec_id and i = 3 and ?b3.0 = 0 and rest = "[]"]
  by (simp add: msg_ok_def rr_ok_def label_ok_def is_opt_def)

text \<open>
  C10. For every query \<open>parse_query\<close> accepts, \<open>synthesize\<close> builds a well-formed response
  to it: the same ID, opcode and RD, QR and RA set, AA, TC, Z and AD clear, the given response
  code, the question section unchanged byte for byte, one A record on a pointer to the question
  when an answer is given, and one OPT record, with the DO bit echoed, when the query had one.
  The CD bit is echoed too.
\<close>

theorem synthesize_is_response:
  fixes h :: "('rt, 'cl) rr_codec"
  assumes "codec_ok h" "length buf = 255" "parse_query h raw buf = Some (q, buf')"
  shows "\<exists>b2 b3 qb ls qt qc.
    synthesize h raw q rcode answer =
      enc_msg (pq_id q) b2 b3 [(enc_name ls, qt, qc)] (answer_rrs answer) [] (opt_rrs q) \<and>
    response_flags q rcode b2 b3 \<and>
    msg_ok [(enc_name ls, qt, qc)] (answer_rrs answer) [] (opt_rrs q) \<and>
    qtype q = rtype_from h qt \<and> qclass q = class_from h qc \<and>
    question_bytes raw = Some qb \<and> question_bytes (synthesize h raw q rcode answer) = Some qb"
proof -
  obtain i b2 b3 an ns ar ls qt qc rest where
    w: "raw = query_wire i b2 b3 an ns ar ls qt qc rest" "b2 AND 0x80 = 0"
    "list_all label_ok ls" "length (dotted ls) \<le> 255"
    by (rule parse_query_sound [OF assms(3,2)])
  let ?eo = "opt_of raw (16 + length (enc_name ls))"
  have q: "q = query_info h i b2 b3 ls qt qc ?eo"
    using parse_query_complete [OF w assms(2), of h] assms(3) by simp
  let ?c2 = "0x80 OR push_bit 3 (opcode q) OR of_bool (recursion_desired q)"
  let ?c3 = "0x80 OR push_bit 4 (of_bool (checking_disabled q)) OR (rcode AND 0x0f)"
  have s: "synthesize h raw q rcode answer =
      enc_msg i ?c2 ?c3 [(enc_name ls, qt, qc)] (answer_rrs answer) [] (opt_rrs q)"
    by (rule synthesize_query_wire [OF assms(1) w(1) q])
  have nm: "wire_name (enc_name ls)"
    by (rule wire_name_enc_name [OF w(3)])
  have "opcode q = drop_bit 3 b2 AND 0x0f"
    by (simp add: q query_info_def)
  then have "response_flags q rcode ?c2 ?c3"
    unfolding response_flags_def by (intro conjI response_flags_bits)
  moreover have "msg_ok [(enc_name ls, qt, qc)] (answer_rrs answer) [] (opt_rrs q)"
    using nm by (auto simp: msg_ok_def answer_rrs_def opt_rrs_def rr_ok_def split: option.splits)
  moreover have "question_bytes raw = Some (enc_q (enc_name ls, qt, qc))"
    using question_bytes_msg [OF nm w(1) [unfolded query_wire_def]] by simp
  moreover have "question_bytes (synthesize h raw q rcode answer) = Some (enc_q (enc_name ls, qt, qc))"
    unfolding s enc_msg_def
    using question_bytes_msg [OF nm refl] by simp
  moreover have "pq_id q = i" "qtype q = rtype_from h qt" "qclass q = class_from h qc"
    by (simp_all add: q query_info_def)
  ultimately show ?thesis
    using s by metis
qed

theorem synthesize_is_response_witness:
  "\<exists>q buf' b2 b3 qb ls qt qc.
    parse_query codec_id (query_wire 9 1 16 0 0 0 [[110, 97, 115]] 1 1 []) (replicate 255 0) = Some (q, buf') \<and>
    synthesize codec_id (query_wire 9 1 16 0 0 0 [[110, 97, 115]] 1 1 []) q 0 (Some ((10, 0, 0, 2), 60)) =
      enc_msg (pq_id q) b2 b3 [(enc_name ls, qt, qc)] (answer_rrs (Some ((10, 0, 0, 2), 60))) [] (opt_rrs q) \<and>
    response_flags q 0 b2 b3 \<and>
    question_bytes (synthesize codec_id (query_wire 9 1 16 0 0 0 [[110, 97, 115]] 1 1 []) q 0
      (Some ((10, 0, 0, 2), 60))) = Some qb"
proof -
  have "length (replicate 255 (0::u8)) = 255" by simp
  note s = synthesize_is_response [OF codec_id_ok this]
  have "parse_query codec_id (query_wire 9 1 16 0 0 0 [[110, 97, 115]] 1 1 []) (replicate 255 0) =
    Some (query_info codec_id 9 1 16 [[110, 97, 115]] 1 1
      (opt_of (query_wire 9 1 16 0 0 0 [[110, 97, 115]] 1 1 []) (16 + length (enc_name [[110, 97, 115]]))),
      blit (replicate 255 0) 0 (canonical [[110, 97, 115]]))"
    by (rule parse_query_complete) (auto simp: label_ok_def)
  from this s [OF this, of 0 "Some ((10, 0, 0, 2), 60)"] show ?thesis by blast
qed

text \<open>
  C11. Ageing a well-formed message succeeds and rewrites exactly the TTLs: every record other
  than OPT has its TTL reduced by the elapsed seconds, saturating at zero (or set to zero when
  forced), and every other byte of the message is unchanged.
\<close>

theorem age_ttls_message:
  assumes "msg_ok qs ans auths adds"
  shows "age_ttls (enc_msg i b2 b3 qs ans auths adds) elapsed fz =
    (True, enc_msg i b2 b3 qs (map (age_rr elapsed fz) ans) (map (age_rr elapsed fz) auths)
       (map (age_rr elapsed fz) adds))"
  by (rule age_ttls_enc_msg [OF assms])

theorem age_ttls_message_witness:
  "age_ttls (enc_msg 1 0x80 0x80 [(enc_name [[97]], 1, 1)]
      [\<lparr>rr_name = [0xc0, 12], rr_type = 1, rr_class = 1, rr_ttl = 60, rr_data = [1, 1, 1, 1]\<rparr>] []
      [\<lparr>rr_name = [0], rr_type = 41, rr_class = 1232, rr_ttl = 0x8000, rr_data = []\<rparr>]) 17 False =
   (True, enc_msg 1 0x80 0x80 [(enc_name [[97]], 1, 1)]
      [\<lparr>rr_name = [0xc0, 12], rr_type = 1, rr_class = 1, rr_ttl = 43, rr_data = [1, 1, 1, 1]\<rparr>] []
      [\<lparr>rr_name = [0], rr_type = 41, rr_class = 1232, rr_ttl = 0x8000, rr_data = []\<rparr>])"
  by (subst age_ttls_message)
    (simp_all add: msg_ok_def rr_ok_def age_rr_def is_opt_def aged_ttl_def word_le_nat_alt)

text \<open>
  On any bytes at all, well-formed or not, ageing keeps the length of the message, its
  header and its question section.
\<close>

theorem age_ttls_frame:
  "length (snd (age_ttls w elapsed fz)) = length w \<and>
   take 12 (snd (age_ttls w elapsed fz)) = take 12 w \<and>
   question_bytes (snd (age_ttls w elapsed fz)) = question_bytes w"
  using age_ttls_frame_lemma [of w elapsed fz] question_bytes_age [of w elapsed fz]
  by (metis prod.collapse)

text \<open>
  C12. A question key built from one message matches another exactly when both have a question
  section and the two sections are equal up to ASCII case; patching the ID of the other message
  or ageing its TTLs never changes the outcome.
\<close>

theorem question_key_matches_exact:
  assumes "question_key_from_wire w = Some k"
  shows "(question_key_matches k w' \<longleftrightarrow>
      (\<exists>q q'. question_bytes w = Some q \<and> question_bytes w' = Some q' \<and>
        map ascii_lower q = map ascii_lower q')) \<and>
    question_key_matches k (set_id w' i) = question_key_matches k w' \<and>
    question_key_matches k (snd (age_ttls w' e fz)) = question_key_matches k w'"
proof -
  have "question_bytes (snd (age_ttls w' e fz)) = question_bytes w'"
    by (rule question_bytes_age [where ok = "fst (age_ttls w' e fz)"]) simp
  then show ?thesis
    by (simp add: question_key_matches_iff [OF assms])
qed

theorem question_key_matches_exact_witness:
  "\<exists>k. question_key_from_wire (query_wire 1 0 0 0 0 0 [[97]] 1 1 []) = Some k \<and>
     question_key_matches k (query_wire 2 0x80 0 0 0 0 [[65]] 1 1 [])"
proof -
  have w: "wire_name (enc_name [[97]])" "wire_name (enc_name [[65]])" by simp_all
  have q: "question_bytes (query_wire 1 0 0 0 0 0 [[97]] 1 1 []) = Some (enc_name [[97]] @ be16 1 @ be16 1)"
    "question_bytes (query_wire 2 0x80 0 0 0 0 [[65]] 1 1 []) = Some (enc_name [[65]] @ be16 1 @ be16 1)"
    unfolding query_wire_def by (rule question_bytes_msg [OF w(1) refl], rule question_bytes_msg [OF w(2) refl])
  then obtain k where k: "question_key_from_wire (query_wire 1 0 0 0 0 0 [[97]] 1 1 []) = Some k"
    using question_key_exists_iff [of "query_wire 1 0 0 0 0 0 [[97]] 1 1 []"] by force
  have "question_key_matches k (query_wire 2 0x80 0 0 0 0 [[65]] 1 1 [])"
    using question_key_matches_exact [OF k] q by (simp add: ascii_lower_def be16_def)
  with k show ?thesis by blast
qed

text \<open>
  A query \<open>parse_query\<close> accepts has a question key, which every upstream path needs to
  check the answer, unless its dotted name is exactly 255 bytes long: then the encoded name has
  256 bytes, one more than the limit of the wire format, and there is no key.
\<close>

theorem accepted_query_has_key:
  fixes h :: "('rt, 'cl) rr_codec"
  assumes "length buf = 255" "parse_query h raw buf = Some (q, buf')"
  shows "question_key_from_wire raw = None \<longleftrightarrow> name_len q = 255"
proof -
  obtain i b2 b3 an ns ar ls qt qc rest where
    w: "raw = query_wire i b2 b3 an ns ar ls qt qc rest" "b2 AND 0x80 = 0"
    "list_all label_ok ls" "length (dotted ls) \<le> 255"
    by (rule parse_query_sound [OF assms(2,1)])
  have n: "name_len q = length (canonical ls)"
    using parse_query_complete [OF w assms(1), of h] assms(2) by (auto simp: query_info_def)
  have qb: "question_bytes raw = Some (enc_name ls @ be16 qt @ be16 qc)"
    using question_bytes_msg [OF wire_name_enc_name [OF w(3)] w(1) [unfolded query_wire_def]] .
  have "question_key_from_wire raw = None \<longleftrightarrow> 255 < length (enc_name ls)"
    unfolding question_key_exists_iff qb by simp
  also have "\<dots> \<longleftrightarrow> name_len q = 255"
    using w(4) by (auto simp: n length_enc_name canonical_def)
  finally show ?thesis .
qed

definition long_labels :: "bytes list" where
  "long_labels = [replicate 63 97, replicate 63 97, replicate 63 97, replicate 62 97]"

theorem accepted_query_has_key_witness:
  "\<exists>q buf'. parse_query codec_id (query_wire 1 0 0 0 0 0 long_labels 1 1 []) (replicate 255 0) = Some (q, buf') \<and>
     name_len q = 255 \<and> question_key_from_wire (query_wire 1 0 0 0 0 0 long_labels 1 1 []) = None"
proof -
  have d: "length (dotted long_labels) = 255" "list_all label_ok long_labels" "long_labels \<noteq> []"
    by (simp_all add: long_labels_def label_ok_def)
  have l: "length (replicate 255 (0::u8)) = 255" by simp
  have "parse_query codec_id (query_wire 1 0 0 0 0 0 long_labels 1 1 []) (replicate 255 0) =
    Some (query_info codec_id 1 0 0 long_labels 1 1
      (opt_of (query_wire 1 0 0 0 0 0 long_labels 1 1 []) (16 + length (enc_name long_labels))),
      blit (replicate 255 0) 0 (canonical long_labels))"
    using d l by (intro parse_query_complete [OF refl]) auto
  with accepted_query_has_key [OF l this] d show ?thesis
    by (simp add: query_info_def canonical_def)
qed

lemma cut_at_dot:
  "a @ (46::u8) # b = c @ 46 # d \<Longrightarrow> 46 \<notin> set a \<Longrightarrow> 46 \<notin> set c \<Longrightarrow> a = c \<and> b = d"
proof (induction a arbitrary: c)
  case Nil
  then show ?case by (cases c) auto
next
  case (Cons x a)
  then show ?case by (cases c) auto
qed

lemma no_dot_lower: "46 \<notin> set l \<Longrightarrow> 46 \<notin> set (map ascii_lower l)"
  by (induction l) (auto simp: eq_commute [of "46"])

lemma dotted_inject:
  assumes "\<forall>l \<in> set ls. 46 \<notin> set l" "\<forall>l \<in> set ms. 46 \<notin> set l" "dotted ls = dotted ms"
  shows "map (map ascii_lower) ls = map (map ascii_lower) ms"
  using assms
proof (induction ls arbitrary: ms)
  case Nil
  then show ?case by (simp add: eq_commute [of "[]"])
next
  case (Cons l ls)
  then obtain m ms' where ms: "ms = m # ms'"
    by (cases ms) auto
  have "map ascii_lower l @ 46 # dotted ls = map ascii_lower m @ 46 # dotted ms'"
    using Cons.prems by (simp add: ms)
  moreover have "46 \<notin> set (map ascii_lower l)" "46 \<notin> set (map ascii_lower m)"
    by (rule no_dot_lower, use Cons.prems ms in simp)+
  ultimately have "map ascii_lower l = map ascii_lower m \<and> dotted ls = dotted ms'"
    by (rule cut_at_dot)
  then show ?case
    using Cons.IH [of ms'] Cons.prems ms by simp
qed

text \<open>
  The dotted name determines the question's labels up to case when no label contains a dot byte.
  (With a dot inside a label it does not: see the next property.)
\<close>

lemma canonical_inject:
  assumes "list_all label_ok ls" "list_all label_ok ms"
    and "\<forall>l \<in> set ls. 46 \<notin> set l" "\<forall>l \<in> set ms. 46 \<notin> set l"
    and "canonical ls = canonical ms"
  shows "map (map ascii_lower) ls = map (map ascii_lower) ms"
proof -
  have root: "canonical xs \<noteq> canonical []" if "list_all label_ok xs" "xs \<noteq> []" "\<forall>l \<in> set xs. 46 \<notin> set l" for xs
    using that by (cases xs; cases "hd xs") (auto simp: canonical_def label_ok_def)
  show ?thesis
    using assms dotted_inject [OF assms(3,4)] root [of ls] root [of ms]
    by (cases "ls = []"; cases "ms = []") (auto simp: canonical_def)
qed

text \<open>
  Two queries whose questions differ, and not only in case, can be reported with the same
  name, type, class and DNSSEC flags: a label that contains a dot byte reads like two labels.
  The cache, the static hosts and the block list are keyed on exactly these reported values.
\<close>

theorem dotted_label_collision:
  "\<exists>raw raw' q q' buf buf'.
     parse_query codec_id raw (replicate 255 0) = Some (q, buf) \<and>
     parse_query codec_id raw' (replicate 255 0) = Some (q', buf') \<and>
     take (name_len q) buf = take (name_len q') buf' \<and> qtype q = qtype q' \<and> qclass q = qclass q' \<and>
     dnssec_ok q = dnssec_ok q' \<and> checking_disabled q = checking_disabled q' \<and>
     (\<exists>k. question_key_from_wire raw = Some k \<and> \<not> question_key_matches k raw')"
proof -
  let ?l = "[[97, 46, 98]] :: bytes list" and ?m = "[[97], [98]] :: bytes list"
  let ?raw = "query_wire 1 1 0 0 0 0 ?l 1 1 []" and ?raw' = "query_wire 1 1 0 0 0 0 ?m 1 1 []"
  have p: "parse_query codec_id ?raw (replicate 255 0) =
      Some (query_info codec_id 1 1 0 ?l 1 1 (opt_of ?raw (16 + length (enc_name ?l))),
        blit (replicate 255 0) 0 (canonical ?l))"
    "parse_query codec_id ?raw' (replicate 255 0) =
      Some (query_info codec_id 1 1 0 ?m 1 1 (opt_of ?raw' (16 + length (enc_name ?m))),
        blit (replicate 255 0) 0 (canonical ?m))"
    by (rule parse_query_complete; simp add: label_ok_def)+
  have c: "canonical ?l = canonical ?m"
    by (simp add: canonical_def ascii_lower_def)
  have o: "opt_of ?raw (16 + length (enc_name ?l)) = (False, False)"
    "opt_of ?raw' (16 + length (enc_name ?m)) = (False, False)"
    by (simp_all add: opt_of_def find_opt_def query_wire_def)
  have w: "wire_name (enc_name ?l)" "wire_name (enc_name ?m)" by simp_all
  have qb: "question_bytes ?raw = Some (enc_name ?l @ be16 1 @ be16 1)"
    "question_bytes ?raw' = Some (enc_name ?m @ be16 1 @ be16 1)"
    unfolding query_wire_def by (rule question_bytes_msg [OF w(1) refl], rule question_bytes_msg [OF w(2) refl])
  then obtain k where k: "question_key_from_wire ?raw = Some k"
    using question_key_exists_iff [of ?raw] by force
  have "\<not> question_key_matches k ?raw'"
    using qb by (simp add: question_key_matches_iff [OF k] be16_def ascii_lower_def)
  with k have nk: "\<exists>k. question_key_from_wire ?raw = Some k \<and> \<not> question_key_matches k ?raw'"
    by blast
  show ?thesis
    by (rule exI [of _ ?raw], rule exI [of _ ?raw'], (rule exI)+)
      (intro conjI, rule p(1), rule p(2), simp_all only: nk query_info_def o c parsed_query.simps)
qed

text \<open>
  A message that ends early is reported as malformed, but the TTLs of the records before
  the defect have already been rewritten: the bytes left behind are not the original ones.
\<close>

theorem age_ttls_partial_edit:
  "\<exists>w. fst (age_ttls w 17 False) = False \<and> snd (age_ttls w 17 False) \<noteq> w"
proof -
  let ?w = "enc_header 0 0x80 0 0 2 0 0 @ enc_rr \<lparr>rr_name = [0], rr_type = 1, rr_class = 1, rr_ttl = 60, rr_data = []\<rparr>"
  have "age_ttls ?w 17 False = (False, enc_header 0 0x80 0 0 2 0 0 @
      enc_rr \<lparr>rr_name = [0], rr_type = 1, rr_class = 1, rr_ttl = 43, rr_data = []\<rparr>)"
    by code_simp
  moreover have "be32 60 \<noteq> be32 43"
    by (simp add: be32_def)
  ultimately show ?thesis
    by (intro exI [of _ ?w]) (simp add: enc_rr_def)
qed

end
