(* ===== verification/Probe.thy ===== *)
theory Probe
  imports Prelude
begin

text \<open>
  Linear probing, shared by the two open-addressed tables of the program: the domain index of
  \<open>blocklist.rs\<close> and the key table of \<open>dns/cache.rs\<close>. Each of them is seen through a list of
  cells, the abstraction this theory reasons about: a cell is free, dead (a tombstone) or live
  with its key. \<open>pos n h d\<close> is the index reached after \<open>d\<close> steps from the hash \<open>h\<close> in a table of
  \<open>n\<close> slots; the code computes it by masking, \<open>(i + 1) & (n - 1)\<close>, with \<open>n\<close> a power of two.

  The lemmas say, once for both tables, where a probe sequence stops, and that inserting at a
  stop, deleting with a tombstone and emptying the table keep the table searchable.
\<close>

datatype 'k cell = Free | Dead | Live 'k

definition pos :: "nat \<Rightarrow> nat \<Rightarrow> nat \<Rightarrow> nat" where
  "pos n h d = (h + d) mod n"

definition path_ok :: "('k \<Rightarrow> nat) \<Rightarrow> 'k cell list \<Rightarrow> bool" where
  "path_ok home cells \<longleftrightarrow>
     (\<forall>j k. j < length cells \<longrightarrow> cells ! j = Live k \<longrightarrow>
        (\<exists>d. j = pos (length cells) (home k) d \<and>
             (\<forall>e<d. cells ! pos (length cells) (home k) e \<noteq> Free)))"

definition keys_distinct :: "'k cell list \<Rightarrow> bool" where
  "keys_distinct cells \<longleftrightarrow>
     (\<forall>i j k. i < length cells \<longrightarrow> j < length cells \<longrightarrow> cells ! i = Live k \<longrightarrow> cells ! j = Live k \<longrightarrow> i = j)"

definition cell_keys :: "'k cell list \<Rightarrow> 'k set" where
  "cell_keys cells = {k. Live k \<in> set cells}"

definition table_ok :: "('k \<Rightarrow> nat) \<Rightarrow> 'k cell list \<Rightarrow> bool" where
  "table_ok home cells \<longleftrightarrow>
     (\<exists>b. length cells = 2 ^ b) \<and> Free \<in> set cells \<and> path_ok home cells \<and> keys_distinct cells"

definition used :: "'k cell list \<Rightarrow> nat" where
  "used cells = length (filter (\<lambda>c. c \<noteq> Free) cells)"

definition live :: "'k cell list \<Rightarrow> nat" where
  "live cells = length (filter (\<lambda>c. c \<noteq> Free \<and> c \<noteq> Dead) cells)"

definition dead :: "'k cell list \<Rightarrow> nat" where
  "dead cells = length (filter (\<lambda>c. c = Dead) cells)"

fun key_list :: "'k cell list \<Rightarrow> 'k list" where
  "key_list [] = []" |
  "key_list (Live k # cells) = k # key_list cells" |
  "key_list (Free # cells) = key_list cells" |
  "key_list (Dead # cells) = key_list cells"

subsection \<open>Positions\<close>

lemma pos_less [simp]: "0 < n \<Longrightarrow> pos n h d < n"
  by (simp add: pos_def)

lemma pos_Suc: "pos n h (Suc d) = (pos n h d + 1) mod n"
  by (simp add: pos_def mod_simps)

lemma pos_mask: "pos (2 ^ b) h 0 = h AND (2 ^ b - 1)"
  by (simp only: pos_def and_mask_eq_mod add_0_right)

lemma pos_Suc_mask: "pos (2 ^ b) h (Suc d) = (pos (2 ^ b) h d + 1) AND (2 ^ b - 1)"
  by (simp only: pos_Suc and_mask_eq_mod)

lemma pos_surj: "j < n \<Longrightarrow> \<exists>d<n. pos n h d = j"
proof -
  assume j: "j < n"
  define d where "d = (j + (n - h mod n)) mod n"
  have "h mod n < n" using j by simp
  then have "h mod n + (j + (n - h mod n)) = j + n" by linarith
  then have "(h + (j + (n - h mod n))) mod n = j"
    using j by (metis mod_add_left_eq mod_add_self2 mod_less)
  then have "pos n h d = j"
    by (simp add: pos_def d_def mod_add_right_eq)
  moreover have "d < n" using j by (simp add: d_def)
  ultimately show ?thesis by blast
qed

subsection \<open>Where a search stops\<close>

lemma search_stops:
  assumes "table_ok home cells"
  shows "\<exists>d<length cells.
    (\<forall>e<d. cells ! pos (length cells) (home k) e \<noteq> Free
         \<and> cells ! pos (length cells) (home k) e \<noteq> Live k) \<and>
    cells ! pos (length cells) (home k) d = (if k \<in> cell_keys cells then Live k else Free)"
proof -
  let ?n = "length cells" and ?at = "\<lambda>d. cells ! pos (length cells) (home k) d"
  let ?P = "\<lambda>d. ?at d = Free \<or> ?at d = Live k"
  obtain j where "j < ?n" "cells ! j = Free"
    using assms by (auto simp: table_ok_def in_set_conv_nth)
  then obtain f where f: "f < ?n" "?at f = Free"
    using pos_surj [of j ?n "home k"] by blast
  define d where "d = (LEAST d. ?P d)"
  have d: "?P d" "d \<le> f" "\<And>e. e < d \<Longrightarrow> \<not> ?P e"
    unfolding d_def using f LeastI [of ?P f] Least_le [of ?P f] not_less_Least [of _ ?P] by blast+
  have n: "0 < ?n" using f by auto
  have "?at d = (if k \<in> cell_keys cells then Live k else Free)"
  proof (cases "k \<in> cell_keys cells")
    case True
    then obtain j where "j < ?n" "cells ! j = Live k"
      by (auto simp: cell_keys_def in_set_conv_nth)
    with assms obtain g where g: "j = pos ?n (home k) g" "\<forall>e<g. ?at e \<noteq> Free"
      unfolding table_ok_def path_ok_def by blast
    then have "?P g" using \<open>cells ! j = Live k\<close> by simp
    then have "d \<le> g" using d(3) [of g] not_less by blast
    then show ?thesis
      using True d(1) g \<open>cells ! j = Live k\<close> by (cases "d = g") auto
  next
    case False
    then have "?at d \<noteq> Live k"
      using n by (metis (mono_tags, lifting) cell_keys_def mem_Collect_eq nth_mem pos_less)
    then show ?thesis using False d(1) by simp
  qed
  then show ?thesis using d f by (intro exI [of _ d]) auto
qed

subsection \<open>Updates\<close>

lemma length_filter_update:
  "i < length xs \<Longrightarrow>
     length (filter P (xs[i := x])) + of_bool (P (xs ! i)) = length (filter P xs) + of_bool (P x)"
  by (subst (3) id_take_nth_drop [of i xs]) (simp_all add: upd_conv_take_nth_drop)

lemma used_update:
  "i < length cells \<Longrightarrow>
     used (cells[i := c]) + of_bool (cells ! i \<noteq> Free) = used cells + of_bool (c \<noteq> Free)"
  unfolding used_def by (rule length_filter_update)

lemma live_update:
  "i < length cells \<Longrightarrow>
     live (cells[i := c]) + of_bool (cells ! i \<noteq> Free \<and> cells ! i \<noteq> Dead)
       = live cells + of_bool (c \<noteq> Free \<and> c \<noteq> Dead)"
  unfolding live_def by (rule length_filter_update)

lemma dead_update:
  "i < length cells \<Longrightarrow>
     dead (cells[i := c]) + of_bool (cells ! i = Dead) = dead cells + of_bool (c = Dead)"
  unfolding dead_def by (rule length_filter_update)

lemma used_split: "used cells = live cells + dead cells"
  unfolding used_def live_def dead_def by (induction cells) auto

lemma Free_exists: "used cells < length cells \<Longrightarrow> Free \<in> set cells"
  unfolding used_def by (metis (mono_tags, lifting) filter_True nat_neq_iff)

lemma table_ok_replicate:
  "table_ok home (replicate (2 ^ b) Free)" "cell_keys (replicate n Free) = {}"
  "used (replicate n Free) = 0" "live (replicate n Free) = 0" "dead (replicate n Free) = 0"
  by (auto simp: table_ok_def path_ok_def keys_distinct_def cell_keys_def used_def live_def dead_def)

lemma cell_keys_simps [simp]:
  "cell_keys [] = {}" "cell_keys (Free # cells) = cell_keys cells"
  "cell_keys (Dead # cells) = cell_keys cells" "cell_keys (Live k # cells) = insert k (cell_keys cells)"
  by (auto simp: cell_keys_def)

lemma live_simps [simp]:
  "live [] = 0" "live (Free # cells) = live cells" "live (Dead # cells) = live cells"
  "live (Live k # cells) = Suc (live cells)"
  by (simp_all add: live_def)

lemma set_key_list [simp]: "set (key_list cells) = cell_keys cells"
  by (induction cells rule: key_list.induct) (auto simp: cell_keys_def)

lemma finite_cell_keys [simp]: "finite (cell_keys cells)"
  by (metis List.finite_set set_key_list)

lemma length_key_list: "length (key_list cells) = live cells"
  by (induction cells rule: key_list.induct) (auto simp: live_def)

lemma distinct_key_list: "keys_distinct cells \<Longrightarrow> distinct (key_list cells)"
proof (induction cells rule: key_list.induct)
  case (2 k cells)
  have "k \<notin> cell_keys cells"
  proof
    assume "k \<in> cell_keys cells"
    then obtain j where "j < length cells" "cells ! j = Live k"
      by (auto simp: cell_keys_def in_set_conv_nth)
    then have "0 = Suc j"
      using "2.prems" unfolding keys_distinct_def
      by (metis Suc_less_eq length_Cons nth_Cons_0 nth_Cons_Suc zero_less_Suc)
    then show False by simp
  qed
  moreover have "keys_distinct cells"
    using "2.prems" by (fastforce simp: keys_distinct_def)
  ultimately show ?case using 2 by simp
qed (fastforce simp: keys_distinct_def)+

lemma live_card: "keys_distinct cells \<Longrightarrow> live cells = card (cell_keys cells)"
  by (metis distinct_card distinct_key_list length_key_list set_key_list)

lemma table_ok_insert:
  assumes ok: "table_ok home cells" and new: "k \<notin> cell_keys cells"
    and before: "\<forall>e<d. cells ! pos (length cells) (home k) e \<noteq> Free"
    and p: "p = pos (length cells) (home k) d" and open_cell: "\<And>k'. cells ! p \<noteq> Live k'"
    and room: "Free \<in> set (cells[p := Live k])"
  shows "table_ok home (cells[p := Live k])"
    and "cell_keys (cells[p := Live k]) = insert k (cell_keys cells)"
proof -
  let ?c = "cells[p := Live k]"
  have n: "0 < length cells" using ok by (auto simp: table_ok_def)
  then have pl: "p < length cells" using p by simp
  have nf: "cells ! i \<noteq> Free \<Longrightarrow> ?c ! i \<noteq> Free" for i
    using pl by (cases "i = p") auto
  have old: "?c ! j = Live k' \<Longrightarrow> k' \<noteq> k \<Longrightarrow> cells ! j = Live k'" for j k'
    using pl by (cases "j = p") auto
  have only: "?c ! j = Live k \<Longrightarrow> j < length cells \<Longrightarrow> j = p" for j
    using new pl by (cases "j = p") (auto simp: cell_keys_def in_set_conv_nth)
  have "path_ok home ?c"
    unfolding path_ok_def
  proof (intro allI impI)
    fix j k' assume j: "j < length ?c" "?c ! j = Live k'"
    show "\<exists>d. j = pos (length ?c) (home k') d \<and> (\<forall>e<d. ?c ! pos (length ?c) (home k') e \<noteq> Free)"
    proof (cases "k' = k")
      case True
      then show ?thesis using j only [of j] before p nf by auto
    next
      case False
      then have "cells ! j = Live k'" using old j by blast
      then show ?thesis
        using ok j nf unfolding table_ok_def path_ok_def by (metis length_list_update)
    qed
  qed
  moreover have "keys_distinct ?c"
    unfolding keys_distinct_def
    using ok only old unfolding table_ok_def keys_distinct_def by (metis length_list_update)
  ultimately show "table_ok home ?c"
    using ok room by (simp add: table_ok_def)
  show "cell_keys ?c = insert k (cell_keys cells)"
    using pl open_cell unfolding cell_keys_def
    by (auto simp: in_set_conv_nth nth_list_update split: if_splits) metis+
qed

lemma table_ok_delete:
  assumes ok: "table_ok home cells" and p: "p < length cells" "cells ! p = Live k"
  shows "table_ok home (cells[p := Dead])"
    and "cell_keys (cells[p := Dead]) = cell_keys cells - {k}"
proof -
  let ?c = "cells[p := Dead]"
  have iff: "?c ! j = Live k' \<longleftrightarrow> j \<noteq> p \<and> cells ! j = Live k'" for j k'
    using p by (cases "j = p") auto
  have nf: "?c ! j = Free \<longleftrightarrow> cells ! j = Free" for j
    using p by (cases "j = p") auto
  have dist: "j < length cells \<Longrightarrow> cells ! j = Live k \<Longrightarrow> j = p" for j
    using ok p by (auto simp: table_ok_def keys_distinct_def)
  have "Free \<in> set ?c"
    using ok nf by (auto simp: table_ok_def in_set_conv_nth)
  then show "table_ok home ?c"
    using ok unfolding table_ok_def path_ok_def keys_distinct_def by (auto simp: iff nf)
  show "cell_keys ?c = cell_keys cells - {k}"
  proof (rule set_eqI)
    fix x
    have "x \<in> cell_keys ?c \<longleftrightarrow> (\<exists>j<length cells. j \<noteq> p \<and> cells ! j = Live x)"
      by (simp add: cell_keys_def in_set_conv_nth iff)
    also have "\<dots> \<longleftrightarrow> x \<noteq> k \<and> (\<exists>j<length cells. cells ! j = Live x)"
    proof (cases "x = k")
      case False
      then have "cells ! j = Live x \<Longrightarrow> j \<noteq> p" for j using p(2) by auto
      then show ?thesis using False by blast
    qed (use dist in blast)
    finally show "x \<in> cell_keys ?c \<longleftrightarrow> x \<in> cell_keys cells - {k}"
      by (auto simp: cell_keys_def in_set_conv_nth)
  qed
qed

end
