(* ===== verification/Names.thy ===== *)
theory Names
  imports Prelude "HOL-Library.Sublist"
begin

text \<open>
  Names outside the wire format: \<open>util.rs\<close> (\<open>normalize_name\<close>), the allocation-free
  \<open>normalize_into\<close> of \<open>blocklist.rs\<close> and the inline keys of \<open>dns/inline_name.rs\<close>.

  A Rust \<open>str\<close> is its UTF-8 byte list. The string methods the code calls are modelled on the
  bytes: \<open>trim\<close> and \<open>split_whitespace\<close> by the encodings of the 25 characters with the
  Unicode property White\_Space, which is exact because UTF-8 is self-synchronising; the
  methods that look for an ASCII character (\<open>trim_end_matches('.')\<close>, \<open>lines\<close>, \<open>find\<close>) by the
  byte itself.
\<close>

subsection \<open>String methods of the standard library\<close>

definition whitespace :: "bytes list" where
  "whitespace =
     map (\<lambda>b. [b]) [9, 10, 11, 12, 13, 32] @ [[0xC2, 0x85], [0xC2, 0xA0], [0xE1, 0x9A, 0x80]] @
     map (\<lambda>b. [0xE2, 0x80, b])
       [0x80, 0x81, 0x82, 0x83, 0x84, 0x85, 0x86, 0x87, 0x88, 0x89, 0x8A, 0xA8, 0xA9, 0xAF] @
     [[0xE2, 0x81, 0x9F], [0xE3, 0x80, 0x80]]"

definition prefix_of :: "bytes list \<Rightarrow> bytes \<Rightarrow> bytes option" where
  "prefix_of ws s = find (\<lambda>w. w \<noteq> [] \<and> take (length w) s = w) ws"

lemma prefix_of_SomeD:
  "prefix_of ws s = Some w \<Longrightarrow> w \<in> set ws \<and> w \<noteq> [] \<and> s = w @ drop (length w) s"
  unfolding prefix_of_def find_Some_iff by (metis append_take_drop_id nth_mem)

lemma prefix_of_takeD: "prefix_of ws s = Some w \<Longrightarrow> w \<in> set ws \<and> take (length w) s = w"
  unfolding prefix_of_def find_Some_iff by (metis nth_mem)

lemma prefix_of_NoneD: "prefix_of ws s = None \<Longrightarrow> w \<in> set ws \<Longrightarrow> w \<noteq> [] \<Longrightarrow> s \<noteq> w @ r"
  unfolding prefix_of_def find_None_iff by auto

lemma prefix_of_Nil [simp]: "prefix_of ws [] = None"
  unfolding prefix_of_def find_None_iff by auto

function strip_any :: "bytes list \<Rightarrow> bytes \<Rightarrow> bytes" where
  "strip_any ws s =
     (case prefix_of ws s of None \<Rightarrow> s | Some w \<Rightarrow> strip_any ws (drop (length w) s))"
  by pat_completeness auto
termination
proof (relation "measure (\<lambda>(ws, s). length s)")
  fix ws s w assume "prefix_of ws s = Some w"
  then obtain r where "w \<noteq> []" "s = w @ r" by (metis prefix_of_SomeD)
  then show "((ws, drop (length w) s), (ws, s)) \<in> measure (\<lambda>(ws, s). length s)"
    by simp
qed simp

declare strip_any.simps [simp del]

definition trim :: "bytes \<Rightarrow> bytes" where
  "trim s = rev (strip_any (map rev whitespace) (rev (strip_any whitespace s)))"

definition trim_start_dots :: "bytes \<Rightarrow> bytes" where
  "trim_start_dots s = dropWhile (\<lambda>b. b = 46) s"

definition trim_end_dots :: "bytes \<Rightarrow> bytes" where
  "trim_end_dots s = rev (dropWhile (\<lambda>b. b = 46) (rev s))"

function split_ws :: "bytes \<Rightarrow> bytes \<Rightarrow> bytes list" where
  "split_ws cur s =
     (case s of [] \<Rightarrow> [cur]
      | b # r \<Rightarrow>
          (case prefix_of whitespace s of
             None \<Rightarrow> split_ws (cur @ [b]) r
           | Some w \<Rightarrow> cur # split_ws [] (drop (length w) s)))"
  by pat_completeness auto
termination
proof (relation "measure (\<lambda>(cur, s). length s)")
  fix cur s b r w assume s: "s = b # r" and "prefix_of whitespace s = Some w"
  then have "w \<noteq> []" by (auto dest: prefix_of_SomeD)
  then show "(([], drop (length w) s), (cur, s)) \<in> measure (\<lambda>(cur, s). length s)"
    using s by simp
qed auto

declare split_ws.simps [simp del]

definition split_whitespace :: "bytes \<Rightarrow> bytes list" where
  "split_whitespace s = filter (\<lambda>t. t \<noteq> []) (split_ws [] s)"

text \<open>\<open>str::lines\<close>: split after each line feed, which is dropped with a carriage return before it.\<close>

fun split_lines :: "bytes \<Rightarrow> bytes \<Rightarrow> bytes list" where
  "split_lines cur [] = (if cur = [] then [] else [cur])" |
  "split_lines cur (b # r) =
     (if b = 10 then (if cur \<noteq> [] \<and> last cur = 13 then butlast cur else cur) # split_lines [] r
      else split_lines (cur @ [b]) r)"

definition lines :: "bytes \<Rightarrow> bytes list" where
  "lines s = split_lines [] s"

text \<open>\<open>str::from_utf8\<close>: the well-formed byte sequences of the Unicode standard.\<close>

definition cont :: "u8 \<Rightarrow> bool" where
  "cont b \<longleftrightarrow> 0x80 \<le> b \<and> b \<le> 0xBF"

fun utf8_valid :: "bytes \<Rightarrow> bool" where
  "utf8_valid [] = True" |
  "utf8_valid (a # s) =
     (if a < 0x80 then utf8_valid s
      else if 0xC2 \<le> a \<and> a \<le> 0xDF then
        (case s of b # t \<Rightarrow> cont b \<and> utf8_valid t | _ \<Rightarrow> False)
      else if 0xE0 \<le> a \<and> a \<le> 0xEF then
        (case s of
           b # c # t \<Rightarrow>
             cont b \<and> (a = 0xE0 \<longrightarrow> 0xA0 \<le> b) \<and> (a = 0xED \<longrightarrow> b \<le> 0x9F) \<and> cont c \<and> utf8_valid t
         | _ \<Rightarrow> False)
      else if 0xF0 \<le> a \<and> a \<le> 0xF4 then
        (case s of
           b # c # d # t \<Rightarrow>
             cont b \<and> (a = 0xF0 \<longrightarrow> 0x90 \<le> b) \<and> (a = 0xF4 \<longrightarrow> b \<le> 0x8F) \<and> cont c \<and> cont d
               \<and> utf8_valid t
         | _ \<Rightarrow> False)
      else False)"

subsection \<open>Normalization\<close>

definition normalize_name :: "bytes \<Rightarrow> bytes" where
  "normalize_name name =
     (let trimmed = trim_start_dots (trim_end_dots (trim name))
      in if trimmed = [] then [46] else map ascii_lower trimmed @ [46])"

text \<open>The buffer of \<open>normalize_into\<close> is given by the bytes written to its front.\<close>

definition normalize_into :: "bytes \<Rightarrow> bytes option" where
  "normalize_into name =
     (let trimmed = trim_start_dots (trim_end_dots (trim name))
      in if trimmed = [] \<or> length trimmed + 1 > 255 then None
         else Some (map ascii_lower trimmed @ [46]))"

subsection \<open>Inline names\<close>

record inline_name =
  in_len :: u8
  in_bytes :: bytes

definition inline_from_bytes :: "bytes \<Rightarrow> inline_name option" where
  "inline_from_bytes name =
     (if length name > 255 then None
      else Some \<lparr>in_len = of_nat (length name), in_bytes = blit (replicate 255 0) 0 name\<rparr>)"

definition inline_as_bytes :: "inline_name \<Rightarrow> bytes" where
  "inline_as_bytes n = take (unat (in_len n)) (in_bytes n)"

definition inline_eq :: "inline_name \<Rightarrow> inline_name \<Rightarrow> bool" where
  "inline_eq a b \<longleftrightarrow> inline_as_bytes a = inline_as_bytes b"

lemma inline_as_bytes_from_bytes:
  "inline_from_bytes name = Some n \<Longrightarrow> inline_as_bytes n = name"
  by (auto simp: inline_from_bytes_def inline_as_bytes_def blit_def unat_of_nat split: if_splits)

lemma inline_eq_iff:
  "inline_from_bytes a = Some m \<Longrightarrow> inline_from_bytes b = Some n \<Longrightarrow> inline_eq m n \<longleftrightarrow> a = b"
  by (simp add: inline_eq_def inline_as_bytes_from_bytes)

subsection \<open>Trimming\<close>

text \<open>Text without white space: printable ASCII.\<close>

definition plain :: "bytes \<Rightarrow> bool" where
  "plain s \<longleftrightarrow> (\<forall>b\<in>set s. 32 < b \<and> b < 128)"

lemma plain_simps [simp]:
  "plain []" "plain (b # s) \<longleftrightarrow> 32 < b \<and> b < 128 \<and> plain s" "plain (s @ t) \<longleftrightarrow> plain s \<and> plain t"
  "plain (rev s) \<longleftrightarrow> plain s"
  by (auto simp: plain_def)

lemma plain_ends: "plain s \<Longrightarrow> s \<noteq> [] \<Longrightarrow> plain [hd s, last s]"
  by (simp add: plain_def)

lemma whitespace_ends:
  "w \<in> set whitespace \<Longrightarrow>
     w \<noteq> [] \<and> \<not> (32 < hd w \<and> hd w < 128) \<and> \<not> (32 < last w \<and> last w < 128)"
  by (auto simp: whitespace_def)

lemma prefix_of_plain:
  assumes "\<And>w. w \<in> set ws \<Longrightarrow> w \<noteq> [] \<and> \<not> (32 < hd w \<and> hd w < 128)"
    and "32 < b" "b < 128"
  shows "prefix_of ws (b # s) = None"
proof (cases "prefix_of ws (b # s)")
  case (Some w)
  then have "w \<in> set ws" "w \<noteq> []" "b # s = w @ drop (length w) (b # s)"
    using prefix_of_SomeD [OF Some] by auto
  then have "hd w = b" by (metis hd_append2 list.sel(1))
  with assms \<open>w \<in> set ws\<close> show ?thesis by blast
qed simp

lemma strip_any_stop: "prefix_of ws s = None \<Longrightarrow> strip_any ws s = s"
  by (simp add: strip_any.simps)

lemma strip_any_fixed: "prefix_of ws (strip_any ws s) = None"
proof (induction ws s rule: strip_any.induct)
  case (1 ws s)
  then show ?case
    by (subst strip_any.simps) (auto split: option.splits)
qed

lemma strip_any_append:
  assumes ne: "\<forall>w\<in>set ws. w \<noteq> []" and pre: "set pre \<subseteq> set ws"
    and prefix_free: "\<And>v w. v \<in> set ws \<Longrightarrow> w \<in> set ws \<Longrightarrow> take (length v) w = v \<Longrightarrow> v = w"
  shows "strip_any ws (concat pre @ s) = strip_any ws s"
  using pre
proof (induction pre)
  case (Cons w pre)
  have w: "w \<in> set ws" "w \<noteq> []" using Cons.prems ne by auto
  obtain v where v: "prefix_of ws (w @ concat pre @ s) = Some v"
    using prefix_of_NoneD [of ws "w @ concat pre @ s" w "concat pre @ s"] w
    by (cases "prefix_of ws (w @ concat pre @ s)") auto
  note take = prefix_of_takeD [OF v]
  have "v = w"
  proof (cases "length v \<le> length w")
    case True
    then show ?thesis using take prefix_free [of v w] w by simp
  next
    case False
    then have "take (length w) v = w"
      using arg_cong [OF conjunct2 [OF take], of "take (length w)"] by (simp add: min_def)
    then show ?thesis using take prefix_free [of w v] w by simp
  qed
  with v Cons show ?case
    by (simp add: strip_any.simps [of ws "w @ concat pre @ s"])
qed simp

lemma whitespace_prefix_free:
  "v \<in> set whitespace \<Longrightarrow> w \<in> set whitespace \<Longrightarrow> take (length v) w = v \<Longrightarrow> v = w"
proof -
  have "list_all (\<lambda>v. list_all (\<lambda>w. take (length v) w = v \<longrightarrow> v = w) whitespace) whitespace"
    by code_simp
  then show "v \<in> set whitespace \<Longrightarrow> w \<in> set whitespace \<Longrightarrow> take (length v) w = v \<Longrightarrow> v = w"
    by (auto simp: list_all_iff)
qed

lemma whitespace_suffix_free:
  "v \<in> set (map rev whitespace) \<Longrightarrow> w \<in> set (map rev whitespace) \<Longrightarrow> take (length v) w = v \<Longrightarrow> v = w"
proof -
  have "list_all (\<lambda>v. list_all (\<lambda>w. take (length v) w = v \<longrightarrow> v = w) (map rev whitespace))
      (map rev whitespace)"
    by code_simp
  then show "v \<in> set (map rev whitespace) \<Longrightarrow> w \<in> set (map rev whitespace)
      \<Longrightarrow> take (length v) w = v \<Longrightarrow> v = w"
    unfolding list_all_iff by blast
qed

lemma trim_padded:
  assumes "plain [hd u, last u]" "u \<noteq> []" "set pre \<subseteq> set whitespace" "set post \<subseteq> set whitespace"
  shows "trim (concat pre @ u @ concat post) = u"
proof -
  obtain b v where u: "u = b # v" "32 < b" "b < 128" using assms(1, 2) by (cases u) auto
  obtain c w where ru: "rev u = c # w" "32 < c" "c < 128"
    using assms(1, 2) by (cases u rule: rev_cases) auto
  have ends: "w \<in> set whitespace \<Longrightarrow> w \<noteq> [] \<and> \<not> (32 < hd w \<and> hd w < 128)"
    "w \<in> set (map rev whitespace) \<Longrightarrow> w \<noteq> [] \<and> \<not> (32 < hd w \<and> hd w < 128)" for w
    using whitespace_ends by (auto simp: hd_rev)
  have "strip_any whitespace (concat pre @ u @ concat post) = strip_any whitespace (u @ concat post)"
    by (rule strip_any_append [OF _ assms(3) whitespace_prefix_free]) (use ends(1) in blast)
  also have "\<dots> = u @ concat post"
    unfolding u by (simp only: append_Cons) (rule strip_any_stop [OF prefix_of_plain [OF ends(1) u(2,3)]])
  finally have "strip_any whitespace (concat pre @ u @ concat post) = u @ concat post" .
  moreover have "rev (u @ concat post) = concat (map rev (rev post)) @ rev u"
    by (simp add: rev_concat rev_map)
  moreover have "strip_any (map rev whitespace) (concat (map rev (rev post)) @ rev u) = rev u"
  proof (subst strip_any_append [OF _ _ whitespace_suffix_free])
    show "strip_any (map rev whitespace) (rev u) = rev u"
      unfolding ru(1) by (rule strip_any_stop [OF prefix_of_plain [OF ends(2) ru(2,3)]])
    show "set (map rev (rev post)) \<subseteq> set (map rev whitespace)"
      using assms(4) by auto
  qed (use ends(2) in blast)+
  ultimately show ?thesis by (simp add: trim_def)
qed

lemma trim_plain [simp]: "plain u \<Longrightarrow> trim u = u"
  using trim_padded [of u "[]" "[]"] plain_ends [of u]
  by (cases "u = []") (auto simp: trim_def strip_any_stop)

lemma trim_ends [simp]: "s \<noteq> [] \<Longrightarrow> plain [hd s, last s] \<Longrightarrow> trim s = s"
  using trim_padded [of s "[]" "[]"] by simp

lemma trim_dots_padded:
  assumes "t \<noteq> []" "hd t \<noteq> 46" "last t \<noteq> 46"
  shows "trim_start_dots (trim_end_dots (replicate i 46 @ t @ replicate j 46)) = t"
proof -
  have "trim_end_dots (replicate i 46 @ t @ replicate j 46) = replicate i 46 @ t"
    using assms(1, 3) by (cases t rule: rev_cases) (simp_all add: trim_end_dots_def dropWhile_append3)
  then show ?thesis
    using assms(1, 2) by (cases t) (simp_all add: trim_start_dots_def dropWhile_append3)
qed

lemma normalize_name_padded:
  assumes "plain t" "t \<noteq> []" "hd t \<noteq> 46" "last t \<noteq> 46"
    "set pre \<subseteq> set whitespace" "set post \<subseteq> set whitespace"
  shows "normalize_name (concat pre @ (replicate i 46 @ t @ replicate j 46) @ concat post)
    = map ascii_lower t @ [46]"
proof -
  have "plain (replicate n 46)" for n by (simp add: plain_def)
  then have "trim (concat pre @ (replicate i 46 @ t @ replicate j 46) @ concat post)
      = replicate i 46 @ t @ replicate j 46"
    using assms by (intro trim_padded plain_ends) simp_all
  then show ?thesis
    using assms by (simp add: normalize_name_def Let_def trim_dots_padded)
qed

lemma trim_dots_ends:
  assumes "trim_start_dots (trim_end_dots s) \<noteq> []"
  shows "hd (trim_start_dots (trim_end_dots s)) \<noteq> 46" "last (trim_start_dots (trim_end_dots s)) \<noteq> 46"
proof -
  show "hd (trim_start_dots (trim_end_dots s)) \<noteq> 46"
    using assms hd_dropWhile unfolding trim_start_dots_def by blast
  have "last (trim_start_dots (trim_end_dots s)) = last (trim_end_dots s)"
    using assms unfolding trim_start_dots_def
    by (metis append_Nil2 dropWhile_eq_drop last_drop length_drop length_greater_0_conv zero_less_diff)
  moreover have "trim_end_dots s \<noteq> []"
    using assms by (auto simp: trim_start_dots_def)
  ultimately show "last (trim_start_dots (trim_end_dots s)) \<noteq> 46"
    using hd_dropWhile [of "\<lambda>b. b = 46" "rev s"] by (auto simp: trim_end_dots_def last_rev)
qed

lemma normalize_name_shape:
  "normalize_name s = [46] \<or>
   (\<exists>t. t \<noteq> [] \<and> hd t \<noteq> 46 \<and> last t \<noteq> 46 \<and> map ascii_lower t = t \<and> normalize_name s = t @ [46])"
proof -
  define t where "t = trim_start_dots (trim_end_dots (trim s))"
  have "t \<noteq> [] \<Longrightarrow> hd (map ascii_lower t) \<noteq> 46 \<and> last (map ascii_lower t) \<noteq> 46"
    using trim_dots_ends [of "trim s"] by (simp add: t_def hd_map last_map)
  then show ?thesis
    by (auto simp: normalize_name_def Let_def t_def intro!: exI [of _ "map ascii_lower t"])
qed

lemma normalize_into_eq:
  "normalize_into s =
    (if normalize_name s = [46] \<or> length (normalize_name s) > 255 then None else Some (normalize_name s))"
  by (auto simp: normalize_into_def normalize_name_def Let_def)

end
