(* ===== verification/Addr.thy ===== *)
theory Addr
  imports Prelude
begin

text \<open>
  The parsers of the standard library that \<open>config.rs\<close> and \<open>blocklist.rs\<close> call on text:
  \<open>str::parse\<close> at \<open>u16\<close>, \<open>u32\<close>, \<open>u64\<close>, \<open>bool\<close>, \<open>Ipv4Addr\<close> and \<open>IpAddr\<close>. A parser of the address
  grammar takes the remaining bytes and returns a value with what is left, or \<open>None\<close> with the
  input not consumed, like the methods of \<open>core::net::parser\<close>. The lemmas show that the IPv4
  parser accepts exactly the canonical dotted decimal texts.
\<close>

subsection \<open>Integers and booleans\<close>

definition to_digit :: "nat \<Rightarrow> u8 \<Rightarrow> nat option" where
  "to_digit radix b =
     (let v = (if 48 \<le> b \<and> b \<le> 57 then unat b - 48
               else if 97 \<le> b \<and> b \<le> 122 then unat b - 87
               else if 65 \<le> b \<and> b \<le> 90 then unat b - 55 else radix)
      in if v < radix then Some v else None)"

fun uint_digits :: "nat \<Rightarrow> nat \<Rightarrow> bytes \<Rightarrow> nat option" where
  "uint_digits bound acc [] = Some acc" |
  "uint_digits bound acc (b # s) =
     (case to_digit 10 b of None \<Rightarrow> None
      | Some d \<Rightarrow> if acc * 10 + d < bound then uint_digits bound (acc * 10 + d) s else None)"

definition parse_uint :: "nat \<Rightarrow> bytes \<Rightarrow> nat option" where
  "parse_uint bound s =
     (case s of [] \<Rightarrow> None
      | b # t \<Rightarrow>
          if b = 43 then (if t = [] then None else uint_digits bound 0 t)
          else uint_digits bound 0 s)"

definition parse_bool :: "bytes \<Rightarrow> bool option" where
  "parse_bool s =
     (if s = [116, 114, 117, 101] then Some True
      else if s = [102, 97, 108, 115, 101] then Some False else None)"

subsection \<open>Addresses\<close>

datatype ip_addr = V4 ipv4 | V6 "u16 list"

fun read_digits :: "nat \<Rightarrow> nat \<Rightarrow> nat \<Rightarrow> nat \<Rightarrow> bytes \<Rightarrow> (nat \<times> nat \<times> bytes) option" where
  "read_digits radix max_digits acc n [] = Some (acc, n, [])" |
  "read_digits radix max_digits acc n (b # s) =
     (case to_digit radix b of
        None \<Rightarrow> Some (acc, n, b # s)
      | Some d \<Rightarrow>
          if n + 1 > max_digits then None
          else read_digits radix max_digits (acc * radix + d) (n + 1) s)"

definition read_number :: "nat \<Rightarrow> nat \<Rightarrow> bool \<Rightarrow> nat \<Rightarrow> bytes \<Rightarrow> (nat \<times> bytes) option" where
  "read_number radix max_digits allow_zero_prefix bound s = do {
     (v, n, rest) \<leftarrow> read_digits radix max_digits 0 0 s;
     if n = 0 then None
     else if \<not> allow_zero_prefix \<and> get s 0 = Some 48 \<and> n > 1 then None
     else if v < bound then Some (v, rest) else None
   }"

definition read_separator :: "u8 \<Rightarrow> nat \<Rightarrow> (bytes \<Rightarrow> ('a \<times> bytes) option) \<Rightarrow> bytes \<Rightarrow> ('a \<times> bytes) option"
  where "read_separator sep i inner s =
     (if i > 0 then (case s of [] \<Rightarrow> None | c # t \<Rightarrow> if c = sep then inner t else None)
      else inner s)"

definition read_ipv4_addr :: "bytes \<Rightarrow> (ipv4 \<times> bytes) option" where
  "read_ipv4_addr s = do {
     (a, s) \<leftarrow> read_separator 46 0 (read_number 10 3 False 256) s;
     (b, s) \<leftarrow> read_separator 46 1 (read_number 10 3 False 256) s;
     (c, s) \<leftarrow> read_separator 46 2 (read_number 10 3 False 256) s;
     (d, s) \<leftarrow> read_separator 46 3 (read_number 10 3 False 256) s;
     Some ((of_nat a, of_nat b, of_nat c, of_nat d), s)
   }"

text \<open>\<open>read_groups i k s\<close> reads at most \<open>k\<close> groups; \<open>i\<close> groups have been read before.\<close>

fun read_groups :: "nat \<Rightarrow> nat \<Rightarrow> bytes \<Rightarrow> u16 list \<times> bool \<times> bytes" where
  "read_groups i 0 s = ([], False, s)" |
  "read_groups i (Suc k) s =
     (case (if k > 0 then read_separator 58 i read_ipv4_addr s else None) of
        Some ((a, b, c, d), r) \<Rightarrow> ([u16_of_be a b, u16_of_be c d], True, r)
      | None \<Rightarrow>
          (case read_separator 58 i (read_number 16 4 True 65536) s of
             None \<Rightarrow> ([], False, s)
           | Some (g, r) \<Rightarrow>
               (let (gs, v4, r') = read_groups (Suc i) k r in (of_nat g # gs, v4, r'))))"

definition read_ipv6_addr :: "bytes \<Rightarrow> (u16 list \<times> bytes) option" where
  "read_ipv6_addr s =
     (let (head, head_ipv4, r) = read_groups 0 8 s
      in if length head = 8 then Some (head, r)
         else if head_ipv4 then None
         else (case r of
                 c # d # r' \<Rightarrow>
                   if c = 58 \<and> d = 58 then
                     (let (tail, _, r'') = read_groups 0 (8 - (length head + 1)) r'
                      in Some (head @ replicate (8 - length head - length tail) 0 @ tail, r''))
                   else None
               | _ \<Rightarrow> None))"

definition parse_with :: "(bytes \<Rightarrow> ('a \<times> bytes) option) \<Rightarrow> bytes \<Rightarrow> 'a option" where
  "parse_with p s = (case p s of Some (v, []) \<Rightarrow> Some v | _ \<Rightarrow> None)"

definition parse_ipv4 :: "bytes \<Rightarrow> ipv4 option" where
  "parse_ipv4 s = (if length s > 15 then None else parse_with read_ipv4_addr s)"

definition read_ip_addr :: "bytes \<Rightarrow> (ip_addr \<times> bytes) option" where
  "read_ip_addr s =
     (case read_ipv4_addr s of
        Some (a, r) \<Rightarrow> Some (V4 a, r)
      | None \<Rightarrow> map_option (\<lambda>(g, r). (V6 g, r)) (read_ipv6_addr s))"

definition parse_ip :: "bytes \<Rightarrow> ip_addr option" where
  "parse_ip s = parse_with read_ip_addr s"

subsection \<open>Printing\<close>

definition digit :: "nat \<Rightarrow> u8" where
  "digit d = of_nat (48 + d)"

definition dec :: "nat \<Rightarrow> bytes" where
  "dec n =
     (if n < 10 then [digit n]
      else if n < 100 then [digit (n div 10), digit (n mod 10)]
      else [digit (n div 100), digit (n div 10 mod 10), digit (n mod 10)])"

definition ipv4_text :: "ipv4 \<Rightarrow> bytes" where
  "ipv4_text ip =
     (case ip of (a, b, c, d) \<Rightarrow>
        dec (unat a) @ [46] @ dec (unat b) @ [46] @ dec (unat c) @ [46] @ dec (unat d))"

subsection \<open>Reading a decimal octet\<close>

definition no_digit :: "bytes \<Rightarrow> bool" where
  "no_digit s \<longleftrightarrow> (case s of [] \<Rightarrow> True | b # _ \<Rightarrow> to_digit 10 b = None)"

lemma no_digit_simps [simp]:
  "no_digit []" "no_digit (b # s) \<longleftrightarrow> to_digit 10 b = None"
  by (simp_all add: no_digit_def)

lemma unat_digit: "d < 10 \<Longrightarrow> unat (digit d) = 48 + d"
  by (simp add: digit_def unat_of_nat del: of_nat_add)

lemma to_digit_digit [simp]: "d < 10 \<Longrightarrow> to_digit 10 (digit d) = Some d"
  by (simp add: to_digit_def word_le_nat_alt unat_digit)

lemma to_digit_dot [simp]: "to_digit 10 46 = None"
  by (simp add: to_digit_def)

lemma to_digit_SomeD: "to_digit 10 b = Some d \<Longrightarrow> d < 10 \<and> b = digit d"
proof -
  assume "to_digit 10 b = Some d"
  then have "d < 10" "unat b = 48 + d"
    by (auto simp: to_digit_def Let_def word_le_nat_alt split: if_splits)
  then show ?thesis
    by (metis unat_digit unsigned_word_eqI)
qed

lemma read_digits_SomeD:
  "read_digits 10 m acc n s = Some (v, k, rest) \<Longrightarrow> n \<le> m \<Longrightarrow>
     \<exists>ds. s = map digit ds @ rest \<and> list_all (\<lambda>d. d < 10) ds \<and> k = n + length ds \<and> k \<le> m \<and>
          v = foldl (\<lambda>a d. a * 10 + d) acc ds \<and> no_digit rest"
proof (induction "10::nat" m acc n s rule: read_digits.induct)
  case (2 m acc n b s)
  show ?case
  proof (cases "to_digit 10 b")
    case (Some d)
    with 2 obtain ds where "s = map digit ds @ rest" "list_all (\<lambda>d. d < 10) ds"
      "k = n + 1 + length ds" "k \<le> m" "v = foldl (\<lambda>a d. a * 10 + d) (acc * 10 + d) ds" "no_digit rest"
      by (auto split: if_splits)
    then show ?thesis
      using to_digit_SomeD [OF Some] by (intro exI [of _ "d # ds"]) simp
  qed (use 2 in auto)
qed auto

lemma read_digits_map:
  "list_all (\<lambda>d. d < 10) ds \<Longrightarrow> n + length ds \<le> m \<Longrightarrow> no_digit rest \<Longrightarrow>
     read_digits 10 m acc n (map digit ds @ rest) =
       Some (foldl (\<lambda>a d. a * 10 + d) acc ds, n + length ds, rest)"
proof (induction ds arbitrary: acc n)
  case Nil
  then show ?case by (cases rest) auto
qed auto

lemma upto_three:
  "length ds \<le> 3 \<Longrightarrow> ds = [] \<or> (\<exists>a. ds = [a]) \<or> (\<exists>a b. ds = [a, b]) \<or> (\<exists>a b c. ds = [a, b, c])"
  by (cases ds rule: list.exhaust; cases "tl ds"; cases "tl (tl ds)"; cases "tl (tl (tl ds))") auto

lemma digit_eq_0 [simp]: "d < 10 \<Longrightarrow> digit d = 48 \<longleftrightarrow> d = 0"
  by (metis to_digit_digit to_digit_SomeD add_0_right digit_def of_nat_numeral option.inject
      zero_less_numeral)

lemma three_digits:
  assumes "b < 10" "c < (10 :: nat)"
  shows "(100 * a + b * 10 + c) div 100 = a" "(100 * a + b * 10 + c) div 10 mod 10 = b"
    "(100 * a + b * 10 + c) mod 10 = c"
proof -
  have e: "100 * a + b * 10 + c = c + (b + a * 10) * 10" by simp
  have q: "(100 * a + b * 10 + c) div 10 = b + a * 10" and r: "(100 * a + b * 10 + c) mod 10 = c"
    unfolding e using assms(2) by (simp_all only: div_mult_self1 mod_mult_self1) simp_all
  then show "(100 * a + b * 10 + c) div 10 mod 10 = b" "(100 * a + b * 10 + c) mod 10 = c"
    using assms(1) by simp_all
  have "(100 * a + b * 10 + c) div 100 = (100 * a + b * 10 + c) div 10 div 10"
    by (simp add: div_mult2_eq [symmetric])
  with q show "(100 * a + b * 10 + c) div 100 = a" using assms(1) by simp
qed

lemma read_octet_iff:
  "read_number 10 3 False 256 s = Some (n, rest) \<longleftrightarrow> n < 256 \<and> no_digit rest \<and> s = dec n @ rest"
proof
  assume "read_number 10 3 False 256 s = Some (n, rest)"
  then obtain k where r: "read_digits 10 3 0 0 s = Some (n, k, rest)" and k: "k \<noteq> 0"
    and z: "\<not> (get s 0 = Some 48 \<and> k > 1)" and n: "n < 256"
    by (auto simp: read_number_def bind_eq_Some_conv split: if_splits)
  from read_digits_SomeD [OF r] obtain ds where s: "s = map digit ds @ rest"
    and ds: "list_all (\<lambda>d. d < 10) ds" "length ds \<le> 3" "k = length ds"
      "n = foldl (\<lambda>a d. a * 10 + d) 0 ds" "no_digit rest"
    by auto
  from upto_three [OF ds(2)] k ds(3)
  consider a where "ds = [a]" | a b where "ds = [a, b]" | a b c where "ds = [a, b, c]" by auto
  then show "n < 256 \<and> no_digit rest \<and> s = dec n @ rest"
    using n ds z s by cases (auto simp: dec_def three_digits)
next
  assume h: "n < 256 \<and> no_digit rest \<and> s = dec n @ rest"
  define ds where "ds = (if n < 10 then [n] else if n < 100 then [n div 10, n mod 10]
     else [n div 100, n div 10 mod 10, n mod 10])"
  have ds: "dec n = map digit ds" "list_all (\<lambda>d. d < 10) ds" "length ds \<le> 3" "ds \<noteq> []"
    "length ds > 1 \<longrightarrow> hd ds \<noteq> 0"
    using h by (auto simp: dec_def ds_def)
  have v: "foldl (\<lambda>a d. a * 10 + d) 0 ds = n"
    using div_mult2_eq [of n 10 10] div_mult_mod_eq [of "n div 10" 10] div_mult_mod_eq [of n 10]
    by (simp add: ds_def)
  have "get s 0 = Some 48 \<longleftrightarrow> hd ds = 0"
    using h ds by (cases ds) auto
  then show "read_number 10 3 False 256 s = Some (n, rest)"
    using h ds v by (auto simp: read_number_def read_digits_map)
qed

lemma read_octet_dec [simp]:
  "n < 256 \<Longrightarrow> no_digit rest \<Longrightarrow> read_number 10 3 False 256 (dec n @ rest) = Some (n, rest)"
  by (simp add: read_octet_iff)

lemma read_dot_octet_iff:
  "i > 0 \<Longrightarrow> read_separator 46 i (read_number 10 3 False 256) s = Some (n, rest) \<longleftrightarrow>
     n < 256 \<and> no_digit rest \<and> s = 46 # dec n @ rest"
  by (cases s) (auto simp: read_separator_def read_octet_iff)

lemma read_ipv4_addr_iff:
  "read_ipv4_addr s = Some (ip, rest) \<longleftrightarrow> no_digit rest \<and> s = ipv4_text ip @ rest"
proof
  assume "read_ipv4_addr s = Some (ip, rest)"
  then show "no_digit rest \<and> s = ipv4_text ip @ rest"
    by (auto simp: read_ipv4_addr_def bind_eq_Some_conv read_dot_octet_iff read_octet_iff
        read_separator_def [where i = 0] ipv4_text_def unat_of_nat)
next
  obtain a b c d where ip: "ip = (a, b, c, d)" by (cases ip)
  have lt: "unat (w :: u8) < 256" for w
    using unsigned_less [of w, where ?'a = nat] by simp
  assume "no_digit rest \<and> s = ipv4_text ip @ rest"
  then show "read_ipv4_addr s = Some (ip, rest)"
    using lt by (simp add: ip read_ipv4_addr_def ipv4_text_def read_separator_def)
qed

lemma length_dec: "length (dec n) \<le> 3"
  by (simp add: dec_def)

lemma parse_ipv4_iff: "parse_ipv4 s = Some ip \<longleftrightarrow> s = ipv4_text ip"
proof -
  obtain a b c d where ip: "ip = (a, b, c, d)" by (cases ip)
  have "length (ipv4_text ip) \<le> 15"
    using length_dec [of "unat a"] length_dec [of "unat b"] length_dec [of "unat c"]
      length_dec [of "unat d"] by (simp add: ip ipv4_text_def)
  moreover have "parse_with read_ipv4_addr s = Some ip \<longleftrightarrow> read_ipv4_addr s = Some (ip, [])"
    by (auto simp: parse_with_def split: option.splits list.splits)
  ultimately show ?thesis
    by (auto simp: parse_ipv4_def read_ipv4_addr_iff)
qed

lemma parse_ip_V4_iff: "parse_ip s = Some (V4 ip) \<longleftrightarrow> s = ipv4_text ip"
proof -
  have "parse_ip s = Some (V4 ip) \<longleftrightarrow> read_ipv4_addr s = Some (ip, [])"
    by (auto simp: parse_ip_def parse_with_def read_ip_addr_def split: option.splits list.splits prod.splits)
  then show ?thesis by (simp add: read_ipv4_addr_iff)
qed

end
