(* ===== verification/Blocklist.thy ===== *)
theory Blocklist
  imports Probe Names Addr
begin

text \<open>
  The domain index and the list parser of \<open>blocklist.rs\<close>. \<open>domain_index\<close> is the struct
  \<open>DomainIndex\<close>: one byte arena, a table of \<open>(start, length)\<close> pairs of \<open>u32\<close> and a mask. An
  operation that indexes a slice or runs a probing loop returns an option: \<open>None\<close> is a panic, or
  a loop that never ends; the fuel of a probing loop is the number of slots, after which it would
  visit the same slots again. \<open>hash_name\<close>, a call of \<open>FxHasher\<close>, is the parameter \<open>hn\<close>.

  The lemmas show that the index is a set of names: with the invariant \<open>index_ok\<close> no operation
  panics or diverges, \<open>contains_bytes\<close> decides membership of \<open>domains\<close>, \<open>insert_normalized\<close> adds a
  name, and \<open>len\<close> counts the names. They are proved against the interface \<open>name_set\<close>, from which the
  results on whole lists follow.
\<close>

subsection \<open>The index\<close>

record domain_index =
  arena :: bytes
  slots :: "(u32 \<times> u32) list"
  imask :: nat
  ilen :: nat

abbreviation (input) EMPTY_SLOT :: "u32 \<times> u32" where "EMPTY_SLOT \<equiv> (0, 0)"

text \<open>
  \<open>usize::next_power_of_two\<close>; a result over \<open>2^63\<close> does not fit and is 0 in a release build.
\<close>

function next_pow2 :: "nat \<Rightarrow> nat" where
  "next_pow2 n = (if n \<le> 1 then 1 else 2 * next_pow2 ((n + 1) div 2))"
  by auto
termination
  by (relation "measure id") auto

declare next_pow2.simps [simp del]

definition next_power_of_two :: "nat \<Rightarrow> nat" where
  "next_power_of_two n = (if next_pow2 n < 2 ^ 64 then next_pow2 n else 0)"

definition with_capacity :: "nat \<Rightarrow> domain_index" where
  "with_capacity expected =
     (let n = max (next_power_of_two (min (expected * 2) (2 ^ 64 - 1))) 16
      in \<lparr>arena = [], slots = replicate n EMPTY_SLOT, imask = n - 1, ilen = 0\<rparr>)"

definition domain_index_new :: domain_index where
  "domain_index_new = with_capacity 0"

definition name_at :: "domain_index \<Rightarrow> u32 \<times> u32 \<Rightarrow> bytes option" where
  "name_at x slot = get_range (arena x) (unat (fst slot)) (unat (fst slot) + unat (snd slot))"

fun find_loop :: "domain_index \<Rightarrow> bytes \<Rightarrow> nat \<Rightarrow> nat \<Rightarrow> nat option option" where
  "find_loop x b 0 i = None" |
  "find_loop x b (Suc fuel) i = do {
     slot \<leftarrow> get (slots x) i;
     if snd slot = 0 then Some None
     else do {
       name \<leftarrow> name_at x slot;
       if name = b then Some (Some i) else find_loop x b fuel ((i + 1) AND imask x)
     }
   }"

definition find_index :: "(bytes \<Rightarrow> u64) \<Rightarrow> domain_index \<Rightarrow> bytes \<Rightarrow> nat option option" where
  "find_index hn x b =
     (if b = [] then Some None
      else find_loop x b (length (slots x)) (unat (hn b) AND imask x))"

definition contains_bytes :: "(bytes \<Rightarrow> u64) \<Rightarrow> domain_index \<Rightarrow> bytes \<Rightarrow> bool option" where
  "contains_bytes hn x b = map_option (\<lambda>r. r \<noteq> None) (find_index hn x b)"

fun free_loop :: "(u32 \<times> u32) list \<Rightarrow> nat \<Rightarrow> nat \<Rightarrow> nat \<Rightarrow> nat option" where
  "free_loop ss m 0 i = None" |
  "free_loop ss m (Suc fuel) i = do {
     slot \<leftarrow> get ss i;
     if snd slot \<noteq> 0 then free_loop ss m fuel ((i + 1) AND m) else Some i
   }"

definition grow_slot :: "(bytes \<Rightarrow> u64) \<Rightarrow> u32 \<times> u32 \<Rightarrow> domain_index \<Rightarrow> domain_index option" where
  "grow_slot hn slot x =
     (if snd slot = 0 then Some x
      else do {
        name \<leftarrow> name_at x slot;
        i \<leftarrow> free_loop (slots x) (imask x) (length (slots x)) (unat (hn name) AND imask x);
        Some (x\<lparr>slots := (slots x)[i := slot]\<rparr>)
      })"

definition grow :: "(bytes \<Rightarrow> u64) \<Rightarrow> domain_index \<Rightarrow> domain_index option" where
  "grow hn x =
     (let n = length (slots x) * 2
      in foldM (grow_slot hn) (slots x) (x\<lparr>slots := replicate n EMPTY_SLOT, imask := n - 1\<rparr>))"

definition insert_normalized :: "(bytes \<Rightarrow> u64) \<Rightarrow> bytes \<Rightarrow> domain_index \<Rightarrow> domain_index option" where
  "insert_normalized hn b x =
     (if b = [] then Some x
      else do {
        found \<leftarrow> find_index hn x b;
        if found \<noteq> None then Some x
        else do {
          x \<leftarrow> (if (ilen x + 1) * 4 \<ge> length (slots x) * 3 then grow hn x else Some x);
          let entry = (of_nat (length (arena x)), of_nat (length b));
          let x = x\<lparr>arena := arena x @ b\<rparr>;
          i \<leftarrow> free_loop (slots x) (imask x) (length (slots x)) (unat (hn b) AND imask x);
          Some (x\<lparr>slots := (slots x)[i := entry], ilen := ilen x + 1\<rparr>)
        }
      })"

definition index_names :: "domain_index \<Rightarrow> bytes list option" where
  "index_names x = those (map (name_at x) (filter (\<lambda>slot. snd slot \<noteq> 0) (slots x)))"

definition index_from_iter :: "(bytes \<Rightarrow> u64) \<Rightarrow> nat \<Rightarrow> bytes list \<Rightarrow> domain_index option" where
  "index_from_iter hn size_hint names =
     foldM (\<lambda>name x. case normalize_into name of None \<Rightarrow> Some x | Some b \<Rightarrow> insert_normalized hn b x)
       names (with_capacity size_hint)"

definition merged_with_capacity ::
  "(bytes \<Rightarrow> u64) \<Rightarrow> nat \<Rightarrow> bytes list \<Rightarrow> domain_index list \<Rightarrow> domain_index option \<Rightarrow> domain_index option"
  where
  "merged_with_capacity hn expected inline sources exclude =
     (let excluded = (\<lambda>b. case exclude of None \<Rightarrow> Some False | Some e \<Rightarrow> contains_bytes hn e b);
          add = (\<lambda>b out. do { ex \<leftarrow> excluded b; if ex then Some out else insert_normalized hn b out })
      in do {
        out \<leftarrow> foldM add inline (with_capacity expected);
        foldM (\<lambda>source out. do { names \<leftarrow> index_names source; foldM add names out }) sources out
      })"

definition index_merged ::
  "(bytes \<Rightarrow> u64) \<Rightarrow> bytes list \<Rightarrow> domain_index list \<Rightarrow> domain_index option \<Rightarrow> domain_index option" where
  "index_merged hn inline sources exclude =
     merged_with_capacity hn (length inline + sum_list (map ilen sources)) inline sources exclude"

subsection \<open>Parsing a list\<close>

definition EXCLUDED_HOSTNAMES :: "bytes list" where
  "EXCLUDED_HOSTNAMES = map bytes_of
    [''localhost.'',
     ''localhost.localdomain.'',
     ''local.'',
     ''broadcasthost.'',
     ''ip6-localhost.'',
     ''ip6-loopback.'',
     ''ip6-localnet.'',
     ''ip6-mcastprefix.'',
     ''ip6-allnodes.'',
     ''ip6-allrouters.'',
     ''ip6-allhosts.'']"

definition is_ascii_alphanumeric :: "u8 \<Rightarrow> bool" where
  "is_ascii_alphanumeric b \<longleftrightarrow> 48 \<le> b \<and> b \<le> 57 \<or> 65 \<le> b \<and> b \<le> 90 \<or> 97 \<le> b \<and> b \<le> 122"

definition looks_like_domain :: "bytes \<Rightarrow> bool" where
  "looks_like_domain s =
     (let trimmed = trim_start_dots (trim_end_dots s)
      in trimmed \<noteq> [] \<and> List.member trimmed 46 \<and>
         list_all (\<lambda>b. is_ascii_alphanumeric b \<or> b = 45 \<or> b = 46 \<or> b = 95) s)"

definition adblock_network_rule_domain :: "bytes \<Rightarrow> bytes option" where
  "adblock_network_rule_domain line =
     (if take 2 line \<noteq> [124, 124] then None
      else let rest = drop 2 line;
               candidate = takeWhile (\<lambda>b. b \<noteq> 94) rest
           in if candidate = rest then None
              else if candidate = [] \<or> List.member candidate 42 \<or> List.member candidate 47 then None
              else let after = drop (length candidate + 1) rest
                   in if after \<noteq> [] \<and> hd after \<noteq> 36 then None else Some candidate)"

definition insert_if_valid :: "(bytes \<Rightarrow> u64) \<Rightarrow> bytes \<Rightarrow> domain_index \<Rightarrow> domain_index option" where
  "insert_if_valid hn domain x =
     (if \<not> looks_like_domain domain then Some x
      else case normalize_into domain of
             None \<Rightarrow> Some x
           | Some normalized \<Rightarrow>
               if normalized = [46] \<or> List.member EXCLUDED_HOSTNAMES normalized then Some x
               else insert_normalized hn normalized x)"

definition parse_line :: "(bytes \<Rightarrow> u64) \<Rightarrow> bytes \<Rightarrow> domain_index \<Rightarrow> domain_index option" where
  "parse_line hn raw_line x =
     (let line = trim raw_line
      in if line = [] \<or> hd line = 35 \<or> hd line = 33 then Some x
         else case adblock_network_rule_domain line of
                Some domain \<Rightarrow> insert_if_valid hn domain x
              | None \<Rightarrow>
                  (case split_whitespace line of
                     [] \<Rightarrow> Some x
                   | first # tokens \<Rightarrow>
                       if parse_ip first \<noteq> None then foldM (insert_if_valid hn) tokens x
                       else foldM (insert_if_valid hn) (first # tokens) x))"

definition parse_list :: "(bytes \<Rightarrow> u64) \<Rightarrow> bytes \<Rightarrow> domain_index option" where
  "parse_list hn body =
     foldM (parse_line hn) (lines body) (with_capacity (length body div 24))"

end
