(* ===== verification/Blocklist_Correct.thy ===== *)
theory Blocklist_Correct
  imports Blocklist
begin

text \<open>
  Correctness of the domain index and of the list parser: the representation invariant, the
  interface \<open>name_set\<close> with its instance, and what a parsed list contains.
\<close>

subsection \<open>The representation invariant\<close>

definition cell_at :: "domain_index \<Rightarrow> u32 \<times> u32 \<Rightarrow> bytes cell" where
  "cell_at x s = (if snd s = 0 then Free else Live (the (name_at x s)))"

definition cells :: "domain_index \<Rightarrow> bytes cell list" where
  "cells x = map (cell_at x) (slots x)"

definition home :: "(bytes \<Rightarrow> u64) \<Rightarrow> bytes \<Rightarrow> nat" where
  "home hn b = unat (hn b)"

definition slot_ok :: "domain_index \<Rightarrow> u32 \<times> u32 \<Rightarrow> bool" where
  "slot_ok x s \<longleftrightarrow> unat (fst s) + unat (snd s) \<le> length (arena x)"

definition slots_ok :: "(bytes \<Rightarrow> u64) \<Rightarrow> domain_index \<Rightarrow> bool" where
  "slots_ok hn x \<longleftrightarrow>
     table_ok (home hn) (cells x) \<and> imask x = length (slots x) - 1 \<and> list_all (slot_ok x) (slots x)"

definition domains :: "domain_index \<Rightarrow> bytes set" where
  "domains x = cell_keys (cells x)"

definition text_size :: "bytes set \<Rightarrow> nat" where
  "text_size B = (\<Sum>b\<in>B. length b)"

definition index_ok :: "(bytes \<Rightarrow> u64) \<Rightarrow> domain_index \<Rightarrow> bool" where
  "index_ok hn x \<longleftrightarrow>
     slots_ok hn x \<and> 16 \<le> length (slots x) \<and> ilen x = used (cells x) \<and>
     ilen x * 4 < length (slots x) * 3 \<and> length (arena x) = text_size (domains x)"

lemma finite_domains [simp]: "finite (domains x)"
  by (simp add: domains_def)

lemma text_size_insert [simp]: "finite B \<Longrightarrow> b \<notin> B \<Longrightarrow> text_size (insert b B) = length b + text_size B"
  by (simp add: text_size_def)

lemma text_size_mono: "finite B \<Longrightarrow> A \<subseteq> B \<Longrightarrow> text_size A \<le> text_size B"
  unfolding text_size_def by (rule sum_mono2) auto

lemma length_cells [simp]: "length (cells x) = length (slots x)"
  by (simp add: cells_def)

lemma nth_cells [simp]: "i < length (slots x) \<Longrightarrow> cells x ! i = cell_at x (slots x ! i)"
  by (simp add: cells_def)

lemma cell_at_Free [simp]: "cell_at x s = Free \<longleftrightarrow> snd s = 0"
  by (simp add: cell_at_def)

lemma cell_at_Dead [simp]: "cell_at x s \<noteq> Dead"
  by (simp add: cell_at_def)

lemma name_at_Some: "slot_ok x s \<Longrightarrow> \<exists>b. name_at x s = Some b \<and> length b = unat (snd s)"
  by (simp add: name_at_def slot_ok_def get_range_def)

lemma cell_at_Live:
  "slot_ok x s \<Longrightarrow> cell_at x s = Live b \<longleftrightarrow> snd s \<noteq> 0 \<and> name_at x s = Some b"
  using name_at_Some [of x s] by (auto simp: cell_at_def)

lemma cell_at_cong: "arena y = arena x \<Longrightarrow> cell_at y = cell_at x"
  by (simp add: cell_at_def name_at_def fun_eq_iff)

lemma slot_ok_cong: "arena y = arena x \<Longrightarrow> slot_ok y = slot_ok x"
  by (simp add: slot_ok_def fun_eq_iff)

lemma slots_ok_pow2:
  assumes "slots_ok hn x"
  obtains B where "length (slots x) = 2 ^ B" "imask x = 2 ^ B - 1"
  using assms unfolding slots_ok_def table_ok_def by auto

lemma slots_ok_pos: "slots_ok hn x \<Longrightarrow> 0 < length (slots x)"
  by (metis slots_ok_pow2 zero_less_numeral zero_less_power)

lemma slots_ok_nth: "slots_ok hn x \<Longrightarrow> i < length (slots x) \<Longrightarrow> slot_ok x (slots x ! i)"
  by (simp add: slots_ok_def list_all_length)

lemma slots_ok_home:
  assumes "slots_ok hn x"
  shows "unat (hn b) AND imask x = pos (length (slots x)) (home hn b) 0"
  using slots_ok_pow2 [OF assms] by (metis home_def pos_mask)

lemma slots_ok_next:
  assumes "slots_ok hn x"
  shows "(pos (length (slots x)) h d + 1) AND imask x = pos (length (slots x)) h (Suc d)"
  using slots_ok_pow2 [OF assms] by (metis pos_Suc_mask)

lemma domains_nonempty: "slots_ok hn x \<Longrightarrow> b \<in> domains x \<Longrightarrow> b \<noteq> []"
proof -
  assume ok: "slots_ok hn x" and "b \<in> domains x"
  then obtain i where i: "i < length (slots x)" "cell_at x (slots x ! i) = Live b"
    by (auto simp: domains_def cell_keys_def in_set_conv_nth)
  have so: "slot_ok x (slots x ! i)" by (rule slots_ok_nth [OF ok i(1)])
  have "snd (slots x ! i) \<noteq> 0" "name_at x (slots x ! i) = Some b"
    using i(2) cell_at_Live [OF so, of b] by simp_all
  moreover have "length b = unat (snd (slots x ! i))"
    using name_at_Some [OF so] calculation(2) by simp
  ultimately show "b \<noteq> []" by (metis list.size(3) unsigned_0 unsigned_word_eqI)
qed

subsection \<open>Probing\<close>

lemma find_loop_at:
  assumes ok: "slots_ok hn x"
  shows "\<forall>e. s \<le> e \<and> e < s + k \<longrightarrow>
      cells x ! pos (length (slots x)) h e \<noteq> Free \<and> cells x ! pos (length (slots x)) h e \<noteq> Live b \<Longrightarrow>
    cells x ! pos (length (slots x)) h (s + k) = (if found then Live b else Free) \<Longrightarrow> k < fuel \<Longrightarrow>
    find_loop x b fuel (pos (length (slots x)) h s) =
      Some (if found then Some (pos (length (slots x)) h (s + k)) else None)"
proof (induction k arbitrary: s fuel)
  case 0
  let ?p = "pos (length (slots x)) h s"
  have p: "?p < length (slots x)" using slots_ok_pos [OF ok] by simp
  note so = slots_ok_nth [OF ok p]
  show ?case
    using 0 p cell_at_Live [OF so, of b] by (cases fuel) (auto simp: get_def split: if_splits)
next
  case (Suc k)
  let ?p = "pos (length (slots x)) h s"
  have p: "?p < length (slots x)" using slots_ok_pos [OF ok] by simp
  note so = slots_ok_nth [OF ok p]
  obtain nm where nm: "name_at x (slots x ! ?p) = Some nm" using name_at_Some [OF so] by blast
  have "cells x ! ?p \<noteq> Free" "cells x ! ?p \<noteq> Live b" using Suc.prems(1) by auto
  then have ne: "snd (slots x ! ?p) \<noteq> 0" "nm \<noteq> b"
    using p nm cell_at_Live [OF so, of b] by auto
  obtain f where f: "fuel = Suc f" "k < f" using Suc.prems(3) by (cases fuel) auto
  have "find_loop x b f (pos (length (slots x)) h (Suc s)) =
      Some (if found then Some (pos (length (slots x)) h (Suc s + k)) else None)"
    using Suc.prems f by (intro Suc.IH) auto
  then show ?case
    using p nm ne f by (simp add: get_def slots_ok_next [OF ok, simplified])
qed

lemma find_index_eq:
  assumes ok: "slots_ok hn x"
  shows "\<exists>r. find_index hn x b = Some r \<and> (r \<noteq> None \<longleftrightarrow> b \<in> domains x)"
proof (cases "b = []")
  case False
  let ?n = "length (slots x)"
  have "table_ok (home hn) (cells x)" using ok by (simp add: slots_ok_def)
  from search_stops [OF this, of b] obtain d where d: "d < ?n"
    "\<forall>e<d. cells x ! pos ?n (home hn b) e \<noteq> Free \<and> cells x ! pos ?n (home hn b) e \<noteq> Live b"
    "cells x ! pos ?n (home hn b) d = (if b \<in> domains x then Live b else Free)"
    by (auto simp: domains_def)
  have "find_loop x b ?n (pos ?n (home hn b) 0) =
      Some (if b \<in> domains x then Some (pos ?n (home hn b) (0 + d)) else None)"
    using d by (intro find_loop_at [OF ok]) auto
  then show ?thesis
    using False by (simp add: find_index_def slots_ok_home [OF ok])
qed (use domains_nonempty [OF ok] in \<open>auto simp: find_index_def\<close>)

lemma contains_bytes_eq: "slots_ok hn x \<Longrightarrow> contains_bytes hn x b = Some (b \<in> domains x)"
  using find_index_eq [of hn x b] by (auto simp: contains_bytes_def)

lemma free_loop_at:
  assumes ok: "slots_ok hn x"
  shows "\<forall>e. s \<le> e \<and> e < s + k \<longrightarrow> cells x ! pos (length (slots x)) h e \<noteq> Free \<Longrightarrow>
    cells x ! pos (length (slots x)) h (s + k) = Free \<Longrightarrow> k < fuel \<Longrightarrow>
    free_loop (slots x) (imask x) fuel (pos (length (slots x)) h s) =
      Some (pos (length (slots x)) h (s + k))"
proof (induction k arbitrary: s fuel)
  case 0
  then show ?case
    using slots_ok_pos [OF ok] by (cases fuel) (auto simp: get_def)
next
  case (Suc k)
  have "cells x ! pos (length (slots x)) h s \<noteq> Free" using Suc.prems(1) by auto
  moreover obtain f where f: "fuel = Suc f" "k < f" using Suc.prems(3) by (cases fuel) auto
  moreover have "free_loop (slots x) (imask x) f (pos (length (slots x)) h (Suc s)) =
      Some (pos (length (slots x)) h (Suc s + k))"
    using Suc.prems f by (intro Suc.IH) auto
  ultimately show ?case
    using slots_ok_pos [OF ok] by (simp add: get_def slots_ok_next [OF ok, simplified])
qed

text \<open>Writing a slot for a new name where the insertion loop stops.\<close>

lemma place_slot:
  assumes ok: "slots_ok hn x" and new: "b \<notin> domains x"
    and s: "slot_ok x s" "snd s \<noteq> 0" "name_at x s = Some b"
    and room: "used (cells x) + 1 < length (slots x)"
  shows "\<exists>i. free_loop (slots x) (imask x) (length (slots x)) (unat (hn b) AND imask x) = Some i \<and>
    slots_ok hn (x\<lparr>slots := (slots x)[i := s]\<rparr>) \<and>
    domains (x\<lparr>slots := (slots x)[i := s]\<rparr>) = insert b (domains x) \<and>
    used (cells (x\<lparr>slots := (slots x)[i := s]\<rparr>)) = used (cells x) + 1"
proof -
  let ?n = "length (slots x)" and ?h = "home hn b"
  have tab: "table_ok (home hn) (cells x)" using ok by (simp add: slots_ok_def)
  from search_stops [OF this, of b] new obtain d where d: "d < ?n"
    "\<forall>e<d. cells x ! pos ?n ?h e \<noteq> Free" "cells x ! pos ?n ?h d = Free"
    by (auto simp: domains_def)
  define i where "i = pos ?n ?h d"
  let ?x = "x\<lparr>slots := (slots x)[i := s]\<rparr>"
  have i: "i < ?n" using slots_ok_pos [OF ok] by (simp add: i_def)
  have loop: "free_loop (slots x) (imask x) ?n (unat (hn b) AND imask x) = Some i"
    using free_loop_at [OF ok, of 0 d ?h ?n] d by (simp add: slots_ok_home [OF ok] i_def)
  have "cell_at x s = Live b" using s by (simp add: cell_at_Live)
  then have cells: "cells ?x = (cells x)[i := Live b]"
    using cell_at_cong [of ?x x] by (simp add: cells_def map_update)
  have free: "cells x ! i = Free" using d(3) unfolding i_def .
  have used: "used (cells ?x) = used (cells x) + 1"
    using used_update [of i "cells x" "Live b"] i free unfolding cells by simp
  have room': "Free \<in> set ((cells x)[i := Live b])"
    using Free_exists [of "cells ?x"] used room unfolding cells by simp
  have b: "b \<notin> cell_keys (cells x)" using new by (simp add: domains_def)
  have before: "\<forall>e<d. cells x ! pos (length (cells x)) ?h e \<noteq> Free"
    and at: "i = pos (length (cells x)) ?h d" using d(2) by (simp_all only: i_def length_cells)
  note ins = table_ok_insert [OF tab b before at _ room']
  have "table_ok (home hn) (cells ?x)" "domains ?x = insert b (domains x)"
    unfolding domains_def cells using ins free by simp_all
  moreover have "list_all (slot_ok ?x) (slots ?x)"
    using ok s(1) slot_ok_cong [of ?x x] set_update_subset_insert [of "slots x" i s]
    by (auto simp: slots_ok_def list_all_iff)
  ultimately show ?thesis
    using loop used ok by (intro exI [of _ i]) (simp add: slots_ok_def)
qed

lemma length_place [simp]: "length (slots (x\<lparr>slots := (slots x)[i := s]\<rparr>)) = length (slots x)"
  by simp

subsection \<open>Growing and inserting\<close>

lemma grow_fold:
  assumes "slots_ok hn y" "arena y = arena x" "list_all (slot_ok x) ss"
    "distinct (key_list (map (cell_at x) ss))" "cell_keys (map (cell_at x) ss) \<inter> domains y = {}"
    "used (cells y) + live (map (cell_at x) ss) < length (slots y)"
  shows "\<exists>y'. foldM (grow_slot hn) ss y = Some y' \<and> slots_ok hn y' \<and> arena y' = arena y \<and>
    ilen y' = ilen y \<and> length (slots y') = length (slots y) \<and>
    domains y' = domains y \<union> cell_keys (map (cell_at x) ss) \<and>
    used (cells y') = used (cells y) + live (map (cell_at x) ss)"
  using assms
proof (induction ss arbitrary: y)
  case Nil
  then show ?case by (simp add: cell_keys_def live_def)
next
  case (Cons s ss)
  have so: "slot_ok y s" and ar: "cell_at y = cell_at x"
    using Cons.prems(3) slot_ok_cong [OF Cons.prems(2)] cell_at_cong [OF Cons.prems(2)] by simp_all
  show ?case
  proof (cases "snd s = 0")
    case True
    then have c: "cell_at x s = Free" by simp
    have "grow_slot hn s y = Some y" using True by (simp add: grow_slot_def)
    then show ?thesis
      using Cons.IH [of y] Cons.prems by (simp add: c)
  next
    case False
    obtain b where b: "name_at y s = Some b" using name_at_Some [OF so] by blast
    then have c: "cell_at x s = Live b" using False so ar by (metis cell_at_Live)
    have new: "b \<notin> domains y" and room: "used (cells y) + 1 < length (slots y)"
      using Cons.prems(5, 6) by (auto simp: c)
    from place_slot [OF Cons.prems(1) new so False b room] obtain i where
      i: "free_loop (slots y) (imask y) (length (slots y)) (unat (hn b) AND imask y) = Some i"
      and z: "slots_ok hn (y\<lparr>slots := (slots y)[i := s]\<rparr>)"
        "domains (y\<lparr>slots := (slots y)[i := s]\<rparr>) = insert b (domains y)"
        "used (cells (y\<lparr>slots := (slots y)[i := s]\<rparr>)) = used (cells y) + 1" by blast
    have step: "grow_slot hn s y = Some (y\<lparr>slots := (slots y)[i := s]\<rparr>)"
      using False b i by (simp add: grow_slot_def)
    have "b \<notin> cell_keys (map (cell_at x) ss)" "distinct (key_list (map (cell_at x) ss))"
      using Cons.prems(4) by (simp_all add: c)
    then show ?thesis
      using Cons.IH [of "y\<lparr>slots := (slots y)[i := s]\<rparr>"] Cons.prems z step by (simp add: c)
  qed
qed

lemma used_eq_live: "used (cells x) = live (cells x)"
proof -
  have "dead (cells x) = 0"
    by (auto simp: dead_def cells_def filter_empty_conv)
  then show ?thesis by (simp add: used_split)
qed

lemma cells_cleared:
  "cells (x\<lparr>slots := replicate n EMPTY_SLOT, imask := m\<rparr>) = replicate n Free"
  by (simp add: cells_def cell_at_def)

lemma grow_ok:
  assumes ok: "slots_ok hn x" and room: "used (cells x) < length (slots x)"
  shows "\<exists>y. grow hn x = Some y \<and> slots_ok hn y \<and> arena y = arena x \<and> ilen y = ilen x \<and>
    length (slots y) = 2 * length (slots x) \<and> domains y = domains x \<and> used (cells y) = used (cells x)"
proof -
  obtain B where B: "length (slots x) = 2 ^ B" using slots_ok_pow2 [OF ok] by blast
  define z where "z = x\<lparr>slots := replicate (length (slots x) * 2) EMPTY_SLOT,
                          imask := length (slots x) * 2 - 1\<rparr>"
  have cz: "cells z = replicate (2 ^ Suc B) Free" unfolding z_def cells_cleared B by simp
  have z: "arena z = arena x" "ilen z = ilen x" "length (slots z) = 2 * length (slots x)"
    "imask z = length (slots z) - 1" "domains z = {}" "used (cells z) = 0"
    unfolding domains_def cz by (simp_all add: z_def table_ok_replicate)
  have "slot_ok z EMPTY_SLOT" by (simp add: slot_ok_def)
  then have "slots_ok hn z"
    using z table_ok_replicate(1) [of "home hn" "Suc B"] unfolding slots_ok_def cz
    by (simp add: z_def list_all_iff)
  moreover have "distinct (key_list (map (cell_at x) (slots x)))"
    using ok distinct_key_list unfolding slots_ok_def table_ok_def cells_def by blast
  ultimately show ?thesis
    using grow_fold [of hn z x "slots x"] z ok room slots_ok_pos [OF ok] used_eq_live [of x]
    unfolding grow_def Let_def
    by (auto simp: slots_ok_def domains_def cells_def z_def)
qed

lemma cells_arena_append:
  assumes "list_all (slot_ok x) (slots x)"
  shows "cells (x\<lparr>arena := arena x @ b\<rparr>) = cells x"
    and "list_all (slot_ok (x\<lparr>arena := arena x @ b\<rparr>)) (slots x)"
proof -
  have "name_at (x\<lparr>arena := arena x @ b\<rparr>) s = name_at x s" if "slot_ok x s" for s
    using that by (simp add: name_at_def slot_ok_def get_range_def)
  then show "cells (x\<lparr>arena := arena x @ b\<rparr>) = cells x"
    using assms by (auto simp: cells_def cell_at_def list_all_iff)
  show "list_all (slot_ok (x\<lparr>arena := arena x @ b\<rparr>)) (slots x)"
    using assms by (auto simp: list_all_iff slot_ok_def)
qed

lemma with_room:
  assumes "index_ok hn x"
  shows "\<exists>y. (if (ilen x + 1) * 4 \<ge> length (slots x) * 3 then grow hn x else Some x) = Some y \<and>
    slots_ok hn y \<and> arena y = arena x \<and> ilen y = ilen x \<and> 16 \<le> length (slots y) \<and> domains y = domains x \<and>
    used (cells y) = ilen x \<and> (ilen x + 1) * 4 < length (slots y) * 3"
  using assms grow_ok [of hn x] by (fastforce simp: index_ok_def)

lemma insert_normalized_ok:
  assumes ok: "index_ok hn x" and small: "text_size (insert b (domains x)) < 2 ^ 32"
  shows "\<exists>x'. insert_normalized hn b x = Some x' \<and> index_ok hn x' \<and>
    domains x' = domains x \<union> ({b} - {[]})"
proof -
  have sok: "slots_ok hn x" using ok by (simp add: index_ok_def)
  obtain r where r: "find_index hn x b = Some r" "r \<noteq> None \<longleftrightarrow> b \<in> domains x"
    using find_index_eq [OF sok] by blast
  consider "b = []" | "b \<noteq> []" "r \<noteq> None" | "b \<noteq> []" "r = None" by blast
  then show ?thesis
  proof cases
    case 3
    have fits: "length (arena x) + length b < 2 ^ 32"
      using 3 r small ok by (simp add: index_ok_def)
    obtain y where grow: "(if (ilen x + 1) * 4 \<ge> length (slots x) * 3 then grow hn x else Some x) = Some y"
      and y: "slots_ok hn y" "arena y = arena x" "ilen y = ilen x" "16 \<le> length (slots y)"
        "domains y = domains x" "used (cells y) = ilen x" "(ilen x + 1) * 4 < length (slots y) * 3"
      using with_room [OF ok] by blast
    define s :: "u32 \<times> u32" where "s = (of_nat (length (arena x)), of_nat (length b))"
    define z where "z = y\<lparr>arena := arena y @ b\<rparr>"
    have us: "unat (fst s) = length (arena x)" "unat (snd s) = length b"
      using fits by (simp_all add: s_def unat_of_nat)
    have s: "slot_ok z s" "snd s \<noteq> 0" "name_at z s = Some b"
      using us y(2) 3 by (auto simp: slot_ok_def name_at_def z_def get_range_def)
    have lz: "list_all (slot_ok y) (slots y)" using y(1) by (simp add: slots_ok_def)
    have cz: "cells z = cells y" "slots z = slots y" "imask z = imask y" "ilen z = ilen x"
      using cells_arena_append(1) [OF lz] y(3) by (simp_all add: z_def)
    have zok: "slots_ok hn z"
      using y(1) cz cells_arena_append(2) [OF lz, of b] by (simp add: slots_ok_def z_def)
    have new: "b \<notin> domains z" and room: "used (cells z) + 1 < length (slots z)"
      using r 3 y by (auto simp: domains_def cz)
    from place_slot [OF zok new s room] obtain i where
      i: "free_loop (slots z) (imask z) (length (slots z)) (unat (hn b) AND imask z) = Some i"
      and p: "slots_ok hn (z\<lparr>slots := (slots z)[i := s]\<rparr>)"
        "domains (z\<lparr>slots := (slots z)[i := s]\<rparr>) = insert b (domains z)"
        "used (cells (z\<lparr>slots := (slots z)[i := s]\<rparr>)) = used (cells z) + 1" by blast
    define x' where "x' = z\<lparr>slots := (slots z)[i := s], ilen := ilen z + 1\<rparr>"
    have cx: "cells x' = cells (z\<lparr>slots := (slots z)[i := s]\<rparr>)"
      by (simp add: x'_def cells_def cell_at_def name_at_def)
    have sx: "slots_ok hn x'"
      using p(1) unfolding slots_ok_def cx by (simp add: x'_def slot_ok_def list_all_iff)
    have "insert_normalized hn b x = Some x'"
      using 3 r grow i y cz by (simp add: insert_normalized_def Let_def x'_def z_def s_def)
    moreover have dx: "domains x' = insert b (domains x)"
      using p(2) y(5) unfolding domains_def cx by (simp add: cz)
    moreover have "length (arena x') = text_size (domains x')"
      unfolding dx using 3 r ok y(2) by (simp add: index_ok_def x'_def z_def)
    then have "index_ok hn x'"
      using sx p(3) y cz unfolding index_ok_def cx by (simp add: x'_def)
    ultimately show ?thesis using 3 by auto
  qed (use ok r in \<open>auto simp: insert_normalized_def\<close>)
qed

subsection \<open>An empty index, and the names of an index\<close>

lemma next_pow2_pow2: "\<exists>b. next_pow2 n = 2 ^ b"
proof (induction n rule: next_pow2.induct)
  case (1 n)
  then show ?case
    by (subst next_pow2.simps) (metis power_0 power_Suc)
qed

lemma with_capacity_ok: "index_ok hn (with_capacity e)" "domains (with_capacity e) = {}"
proof -
  define n where "n = max (next_power_of_two (min (e * 2) (2 ^ 64 - 1))) 16"
  obtain c where "next_power_of_two (min (e * 2) (2 ^ 64 - 1)) \<in> {0, 2 ^ c}"
    using next_pow2_pow2 [of "min (e * 2) (2 ^ 64 - 1)"]
    unfolding next_power_of_two_def by (metis insert_iff)
  moreover have "(16 :: nat) = 2 ^ 4" by simp
  ultimately obtain b where b: "n = 2 ^ b"
    unfolding n_def max_def by (metis insertE less_eq_nat.simps(1) singletonD)
  have c: "cells (with_capacity e) = replicate n Free"
    by (simp add: cells_def cell_at_def with_capacity_def Let_def n_def)
  show "domains (with_capacity e) = {}"
    by (simp add: domains_def c table_ok_replicate)
  moreover have "slots (with_capacity e) = replicate n EMPTY_SLOT" "imask (with_capacity e) = n - 1"
    "ilen (with_capacity e) = 0" "arena (with_capacity e) = []" "16 \<le> n"
    by (simp_all add: with_capacity_def Let_def n_def)
  ultimately show "index_ok hn (with_capacity e)"
    using table_ok_replicate(1) [of "home hn" b] unfolding index_ok_def slots_ok_def c b
    by (simp add: table_ok_replicate slot_ok_def list_all_iff text_size_def)
qed

lemma index_names_eq: "slots_ok hn x \<Longrightarrow> index_names x = Some (key_list (cells x))"
proof -
  have "list_all (slot_ok x) ss \<Longrightarrow>
    those (map (name_at x) (filter (\<lambda>s. snd s \<noteq> 0) ss)) = Some (key_list (map (cell_at x) ss))" for ss
  proof (induction ss)
    case (Cons s ss)
    then obtain b where "name_at x s = Some b" using name_at_Some [of x s] by auto
    then show ?case using Cons by (simp add: cell_at_def)
  qed simp
  then show "slots_ok hn x \<Longrightarrow> index_names x = Some (key_list (cells x))"
    by (simp add: index_names_def cells_def slots_ok_def)
qed

subsection \<open>The index as a set of names\<close>

text \<open>
  What the users of an index rely on. The bound on the text of the set is the capacity of the
  \<open>u32\<close> offsets into the arena.
\<close>

locale name_set =
  fixes inv :: "'s \<Rightarrow> bool" and dom_of :: "'s \<Rightarrow> bytes set"
    and ins :: "bytes \<Rightarrow> 's \<Rightarrow> 's option" and mem :: "'s \<Rightarrow> bytes \<Rightarrow> bool option"
    and names :: "'s \<Rightarrow> bytes list option"
  assumes ins_ok: "inv s \<Longrightarrow> text_size (insert b (dom_of s)) < 2 ^ 32 \<Longrightarrow>
      \<exists>s'. ins b s = Some s' \<and> inv s' \<and> dom_of s' = dom_of s \<union> ({b} - {[]})"
    and mem_ok: "inv s \<Longrightarrow> mem s b = Some (b \<in> dom_of s)"
    and names_ok: "inv s \<Longrightarrow> \<exists>ns. names s = Some ns \<and> set ns = dom_of s"
    and finite_dom: "finite (dom_of s)"
begin

lemma foldM_ins:
  "inv s \<Longrightarrow> text_size (dom_of s \<union> set bs) < 2 ^ 32 \<Longrightarrow>
     \<exists>s'. foldM ins bs s = Some s' \<and> inv s' \<and> dom_of s' = dom_of s \<union> (set bs - {[]})"
proof (induction bs arbitrary: s)
  case (Cons b bs)
  have "text_size (insert b (dom_of s)) \<le> text_size (dom_of s \<union> set (b # bs))"
    using finite_dom by (intro text_size_mono) auto
  then obtain s' where s': "ins b s = Some s'" "inv s'" "dom_of s' = dom_of s \<union> ({b} - {[]})"
    using ins_ok [of s b] Cons.prems by auto
  have "text_size (dom_of s' \<union> set bs) \<le> text_size (dom_of s \<union> set (b # bs))"
    using finite_dom s'(3) by (intro text_size_mono) auto
  then obtain s'' where "foldM ins bs s' = Some s''" "inv s''" "dom_of s'' = dom_of s' \<union> (set bs - {[]})"
    using Cons.IH [of s'] Cons.prems s' by auto
  then show ?case using s' by auto
qed simp

lemma foldM_ins_unless:
  assumes "\<And>b. ex b = Some (b \<in> E)"
  shows "foldM (\<lambda>b out. do { e \<leftarrow> ex b; if e then Some out else ins b out }) bs s =
    foldM ins (filter (\<lambda>b. b \<notin> E) bs) s"
proof (induction bs arbitrary: s)
  case (Cons b bs)
  then show ?case by (cases "ins b s") (simp_all add: assms)
qed simp

lemma foldM_names:
  assumes "list_all inv ss"
  shows "foldM (\<lambda>source out. do { ns \<leftarrow> names source; foldM f ns out }) ss s =
    foldM f (concat (map (the \<circ> names) ss)) s"
    and "set (concat (map (the \<circ> names) ss)) = (\<Union>x\<in>set ss. dom_of x)"
proof -
  have some: "\<forall>x\<in>set ss. \<exists>ns. names x = Some ns \<and> set ns = dom_of x"
    using assms names_ok by (auto simp: list_all_iff)
  then show "set (concat (map (the \<circ> names) ss)) = (\<Union>x\<in>set ss. dom_of x)" by force
  from some show "foldM (\<lambda>source out. do { ns \<leftarrow> names source; foldM f ns out }) ss s =
      foldM f (concat (map (the \<circ> names) ss)) s"
  proof (induction ss arbitrary: s)
    case (Cons x ss)
    then obtain ns where "names x = Some ns" by auto
    with Cons show ?case by (cases "foldM f ns s") (simp_all add: foldM_append)
  qed simp
qed

end

interpretation index: name_set "index_ok hn" domains "insert_normalized hn" "contains_bytes hn" index_names
  for hn
proof
  show "index_ok hn s \<Longrightarrow> \<exists>ns. index_names s = Some ns \<and> set ns = domains s" for s
    by (metis index_names_eq index_ok_def set_key_list domains_def)
  show "index_ok hn s \<Longrightarrow> contains_bytes hn s b = Some (b \<in> domains s)" for s b
    by (simp add: index_ok_def contains_bytes_eq)
qed (simp_all add: insert_normalized_ok)

subsection \<open>Unions and differences\<close>

definition exclude_set :: "domain_index option \<Rightarrow> bytes set" where
  "exclude_set e = (case e of None \<Rightarrow> {} | Some x \<Rightarrow> domains x)"

lemma merged_with_capacity_ok:
  assumes src: "list_all (index_ok hn) sources" and ex: "\<forall>e. exclude = Some e \<longrightarrow> index_ok hn e"
    and small: "text_size ((set inline \<union> (\<Union>x\<in>set sources. domains x)) - exclude_set exclude) < 2 ^ 32"
  shows "\<exists>x. merged_with_capacity hn n inline sources exclude = Some x \<and> index_ok hn x \<and>
    domains x = (set inline \<union> (\<Union>x\<in>set sources. domains x)) - exclude_set exclude - {[]}"
proof -
  let ?E = "exclude_set exclude"
  define bs where "bs = filter (\<lambda>b. b \<notin> ?E) (inline @ concat (map (the \<circ> index_names) sources))"
  have "(case exclude of None \<Rightarrow> Some False | Some e \<Rightarrow> contains_bytes hn e b) = Some (b \<in> ?E)" for b
    using ex by (auto simp: exclude_set_def index_ok_def contains_bytes_eq split: option.split)
  note unless = index.foldM_ins_unless [of _ ?E, OF this]
  have m: "merged_with_capacity hn n inline sources exclude = foldM (insert_normalized hn) bs (with_capacity n)"
    unfolding merged_with_capacity_def Let_def index.foldM_names(1) [OF src]
    unfolding unless bs_def filter_append foldM_append ..
  have "set bs = (set inline \<union> (\<Union>x\<in>set sources. domains x)) - ?E"
    using index.foldM_names(2) [OF src] by (auto simp: bs_def)
  then show ?thesis
    using index.foldM_ins [of hn "with_capacity n" bs] small unfolding m
    by (simp add: with_capacity_ok)
qed

subsection \<open>Parsed lists\<close>

text \<open>
  The reference reading of a list: the words of a line that stand for domains, and the name a
  word stands for.
\<close>

definition line_words :: "bytes \<Rightarrow> bytes list" where
  "line_words raw =
     (let line = trim raw
      in if line = [] \<or> hd line = 35 \<or> hd line = 33 then []
         else case adblock_network_rule_domain line of
                Some domain \<Rightarrow> [domain]
              | None \<Rightarrow> (if parse_ip (hd (split_whitespace line)) \<noteq> None then tl (split_whitespace line)
                         else split_whitespace line))"

definition listed_name :: "bytes \<Rightarrow> bool" where
  "listed_name w \<longleftrightarrow> looks_like_domain w \<and> length (normalize_name w) \<le> 255 \<and>
     normalize_name w \<notin> set EXCLUDED_HOSTNAMES"

lemma looks_like_domain_normalize:
  assumes "looks_like_domain w"
  obtains t where "normalize_name w = t @ [46]" "46 \<in> set t" "hd t \<noteq> 46" "last t \<noteq> 46" "t \<noteq> []"
    "\<forall>b\<in>set t. b = 45 \<or> b = 46 \<or> b = 95 \<or> is_ascii_alphanumeric b" "map ascii_lower t = t"
    "length t \<le> length w"
proof -
  define u where "u = trim_start_dots (trim_end_dots w)"
  have w: "u \<noteq> []" "46 \<in> set u"
    "\<forall>b\<in>set w. is_ascii_alphanumeric b \<or> b = 45 \<or> b = 46 \<or> b = 95"
    using assms by (auto simp: looks_like_domain_def Let_def u_def list_all_iff)
  have "plain w"
    unfolding plain_def
  proof
    fix b assume "b \<in> set w"
    with w(3) have "is_ascii_alphanumeric b \<or> b = 45 \<or> b = 46 \<or> b = 95" by blast
    then show "32 < b \<and> b < 128"
      by (auto simp: is_ascii_alphanumeric_def word_le_nat_alt word_less_nat_alt)
  qed
  then have n: "normalize_name w = map ascii_lower u @ [46]"
    using w(1) by (simp add: normalize_name_def Let_def u_def)
  have sub: "set u \<subseteq> set w"
    unfolding u_def trim_start_dots_def trim_end_dots_def
    by (metis (no_types, lifting) set_dropWhileD set_rev subsetI)
  have len: "length u \<le> length w"
    unfolding u_def trim_start_dots_def trim_end_dots_def
    by (metis (no_types, lifting) length_dropWhile_le length_rev order_trans)
  have low: "is_ascii_alphanumeric (ascii_lower b)" if "is_ascii_alphanumeric b" for b
    using that ascii_lower_range [of b] unfolding is_ascii_alphanumeric_def ascii_lower_def
    by (auto simp: word_le_nat_alt)
  have keep: "ascii_lower b = b" if "b = 45 \<or> b = 46 \<or> b = 95" for b
    using that by (auto simp: ascii_lower_def)
  have "\<forall>b\<in>set (map ascii_lower u). b = 45 \<or> b = 46 \<or> b = 95 \<or> is_ascii_alphanumeric b"
    using w(3) sub low keep by fastforce
  moreover have "46 \<in> set (map ascii_lower u)"
    using w(2) keep by force
  moreover have "hd (map ascii_lower u) \<noteq> 46" "last (map ascii_lower u) \<noteq> 46"
    using w(1) trim_dots_ends [of w] by (simp_all add: u_def hd_map last_map)
  ultimately show ?thesis
    using that [OF n] w(1) len by simp
qed

lemma insert_if_valid_eq:
  "insert_if_valid hn w x =
     (if listed_name w then insert_normalized hn (normalize_name w) x else Some x)"
proof (cases "looks_like_domain w")
  case True
  then obtain t where "normalize_name w = t @ [46]" "t \<noteq> []"
    by (rule looks_like_domain_normalize)
  then have "normalize_name w \<noteq> [46]" by simp
  then show ?thesis
    using True by (auto simp: insert_if_valid_def listed_name_def normalize_into_eq)
qed (simp add: insert_if_valid_def listed_name_def)

lemma foldM_insert_if_valid:
  "foldM (insert_if_valid hn) ws x =
     foldM (insert_normalized hn) (map normalize_name (filter listed_name ws)) x"
proof (induction ws arbitrary: x)
  case (Cons w ws)
  then show ?case
    by (cases "insert_normalized hn (normalize_name w) x") (simp_all add: insert_if_valid_eq)
qed simp

lemma split_whitespace_Nil: "split_whitespace line = [] \<Longrightarrow> foldM f (tl (split_whitespace line)) x = Some x"
  by simp

lemma parse_line_eq: "parse_line hn l x = foldM (insert_if_valid hn) (line_words l) x"
proof -
  have single: "insert_if_valid hn d x = foldM (insert_if_valid hn) [d] x" for d
    by (cases "insert_if_valid hn d x") simp_all
  show ?thesis
    unfolding parse_line_def line_words_def Let_def single
    by (auto split: option.split list.split)
qed

lemma parse_list_eq:
  "parse_list hn body = foldM (insert_normalized hn)
     (map normalize_name (filter listed_name (concat (map line_words (lines body)))))
     (with_capacity (length body div 24))"
proof -
  have "foldM (parse_line hn) ls x =
    foldM (insert_normalized hn) (map normalize_name (filter listed_name (concat (map line_words ls)))) x"
    for ls x
  proof (induction ls arbitrary: x)
    case (Cons l ls)
    then show ?case
      by (cases "foldM (insert_if_valid hn) (line_words l) x")
        (simp_all add: foldM_append parse_line_eq flip: foldM_insert_if_valid)
  qed simp
  then show ?thesis by (simp add: parse_list_def)
qed

subsection \<open>The size of a parsed list\<close>

definition wsize :: "bytes list \<Rightarrow> nat" where
  "wsize ws = (\<Sum>w\<leftarrow>ws. length w + 1)"

lemma wsize_simps [simp]:
  "wsize [] = 0" "wsize (w # ws) = length w + 1 + wsize ws" "wsize (vs @ ws) = wsize vs + wsize ws"
  by (simp_all add: wsize_def)

lemma wsize_filter: "wsize (filter P ws) \<le> wsize ws"
  by (induction ws) auto

lemma wsize_tl: "wsize (tl ws) \<le> wsize ws"
  by (cases ws) auto

lemma length_strip_any: "length (strip_any ws s) \<le> length s"
proof (induction ws s rule: strip_any.induct)
  case (1 ws s)
  show ?case
  proof (cases "prefix_of ws s")
    case (Some w)
    then have "length (strip_any ws (drop (length w) s)) \<le> length (drop (length w) s)"
      by (rule 1)
    then show ?thesis using Some by (subst strip_any.simps) simp
  qed (simp add: strip_any.simps)
qed

lemma length_trim: "length (trim s) \<le> length s"
  unfolding trim_def
  by (metis (no_types, lifting) length_rev length_strip_any order_trans)

lemma wsize_split_ws: "wsize (split_ws cur s) \<le> length cur + length s + 1"
proof (induction cur s rule: split_ws.induct)
  case (1 cur s)
  show ?case
  proof (cases s)
    case (Cons b r)
    show ?thesis
    proof (cases "prefix_of whitespace s")
      case None
      then have "wsize (split_ws (cur @ [b]) r) \<le> length (cur @ [b]) + length r + 1"
        using 1(1) Cons by blast
      then show ?thesis using None Cons by (subst split_ws.simps) simp
    next
      case (Some w)
      have "wsize (split_ws [] (drop (length w) s)) \<le> 0 + length (drop (length w) s) + 1"
        using 1(2) [OF Cons] Some Cons by simp
      moreover have "w \<noteq> []" using prefix_of_SomeD [OF Some] by blast
      moreover have "length w \<le> length s"
        using prefix_of_SomeD [OF Some] by (metis length_append le_add1)
      ultimately have "wsize (split_ws [] (drop (length w) s)) \<le> length s"
        by (cases w) auto
      then show ?thesis using Some Cons by (subst split_ws.simps) simp
    qed
  qed (simp add: split_ws.simps)
qed

lemma wsize_lines: "wsize (lines s) \<le> length s + 1"
proof -
  have "wsize (split_lines cur s) \<le> length cur + length s + 1" for cur
    by (induction cur s rule: split_lines.induct) auto
  then show ?thesis by (metis add_0 lines_def list.size(3))
qed

lemma adblock_length: "adblock_network_rule_domain line = Some d \<Longrightarrow> length d + 1 \<le> length line"
proof -
  assume "adblock_network_rule_domain line = Some d"
  then have "d = takeWhile (\<lambda>b. b \<noteq> 94) (drop 2 line)" "d \<noteq> drop 2 line" "take 2 line = [124, 124]"
    unfolding adblock_network_rule_domain_def Let_def by (auto split: if_splits)
  moreover from this(3) have "2 \<le> length line"
    by (metis length_Cons list.size(3) length_take min.absorb_iff2 numeral_2_eq_2)
  moreover have "length (takeWhile (\<lambda>b. b \<noteq> 94) (drop 2 line)) \<le> length (drop 2 line)"
    by (rule length_takeWhile_le)
  ultimately show ?thesis by simp
qed

lemma wsize_line_words: "wsize (line_words l) \<le> length l + 1"
proof -
  have "wsize (split_whitespace (trim l)) \<le> length l + 1"
    unfolding split_whitespace_def
    using wsize_filter [of "\<lambda>t. t \<noteq> []" "split_ws [] (trim l)"] wsize_split_ws [of "[]" "trim l"]
      length_trim [of l] by simp
  moreover have "length d + 1 \<le> length l" if "adblock_network_rule_domain (trim l) = Some d" for d
    using adblock_length [OF that] length_trim [of l] by linarith
  ultimately show ?thesis
    unfolding line_words_def Let_def
    by (auto split: option.split intro: order_trans [OF wsize_tl])
qed

lemma text_size_le_wsize: "(\<And>w. w \<in> set ws \<Longrightarrow> length (f w) \<le> length w + 1) \<Longrightarrow>
  text_size (f ` set ws) \<le> wsize ws"
proof (induction ws)
  case (Cons w ws)
  have "text_size (f ` set ws) \<le> wsize ws" "length (f w) \<le> length w + 1"
    using Cons.IH Cons.prems by auto
  then show ?case
    by (cases "f w \<in> f ` set ws") (simp_all add: insert_absorb)
qed (simp add: text_size_def)

lemma parsed_text_size:
  "text_size (normalize_name ` set (filter listed_name (concat (map line_words (lines body)))))
    \<le> length body + 1"
proof -
  let ?ws = "concat (map line_words (lines body))"
  have "length (normalize_name w) \<le> length w + 1" if "listed_name w" for w
    using that looks_like_domain_normalize [of w] unfolding listed_name_def
    by (metis add_le_mono1 length_append_singleton Suc_eq_plus1)
  then have "text_size (normalize_name ` set (filter listed_name ?ws)) \<le> wsize (filter listed_name ?ws)"
    by (intro text_size_le_wsize) auto
  also have "\<dots> \<le> wsize ?ws" by (rule wsize_filter)
  also have "\<dots> \<le> wsize (lines body)"
  proof -
    have "wsize (concat (map line_words ls)) \<le> wsize ls" for ls
    proof (induction ls)
      case (Cons l ls)
      then show ?case using wsize_line_words [of l] by simp
    qed simp
    then show ?thesis .
  qed
  also have "\<dots> \<le> length body + 1" by (rule wsize_lines)
  finally show ?thesis .
qed

lemma parse_list_ok:
  assumes "length body + 1 < 2 ^ 32"
  shows "\<exists>x. parse_list hn body = Some x \<and> index_ok hn x \<and>
    domains x = {normalize_name w | w l. l \<in> set (lines body) \<and> w \<in> set (line_words l) \<and> listed_name w}"
proof -
  let ?bs = "map normalize_name (filter listed_name (concat (map line_words (lines body))))"
  have "[] \<notin> set ?bs"
    by (auto simp: normalize_name_def Let_def split: if_splits)
  moreover have "text_size (domains (with_capacity (length body div 24)) \<union> set ?bs) < 2 ^ 32"
    using parsed_text_size [of body] assms by (simp add: with_capacity_ok)
  moreover have "set ?bs =
    {normalize_name w | w l. l \<in> set (lines body) \<and> w \<in> set (line_words l) \<and> listed_name w}"
    by auto
  ultimately show ?thesis
    using index.foldM_ins [of hn "with_capacity (length body div 24)" ?bs]
    unfolding parse_list_eq by (simp add: with_capacity_ok)
qed

end
