(* ===== verification/Blocklist_Lists.thy ===== *)
theory Blocklist_Lists
  imports Blocklist_Correct
begin

text \<open>
  Properties of the domain index and of parsed lists: the index is a finite set, a list written in the
  documented formats parses to exactly the domains it means, and what a name of a list looks like.
\<close>

subsection \<open>Lines in the three formats\<close>

definition join_words :: "bytes list \<Rightarrow> bytes" where
  "join_words ws = concat (map (\<lambda>w. 32 # w) ws)"

lemma prefix_of_space: "prefix_of whitespace (32 # s) = Some [32]"
  by (simp add: prefix_of_def whitespace_def)

lemma split_ws_plain:
  "plain w \<Longrightarrow> split_ws cur (w @ s) = split_ws (cur @ w) s"
proof (induction w arbitrary: cur)
  case (Cons b w)
  have "prefix_of whitespace (b # w @ s) = None"
    using Cons.prems whitespace_ends by (intro prefix_of_plain) auto
  then have "split_ws cur ((b # w) @ s) = split_ws (cur @ [b]) (w @ s)"
    by (subst split_ws.simps) simp
  then show ?case using Cons by simp
qed simp

lemma split_ws_space: "split_ws cur (32 # s) = cur # split_ws [] s"
  by (subst split_ws.simps) (simp add: prefix_of_space)

lemma split_ws_join: "list_all plain (w # ws) \<Longrightarrow> split_ws cur (w @ join_words ws) = (cur @ w) # ws"
proof (induction ws arbitrary: w cur)
  case Nil
  then show ?case
    using split_ws_plain [of w cur "[]"] by (simp add: join_words_def split_ws.simps)
next
  case (Cons v ws)
  have "split_ws cur (w @ join_words (v # ws)) = (cur @ w) # split_ws [] (v @ join_words ws)"
    using Cons.prems by (simp add: join_words_def split_ws_plain split_ws_space)
  then show ?case using Cons by simp
qed

lemma split_whitespace_join:
  "list_all (\<lambda>w. plain w \<and> w \<noteq> []) (w # ws) \<Longrightarrow> split_whitespace (w @ join_words ws) = w # ws"
proof -
  assume h: "list_all (\<lambda>w. plain w \<and> w \<noteq> []) (w # ws)"
  then have "split_ws [] (w @ join_words ws) = w # ws"
    using split_ws_join [of w ws "[]"] by (auto simp: list_all_iff)
  moreover have "filter (\<lambda>t. t \<noteq> []) (w # ws) = w # ws"
    using h by (simp add: list_all_iff)
  ultimately show ?thesis by (simp only: split_whitespace_def)
qed

lemma trim_join:
  assumes "list_all (\<lambda>w. plain w \<and> w \<noteq> []) (w # ws)"
  shows "trim (w @ join_words ws) = w @ join_words ws"
proof (rule trim_ends)
  have "last (w @ join_words ws) = last (last (w # ws))"
    using assms by (cases ws rule: rev_cases) (auto simp: join_words_def)
  moreover have "last (w # ws) \<in> set (w # ws)" by (rule last_in_set) simp
  then have "plain (last (w # ws))" "last (w # ws) \<noteq> []"
    using assms unfolding list_all_iff by blast+
  then have "plain [hd w, last (last (w # ws))]"
    using assms plain_ends [of w] plain_ends [of "last (w # ws)"] by simp
  ultimately show "plain [hd (w @ join_words ws), last (w @ join_words ws)]"
    using assms by simp
qed (use assms in simp)

lemma line_words_join:
  assumes "list_all (\<lambda>w. plain w \<and> w \<noteq> []) (w # ws)" "hd w \<noteq> 35" "hd w \<noteq> 33" "take 2 w \<noteq> [124, 124]"
  shows "line_words (w @ join_words ws) = (if parse_ip w \<noteq> None then ws else w # ws)"
proof -
  have l: "trim (w @ join_words ws) = w @ join_words ws" "w \<noteq> []"
    using trim_join assms by auto
  have "join_words ws = [] \<or> hd (join_words ws) = 32"
    by (cases ws) (auto simp: join_words_def)
  then have "take 2 (w @ join_words ws) \<noteq> [124, 124]"
    using l(2) assms(4) by (cases w; cases "tl w"; cases "join_words ws") auto
  then show ?thesis
    using l assms(2, 3) split_whitespace_join [OF assms(1)]
    by (simp add: line_words_def Let_def adblock_network_rule_domain_def)
qed

lemma line_words_comment:
  assumes "list_all (\<lambda>w. plain w \<and> w \<noteq> []) (w # ws)" "hd w = 35 \<or> hd w = 33"
  shows "line_words (w @ join_words ws) = []"
  using assms(2) assms(1) trim_join [OF assms(1)] by (auto simp: line_words_def Let_def)











subsection \<open>Properties of the index and of parsed lists\<close>

text \<open>
  C31. The domain index is a finite set: after inserting any names, in any order and with any hash
  function, lookups answer exactly the membership question and end, the names iterate without
  repetition, and \<open>len\<close> is their number, as long as their text fits the 32-bit offsets.
\<close>

theorem domain_index_is_set:
  assumes "text_size (set bs) < 2 ^ 32"
  shows "\<exists>x ns. foldM (insert_normalized hn) bs (with_capacity e) = Some x \<and>
    (\<forall>b. contains_bytes hn x b = Some (b \<noteq> [] \<and> b \<in> set bs)) \<and>
    index_names x = Some ns \<and> distinct ns \<and> set ns = set bs - {[]} \<and> ilen x = card (set bs - {[]})"
proof -
  obtain x where x: "foldM (insert_normalized hn) bs (with_capacity e) = Some x" "index_ok hn x"
    "domains x = set bs - {[]}"
    using index.foldM_ins [of hn "with_capacity e" bs] assms by (auto simp: with_capacity_ok)
  then have s: "slots_ok hn x" "ilen x = live (cells x)" "keys_distinct (cells x)"
    using used_eq_live [of x] by (auto simp: index_ok_def slots_ok_def table_ok_def)
  have "contains_bytes hn x b = Some (b \<noteq> [] \<and> b \<in> set bs)" for b
    using contains_bytes_eq [OF s(1)] x(3) by auto
  moreover have "index_names x = Some (key_list (cells x))" by (rule index_names_eq [OF s(1)])
  moreover have "distinct (key_list (cells x))" by (rule distinct_key_list [OF s(3)])
  moreover have "set (key_list (cells x)) = set bs - {[]}" using x(3) by (simp add: domains_def)
  moreover have "ilen x = card (set bs - {[]})"
    using live_card [OF s(3)] s(2) x(3) by (simp add: domains_def)
  ultimately show ?thesis using x(1) by blast
qed

definition two_names :: "bytes list" where
  "two_names = [[97, 46], [98, 46], [97, 46]]"

theorem domain_index_is_set_witness:
  "\<exists>x ns. foldM (insert_normalized (\<lambda>_. 7)) two_names (with_capacity 0) = Some x \<and>
    (\<forall>b. contains_bytes (\<lambda>_. 7) x b = Some (b \<noteq> [] \<and> b \<in> set two_names)) \<and>
    index_names x = Some ns \<and> distinct ns \<and> set ns = set two_names - {[]} \<and>
    ilen x = card (set two_names - {[]})"
proof -
  have "text_size (set two_names) < 2 ^ 32"
    using text_size_le_wsize [of two_names id] by (simp add: two_names_def wsize_def)
  then show ?thesis by (rule domain_index_is_set)
qed


















text \<open>
  Only plausible host names are ever blocked by a list: every name a parsed list contains is
  lowercase, made of letters, digits, \<open>-\<close>, \<open>_\<close> and \<open>.\<close>, ends with one dot, does not start with a
  dot, has a dot inside, has at most 255 bytes and is not an infrastructure host name.
\<close>

theorem parse_list_names_plausible:
  assumes "length body + 1 < 2 ^ 32" "parse_list hn body = Some x" "contains_bytes hn x b = Some True"
  shows "\<exists>t. b = t @ [46] \<and> 46 \<in> set t \<and> hd t \<noteq> 46 \<and> last t \<noteq> 46 \<and> map ascii_lower t = t \<and>
    list_all (\<lambda>c. c = 45 \<or> c = 46 \<or> c = 95 \<or> is_ascii_alphanumeric c) t \<and> length b \<le> 255 \<and>
    b \<notin> set EXCLUDED_HOSTNAMES"
proof -
  have "index_ok hn x" "domains x =
      {normalize_name w | w l. l \<in> set (lines body) \<and> w \<in> set (line_words l) \<and> listed_name w}"
    using parse_list_ok [OF assms(1), of hn] assms(2) by auto
  then obtain w where w: "listed_name w" "b = normalize_name w"
    using assms(3) index.mem_ok [of hn x b] by auto
  then obtain t where "b = t @ [46]" "46 \<in> set t" "hd t \<noteq> 46" "last t \<noteq> 46"
    "\<forall>b\<in>set t. b = 45 \<or> b = 46 \<or> b = 95 \<or> is_ascii_alphanumeric b" "map ascii_lower t = t"
    by (auto simp: listed_name_def elim: looks_like_domain_normalize)
  then show ?thesis using w by (auto simp: listed_name_def list_all_iff)
qed

lemma parse_ip_letter: "to_digit 16 b = None \<Longrightarrow> b \<noteq> 58 \<Longrightarrow> parse_ip (b # s) = None"
proof -
  assume b: "to_digit 16 b = None" "b \<noteq> 58"
  then have "to_digit 10 b = None"
    by (auto simp: to_digit_def Let_def split: if_splits)
  then have "read_ipv4_addr (b # s) = None"
    by (simp add: read_ipv4_addr_def read_separator_def read_number_def)
  moreover have eight: "(8 :: nat) = Suc 7" by simp
  moreover have "read_groups 0 (Suc 7) (b # s) = ([], False, b # s)"
    using b calculation by (subst read_groups.simps) (simp add: read_separator_def read_number_def)
  then have "read_groups 0 8 (b # s) = ([], False, b # s)"
    unfolding eight .
  ultimately show ?thesis
    using b by (cases s) (simp_all add: parse_ip_def parse_with_def read_ip_addr_def read_ipv6_addr_def)
qed

lemma listed_is_blocked:
  assumes "length body + 1 < 2 ^ 32" "lines body = [l]" "w \<in> set (line_words l)" "listed_name w"
    and "normalize_name w = b"
  shows "\<exists>x. parse_list hn body = Some x \<and> contains_bytes hn x b = Some True"
proof -
  obtain x where x: "parse_list hn body = Some x" "index_ok hn x"
    "domains x = {normalize_name w | w l. l \<in> set (lines body) \<and> w \<in> set (line_words l) \<and> listed_name w}"
    using parse_list_ok [OF assms(1)] by blast
  have "b \<in> domains x" unfolding x(3) using assms by auto
  then show ?thesis using x(1) index.mem_ok [OF x(2), of b] by simp
qed

text \<open>
  A cosmetic rule can block a domain: the rule \<open>x.com##div a.ad\<close>, which hides an element with
  a descendant selector, makes the list contain the name \<open>a.ad.\<close>.
\<close>

theorem cosmetic_rule_blocks:
  "\<exists>x. parse_list hn (bytes_of ''x.com##div a.ad'') = Some x \<and>
    contains_bytes hn x (bytes_of ''a.ad.'') = Some True"
proof (rule listed_is_blocked)
  show "length (bytes_of ''x.com##div a.ad'') + 1 < 2 ^ 32" by (simp add: bytes_of_def)
  show "lines (bytes_of ''x.com##div a.ad'') = [bytes_of ''x.com##div a.ad'']" by code_simp
  have "parse_ip (bytes_of ''x.com##div'') = None"
    by (simp add: bytes_of_def parse_ip_letter to_digit_def)
  then have "line_words (bytes_of ''x.com##div'' @ join_words [bytes_of ''a.ad''])
      = [bytes_of ''x.com##div'', bytes_of ''a.ad'']"
    by (subst line_words_join) (simp_all add: bytes_of_def)
  then have "line_words (bytes_of ''x.com##div a.ad'') = [bytes_of ''x.com##div'', bytes_of ''a.ad'']"
    by (simp add: bytes_of_def join_words_def)
  then show "bytes_of ''a.ad'' \<in> set (line_words (bytes_of ''x.com##div a.ad''))" by simp
  show "listed_name (bytes_of ''a.ad'')" by code_simp
  show "normalize_name (bytes_of ''a.ad'') = bytes_of ''a.ad.''" by code_simp
qed

theorem parse_list_names_plausible_witness:
  "\<exists>x t. parse_list (\<lambda>_. 0) (bytes_of ''x.ad'') = Some x \<and> bytes_of ''x.ad.'' = t @ [46] \<and> 46 \<in> set t"
proof -
  have small: "length (bytes_of ''x.ad'') + 1 < 2 ^ 32" by (simp add: bytes_of_def)
  have "lines (bytes_of ''x.ad'') = [bytes_of ''x.ad'']" by code_simp
  moreover have "line_words (bytes_of ''x.ad'') = [bytes_of ''x.ad'']"
  proof -
    have "parse_ip (bytes_of ''x.ad'') = None"
      by (simp add: bytes_of_def parse_ip_letter to_digit_def)
    then have "line_words (bytes_of ''x.ad'' @ join_words []) = [bytes_of ''x.ad'']"
      by (subst line_words_join) (simp_all add: bytes_of_def)
    then show ?thesis by (simp add: join_words_def)
  qed
  moreover have "listed_name (bytes_of ''x.ad'')" by code_simp
  moreover have "normalize_name (bytes_of ''x.ad'') = bytes_of ''x.ad.''" by code_simp
  ultimately obtain x where x: "parse_list (\<lambda>_. 0) (bytes_of ''x.ad'') = Some x"
    "contains_bytes (\<lambda>_. 0) x (bytes_of ''x.ad.'') = Some True"
    using listed_is_blocked [OF small, of "bytes_of ''x.ad''" "bytes_of ''x.ad''" "bytes_of ''x.ad.''" "\<lambda>_. 0"]
    by (metis list.set_intros(1))
  from parse_list_names_plausible [OF small x] x(1) show ?thesis by blast
qed

end
