(* ===== verification/Config.thy ===== *)
theory Config
  imports Names Addr
begin

text \<open>
  The configuration of \<open>config.rs\<close>: its records, \<open>UpstreamConfig::parse\<close>, \<open>Config::validate\<close>,
  \<open>Config::from_env\<close> with the memory budget of a container, and \<open>static_hosts_map\<close>. The Cargo
  features are a record of flags; the environment, the file system and the TOML reader are
  parameters. An error is a value of \<open>config_error\<close>, returned on the left of a sum.

  A \<open>HashMap\<close> is the list of its entries in the order in which it iterates, with distinct keys.
\<close>

subsection \<open>Records\<close>

datatype block_mode = Nxdomain | Sinkhole

datatype upstream_strategy = Sequential | Hedged | Race

datatype upstream_config = Doh bytes | Dot bytes u16 bytes

record features =
  f_dot :: bool
  f_doh :: bool
  f_certless :: bool
  f_serverless :: bool

record server_config =
  bind_address :: ip_addr
  dot_port :: u16
  doh_port :: u16
  tls_cert :: bytes
  tls_key :: bytes
  default_ttl :: u32

record blocking_config =
  mode :: block_mode
  sinkhole_ip :: ipv4

record list_config =
  list_urls :: "bytes list"
  list_domains :: "bytes list"
  refresh_interval_secs :: u64

record upstreams_config =
  strategy :: upstream_strategy
  upstream_urls :: "bytes list"

record cache_config =
  cache_enabled :: bool
  max_size_bytes :: u64

record config =
  server :: server_config
  blocking :: blocking_config
  blocklists :: list_config
  whitelist :: list_config
  static_hosts :: "(bytes \<times> ipv4) list"
  upstream :: upstreams_config
  cache :: cache_config

record static_host =
  host_ip :: ipv4
  host_ttl :: u32

datatype config_error =
    No_Upstreams | Missing_Port bytes | Invalid_Port bytes | Bad_Scheme bytes
  | No_Cert | No_Key | Same_Ports | Cache_Too_Big | Cache_Too_Small
  | Zero_Block_Refresh | Zero_White_Refresh
  | Not_Unicode string | Invalid string | Required string | Bad_Static_Host bytes

text \<open>The \<open>?\<close> operator on a \<open>Result\<close>.\<close>

definition and_then :: "'e + 'a \<Rightarrow> ('a \<Rightarrow> 'e + 'b) \<Rightarrow> 'e + 'b" where
  "and_then r f = (case r of Inl e \<Rightarrow> Inl e | Inr a \<Rightarrow> f a)"

lemma and_then_simps [simp]: "and_then (Inl e) f = Inl e" "and_then (Inr a) f = f a"
  by (simp_all add: and_then_def)

lemma and_then_eq_Inr: "and_then r f = Inr b \<longleftrightarrow> (\<exists>a. r = Inr a \<and> f a = Inr b)"
  by (cases r) auto

fun mapE :: "('a \<Rightarrow> 'e + 'b) \<Rightarrow> 'a list \<Rightarrow> 'e + 'b list" where
  "mapE f [] = Inr []" |
  "mapE f (x # xs) = and_then (f x) (\<lambda>y. and_then (mapE f xs) (\<lambda>ys. Inr (y # ys)))"

fun foldE :: "('a \<Rightarrow> 's \<Rightarrow> 'e + 's) \<Rightarrow> 'a list \<Rightarrow> 's \<Rightarrow> 'e + 's" where
  "foldE f [] s = Inr s" |
  "foldE f (x # xs) s = and_then (f x s) (foldE f xs)"

subsection \<open>String splitting\<close>

definition strip_prefix :: "bytes \<Rightarrow> bytes \<Rightarrow> bytes option" where
  "strip_prefix p s = (if take (length p) s = p then Some (drop (length p) s) else None)"

fun split_once :: "u8 \<Rightarrow> bytes \<Rightarrow> (bytes \<times> bytes) option" where
  "split_once c [] = None" |
  "split_once c (b # s) =
     (if b = c then Some ([], s) else map_option (\<lambda>(l, r). (b # l, r)) (split_once c s))"

definition rsplit_once :: "u8 \<Rightarrow> bytes \<Rightarrow> (bytes \<times> bytes) option" where
  "rsplit_once c s = map_option (\<lambda>(r, l). (rev l, rev r)) (split_once c (rev s))"

fun split_on :: "u8 \<Rightarrow> bytes \<Rightarrow> bytes list" where
  "split_on c [] = [[]]" |
  "split_on c (b # s) =
     (if b = c then [] # split_on c s
      else case split_on c s of [] \<Rightarrow> [[b]] | t # ts \<Rightarrow> (b # t) # ts)"

subsection \<open>Upstream entries\<close>

definition upstream_config_parse :: "bytes \<Rightarrow> config_error + upstream_config" where
  "upstream_config_parse entry =
     (if strip_prefix (bytes_of ''https://'') entry \<noteq> None then Inr (Doh entry)
      else case strip_prefix (bytes_of ''tls://'') entry of
             Some rest \<Rightarrow>
               (let (host_port, tls_name) =
                      (case split_once 35 rest of
                         Some (hp, name) \<Rightarrow> (hp, Some name) | None \<Rightarrow> (rest, None))
                in case rsplit_once 58 host_port of
                     None \<Rightarrow> Inl (Missing_Port entry)
                   | Some (host, port) \<Rightarrow>
                       (case parse_uint (2 ^ 16) port of
                          None \<Rightarrow> Inl (Invalid_Port entry)
                        | Some port \<Rightarrow>
                            Inr (Dot host (of_nat port)
                                   (case tls_name of Some n \<Rightarrow> n | None \<Rightarrow> host))))
           | None \<Rightarrow> Inl (Bad_Scheme entry))"

subsection \<open>Defaults\<close>

definition default_bind_address :: ip_addr where
  "default_bind_address = V4 (0, 0, 0, 0)"

definition default_dot_port :: "features \<Rightarrow> u16" where
  "default_dot_port ft = (if f_certless ft then 8853 else 853)"

definition default_doh_port :: "features \<Rightarrow> u16" where
  "default_doh_port ft = (if f_certless ft then 8053 else 443)"

definition default_server_ttl :: u32 where
  "default_server_ttl = 300"

definition default_blocking :: blocking_config where
  "default_blocking = \<lparr>mode = Nxdomain, sinkhole_ip = (0, 0, 0, 0)\<rparr>"

definition default_list :: list_config where
  "default_list = \<lparr>list_urls = [], list_domains = [], refresh_interval_secs = 43200\<rparr>"

abbreviation (input) MIB :: nat where "MIB \<equiv> 1024 * 1024"
abbreviation (input) MAX_CACHE_BYTES :: nat where "MAX_CACHE_BYTES \<equiv> 1024 * 1024 * 1024"
abbreviation (input) MIN_CACHE_BYTES :: nat where "MIN_CACHE_BYTES \<equiv> 1024 * 1024"

subsection \<open>The memory limit of the container\<close>

record file_system =
  read_file :: "bytes \<Rightarrow> bytes option"
  is_file :: "bytes \<Rightarrow> bool"

definition parse_limit :: "bytes \<Rightarrow> nat option" where
  "parse_limit raw =
     (let raw = trim raw
      in if raw = bytes_of ''max'' then None
         else case parse_uint (2 ^ 64) raw of
                None \<Rightarrow> None
              | Some bytes \<Rightarrow> if bytes < 2 ^ 62 then Some bytes else None)"

definition read_limit :: "file_system \<Rightarrow> bytes \<Rightarrow> nat option" where
  "read_limit fs path = Option.bind (read_file fs path) parse_limit"

definition path_join :: "bytes \<Rightarrow> bytes \<Rightarrow> bytes" where
  "path_join a b =
     (if b \<noteq> [] \<and> hd b = 47 then b
      else if a = [] \<or> last a = 47 then a @ b else a @ 47 # b)"

fun find_map :: "('a \<Rightarrow> 'b option) \<Rightarrow> 'a list \<Rightarrow> 'b option" where
  "find_map f [] = None" |
  "find_map f (x # xs) = (case f x of Some y \<Rightarrow> Some y | None \<Rightarrow> find_map f xs)"

definition memory_controller :: "bytes \<Rightarrow> bytes option" where
  "memory_controller line = do {
     (id, rest) \<leftarrow> split_once 58 line;
     (_, path) \<leftarrow> rsplit_once 58 rest;
     if id \<noteq> bytes_of ''0'' \<and>
        (case split_once 58 rest of
           Some (controllers, _) \<Rightarrow> bytes_of ''memory'' \<in> set (split_on 44 controllers)
         | None \<Rightarrow> False)
     then Some path else None
   }"

definition memory_limit_bytes :: "file_system \<Rightarrow> nat option" where
  "memory_limit_bytes fs = do {
     cgroup \<leftarrow> read_file fs (bytes_of ''/proc/self/cgroup'');
     let unified_path =
       (case find_map (strip_prefix (bytes_of ''0::'')) (lines cgroup) of
          Some p \<Rightarrow> p | None \<Rightarrow> bytes_of ''/'');
     let v2 = path_join (path_join (bytes_of ''/sys/fs/cgroup'')
       (dropWhile (\<lambda>b. b = 47) unified_path)) (bytes_of ''memory.max'');
     if is_file fs v2 then read_limit fs v2
     else do {
       let controller =
         (case find_map memory_controller (lines cgroup) of
            Some p \<Rightarrow> p | None \<Rightarrow> bytes_of ''/'');
       let v1 = path_join (path_join (bytes_of ''/sys/fs/cgroup/memory'')
         (dropWhile (\<lambda>b. b = 47) controller)) (bytes_of ''memory.limit_in_bytes'');
       read_limit fs v1
     }
   }"

definition default_max_size_bytes :: "features \<Rightarrow> file_system \<Rightarrow> nat" where
  "default_max_size_bytes ft fs =
     (if f_serverless ft then
        (case memory_limit_bytes fs of
           None \<Rightarrow> 64 * MIB
         | Some limit \<Rightarrow> max MIB (min (limit div 4) (64 * MIB)))
      else 64 * 1024 * 1024)"

subsection \<open>Validation\<close>

definition parsed_upstreams :: "config \<Rightarrow> config_error + upstream_config list" where
  "parsed_upstreams c = mapE upstream_config_parse (upstream_urls (upstream c))"

definition validate :: "features \<Rightarrow> file_system \<Rightarrow> config \<Rightarrow> config_error + unit" where
  "validate ft fs c =
     (if upstream_urls (upstream c) = [] then Inl No_Upstreams
      else and_then (parsed_upstreams c) (\<lambda>_.
        if \<not> f_certless ft \<and> (f_dot ft \<or> f_doh ft) \<and> \<not> is_file fs (tls_cert (server c)) then Inl No_Cert
        else if \<not> f_certless ft \<and> (f_dot ft \<or> f_doh ft) \<and> \<not> is_file fs (tls_key (server c)) then Inl No_Key
        else if f_dot ft \<and> f_doh ft \<and> dot_port (server c) = doh_port (server c) then Inl Same_Ports
        else if cache_enabled (cache c) \<and> unat (max_size_bytes (cache c)) > MAX_CACHE_BYTES
          then Inl Cache_Too_Big
        else if list_urls (blocklists c) \<noteq> [] \<and> refresh_interval_secs (blocklists c) = 0
          then Inl Zero_Block_Refresh
        else if list_urls (whitelist c) \<noteq> [] \<and> refresh_interval_secs (whitelist c) = 0
          then Inl Zero_White_Refresh
        else Inr ()))"

text \<open>\<open>Config::load\<close>, with the reading of the file and \<open>toml::from_str\<close> given by \<open>loaded\<close>.\<close>

definition config_load :: "features \<Rightarrow> file_system \<Rightarrow> config_error + config \<Rightarrow> config_error + config" where
  "config_load ft fs loaded =
     and_then loaded (\<lambda>c. and_then (validate ft fs c) (\<lambda>_. Inr c))"

subsection \<open>Configuration by environment variables\<close>

datatype env_var = Unset | Non_Unicode | Value bytes

type_synonym environment = "string \<Rightarrow> env_var"

definition env_value :: "environment \<Rightarrow> string \<Rightarrow> config_error + bytes option" where
  "env_value env name =
     (case env name of
        Value v \<Rightarrow> Inr (Some v) | Unset \<Rightarrow> Inr None | Non_Unicode \<Rightarrow> Inl (Not_Unicode name))"

definition env_list :: "environment \<Rightarrow> string \<Rightarrow> config_error + bytes list option" where
  "env_list env name =
     and_then (env_value env name) (\<lambda>v.
       Inr (map_option (\<lambda>v. filter (\<lambda>e. e \<noteq> []) (map trim (split_on 44 v))) v))"

definition env_parse ::
  "(bytes \<Rightarrow> 'a option) \<Rightarrow> environment \<Rightarrow> string \<Rightarrow> config_error + 'a option" where
  "env_parse p env name =
     and_then (env_value env name) (\<lambda>v.
       case v of
         None \<Rightarrow> Inr None
       | Some raw \<Rightarrow> (case p raw of Some x \<Rightarrow> Inr (Some x) | None \<Rightarrow> Inl (Invalid name)))"

definition parse_word :: "bytes \<Rightarrow> 'w::len word option" where
  "parse_word s = map_option of_nat (parse_uint (2 ^ LENGTH('w)) s)"

text \<open>The variant names Serde gives the enums, in snake case.\<close>

definition parse_block_mode :: "bytes \<Rightarrow> block_mode option" where
  "parse_block_mode s =
     (if s = bytes_of ''nxdomain'' then Some Nxdomain
      else if s = bytes_of ''sinkhole'' then Some Sinkhole else None)"

definition parse_strategy :: "bytes \<Rightarrow> upstream_strategy option" where
  "parse_strategy s =
     (if s = bytes_of ''sequential'' then Some Sequential
      else if s = bytes_of ''hedged'' then Some Hedged
      else if s = bytes_of ''race'' then Some Race else None)"

text \<open>\<open>if let Some(x) = r? { config.field = x }\<close>.\<close>

definition set_opt ::
  "config_error + 'a option \<Rightarrow> ('a \<Rightarrow> config \<Rightarrow> config) \<Rightarrow> config \<Rightarrow> config_error + config" where
  "set_opt r upd c = and_then r (\<lambda>v. Inr (case v of None \<Rightarrow> c | Some x \<Rightarrow> upd x c))"

definition hm_insert :: "'k \<Rightarrow> 'v \<Rightarrow> ('k \<times> 'v) list \<Rightarrow> ('k \<times> 'v) list" where
  "hm_insert k v m =
     (if k \<in> fst ` set m then map (\<lambda>(k', v'). (k', if k' = k then v else v')) m else m @ [(k, v)])"

definition add_static_host :: "bytes \<Rightarrow> config \<Rightarrow> config_error + config" where
  "add_static_host entry c =
     (case split_once 61 entry of
        None \<Rightarrow> Inl (Bad_Static_Host entry)
      | Some (name, ip) \<Rightarrow>
          (case parse_ipv4 (trim ip) of
             None \<Rightarrow> Inl (Bad_Static_Host entry)
           | Some ip \<Rightarrow> Inr (c\<lparr>static_hosts := hm_insert (trim name) ip (static_hosts c)\<rparr>)))"

definition set_static_hosts :: "environment \<Rightarrow> config \<Rightarrow> config_error + config" where
  "set_static_hosts env c =
     and_then (env_list env ''DNSRS_STATIC_HOSTS'') (\<lambda>v.
       case v of None \<Rightarrow> Inr c | Some entries \<Rightarrow> foldE add_static_host entries c)"

definition set_cache_size :: "environment \<Rightarrow> config \<Rightarrow> config_error + config" where
  "set_cache_size env c =
     and_then (env_parse parse_word env ''DNSRS_CACHE_MAX_SIZE_BYTES'') (\<lambda>v.
       case v of
         None \<Rightarrow> Inr c
       | Some bytes \<Rightarrow>
           if cache_enabled (cache c) \<and> unat bytes < MIN_CACHE_BYTES then Inl Cache_Too_Small
           else Inr (c\<lparr>cache := (cache c)\<lparr>max_size_bytes := bytes\<rparr>\<rparr>))"

definition required :: "features \<Rightarrow> environment \<Rightarrow> string \<Rightarrow> config_error + bytes" where
  "required ft env name =
     (if \<not> f_certless ft \<and> (f_dot ft \<or> f_doh ft) then
        and_then (env_value env name) (\<lambda>v.
          case v of Some p \<Rightarrow> Inr p | None \<Rightarrow> Inl (Required name))
      else Inr [])"

definition env_base :: "features \<Rightarrow> file_system \<Rightarrow> environment \<Rightarrow> config_error + config" where
  "env_base ft fs env =
     and_then (required ft env ''DNSRS_TLS_CERT'') (\<lambda>cert.
     and_then (required ft env ''DNSRS_TLS_KEY'') (\<lambda>key.
       Inr \<lparr>server = \<lparr>bind_address = default_bind_address, dot_port = default_dot_port ft,
                      doh_port = default_doh_port ft, tls_cert = cert, tls_key = key,
                      default_ttl = default_server_ttl\<rparr>,
            blocking = default_blocking, blocklists = default_list, whitelist = default_list,
            static_hosts = [],
            upstream = \<lparr>strategy = Hedged,
                        upstream_urls = [bytes_of ''https://cloudflare-dns.com/dns-query'']\<rparr>,
            cache = \<lparr>cache_enabled = True, max_size_bytes = of_nat (default_max_size_bytes ft fs)\<rparr>\<rparr>))"

definition doh_port_value :: "environment \<Rightarrow> config_error + u16 option" where
  "doh_port_value env =
     and_then (env_parse parse_word env ''PORT'') (\<lambda>v.
       case v of Some port \<Rightarrow> Inr (Some port) | None \<Rightarrow> env_parse parse_word env ''DNSRS_DOH_PORT'')"

definition env_steps :: "features \<Rightarrow> environment \<Rightarrow> (config \<Rightarrow> config_error + config) list" where
  "env_steps ft env =
    [set_opt (env_parse parse_ip env ''DNSRS_BIND_ADDRESS'')
       (\<lambda>x c. c\<lparr>server := (server c)\<lparr>bind_address := x\<rparr>\<rparr>),
     (if f_dot ft then set_opt (env_parse parse_word env ''DNSRS_DOT_PORT'')
       (\<lambda>x c. c\<lparr>server := (server c)\<lparr>dot_port := x\<rparr>\<rparr>) else Inr),
     (if f_doh ft then set_opt (doh_port_value env)
       (\<lambda>x c. c\<lparr>server := (server c)\<lparr>doh_port := x\<rparr>\<rparr>) else Inr),
     set_opt (env_parse parse_word env ''DNSRS_DEFAULT_TTL'')
       (\<lambda>x c. c\<lparr>server := (server c)\<lparr>default_ttl := x\<rparr>\<rparr>),
     set_opt (env_list env ''DNSRS_UPSTREAM_URLS'')
       (\<lambda>x c. c\<lparr>upstream := (upstream c)\<lparr>upstream_urls := x\<rparr>\<rparr>),
     set_opt (env_parse parse_strategy env ''DNSRS_UPSTREAM_STRATEGY'')
       (\<lambda>x c. c\<lparr>upstream := (upstream c)\<lparr>strategy := x\<rparr>\<rparr>),
     set_opt (env_list env ''DNSRS_BLOCKLIST_URLS'')
       (\<lambda>x c. c\<lparr>blocklists := (blocklists c)\<lparr>list_urls := x\<rparr>\<rparr>),
     set_opt (env_list env ''DNSRS_BLOCKLIST_DOMAINS'')
       (\<lambda>x c. c\<lparr>blocklists := (blocklists c)\<lparr>list_domains := x\<rparr>\<rparr>),
     set_opt (env_parse parse_word env ''DNSRS_BLOCKLIST_REFRESH_SECS'')
       (\<lambda>x c. c\<lparr>blocklists := (blocklists c)\<lparr>refresh_interval_secs := x\<rparr>\<rparr>),
     set_opt (env_list env ''DNSRS_WHITELIST_URLS'')
       (\<lambda>x c. c\<lparr>whitelist := (whitelist c)\<lparr>list_urls := x\<rparr>\<rparr>),
     set_opt (env_list env ''DNSRS_WHITELIST_DOMAINS'')
       (\<lambda>x c. c\<lparr>whitelist := (whitelist c)\<lparr>list_domains := x\<rparr>\<rparr>),
     set_opt (env_parse parse_word env ''DNSRS_WHITELIST_REFRESH_SECS'')
       (\<lambda>x c. c\<lparr>whitelist := (whitelist c)\<lparr>refresh_interval_secs := x\<rparr>\<rparr>),
     set_opt (env_parse parse_block_mode env ''DNSRS_BLOCK_MODE'')
       (\<lambda>x c. c\<lparr>blocking := (blocking c)\<lparr>mode := x\<rparr>\<rparr>),
     set_opt (env_parse parse_ipv4 env ''DNSRS_SINKHOLE_IP'')
       (\<lambda>x c. c\<lparr>blocking := (blocking c)\<lparr>sinkhole_ip := x\<rparr>\<rparr>),
     set_static_hosts env,
     set_opt (env_parse parse_bool env ''DNSRS_CACHE_ENABLED'')
       (\<lambda>x c. c\<lparr>cache := (cache c)\<lparr>cache_enabled := x\<rparr>\<rparr>),
     set_cache_size env]"

definition from_env :: "features \<Rightarrow> file_system \<Rightarrow> environment \<Rightarrow> config_error + config" where
  "from_env ft fs env =
     and_then (env_base ft fs env) (\<lambda>c.
     and_then (foldE (\<lambda>step. step) (env_steps ft env) c) (\<lambda>c.
     and_then (validate ft fs c) (\<lambda>_. Inr c)))"

subsection \<open>Static hosts\<close>

text \<open>Collecting into a map: a later entry replaces an earlier one with the same key.\<close>

definition static_hosts_map :: "config \<Rightarrow> bytes \<Rightarrow> static_host option" where
  "static_hosts_map c =
     fold (\<lambda>(domain, ip) m.
       m(normalize_name domain \<mapsto> \<lparr>host_ip = ip, host_ttl = default_ttl (server c)\<rparr>))
       (static_hosts c) Map.empty"

end
