(* ===== verification/Blocklist_Manager.thy ===== *)
theory Blocklist_Manager
  imports Blocklist_Correct Config
begin

text \<open>
  The block list manager of \<open>blocklist.rs\<close>: sources, the fetching of a list, the rebuild of the
  published set, and the refresh loops as a step relation. The HTTP client is a parameter: a
  response is \<open>None\<close> when the request fails, or the list of its chunks, where \<open>None\<close> is a failed
  read. The two refresh loops run as interleaved tasks and a rebuild runs on a worker thread, so
  the relation has one step per critical section: storing a source, cloning one source of a
  snapshot, and publishing.
\<close>

subsection \<open>State\<close>

record source =
  src_url :: bytes
  src_interval :: u64
  src_set :: domain_index

record domain_set =
  ds_sources :: "source list"
  ds_inline :: "bytes list"

record manager =
  m_block :: domain_set
  m_allow :: domain_set
  m_merged :: domain_index

definition domain_set_new :: "list_config \<Rightarrow> domain_set" where
  "domain_set_new lc =
     \<lparr>ds_sources = map (\<lambda>url. \<lparr>src_url = url, src_interval = refresh_interval_secs lc,
                                src_set = domain_index_new\<rparr>) (list_urls lc),
      ds_inline = map normalize_name (list_domains lc)\<rparr>"

definition snapshot :: "domain_set \<Rightarrow> domain_index list" where
  "snapshot ds = map src_set (ds_sources ds)"

definition manager_new :: "list_config \<Rightarrow> list_config \<Rightarrow> manager" where
  "manager_new block allow =
     \<lparr>m_block = domain_set_new block, m_allow = domain_set_new allow, m_merged = domain_index_new\<rparr>"

subsection \<open>Fetching\<close>

abbreviation (input) MAX_LIST_RESPONSE_BYTES :: nat where
  "MAX_LIST_RESPONSE_BYTES \<equiv> 256 * 1024 * 1024"

type_synonym http_response = "bytes option list option"

fun read_body :: "bytes \<Rightarrow> bytes option list \<Rightarrow> bytes option" where
  "read_body body [] = Some body" |
  "read_body body (None # chunks) = None" |
  "read_body body (Some chunk # chunks) =
     (let body = body @ chunk
      in if length body > MAX_LIST_RESPONSE_BYTES then None else read_body body chunks)"

text \<open>The outer option is a panic, the inner one the \<open>Result\<close>.\<close>

definition fetch_one :: "(bytes \<Rightarrow> u64) \<Rightarrow> http_response \<Rightarrow> domain_index option option" where
  "fetch_one hn resp =
     (case Option.bind resp (read_body []) of
        None \<Rightarrow> Some None
      | Some body \<Rightarrow>
          if \<not> utf8_valid body then Some None else map_option Some (parse_list hn body))"

definition fetch_and_store :: "(bytes \<Rightarrow> u64) \<Rightarrow> http_response \<Rightarrow> source \<Rightarrow> source option" where
  "fetch_and_store hn resp src = do {
     result \<leftarrow> fetch_one hn resp;
     Some (case result of Some index \<Rightarrow> src\<lparr>src_set := index\<rparr> | None \<Rightarrow> src)
   }"

subsection \<open>Rebuilding\<close>

text \<open>The set to publish from two snapshots, and the size of the white list.\<close>

definition rebuild ::
  "(bytes \<Rightarrow> u64) \<Rightarrow> manager \<Rightarrow> domain_index list \<Rightarrow> domain_index list \<Rightarrow> (domain_index \<times> nat) option" where
  "rebuild hn m block_sources allow_sources = do {
     allow \<leftarrow> index_merged hn (ds_inline (m_allow m)) allow_sources None;
     merged \<leftarrow> merged_with_capacity hn
       (length (ds_inline (m_block m)) + sum_list (map ilen block_sources))
       (ds_inline (m_block m)) block_sources (Some allow);
     Some (merged, ilen allow)
   }"

definition republish_merged :: "(bytes \<Rightarrow> u64) \<Rightarrow> manager \<Rightarrow> (manager \<times> nat) option" where
  "republish_merged hn m = do {
     (merged, whitelisted) \<leftarrow> rebuild hn m (snapshot (m_block m)) (snapshot (m_allow m));
     Some (m\<lparr>m_merged := merged\<rparr>, whitelisted)
   }"

fun fetch_all :: "(bytes \<Rightarrow> u64) \<Rightarrow> http_response list \<Rightarrow> source list \<Rightarrow> source list option" where
  "fetch_all hn (resp # resps) (src # srcs) = do {
     src \<leftarrow> fetch_and_store hn resp src;
     srcs \<leftarrow> fetch_all hn resps srcs;
     Some (src # srcs)
   }" |
  "fetch_all hn resps srcs = Some srcs"

definition manager_start ::
  "(bytes \<Rightarrow> u64) \<Rightarrow> http_response list \<Rightarrow> http_response list \<Rightarrow> manager \<Rightarrow> manager option" where
  "manager_start hn block_resps allow_resps m = do {
     bs \<leftarrow> fetch_all hn block_resps (ds_sources (m_block m));
     as \<leftarrow> fetch_all hn allow_resps (ds_sources (m_allow m));
     let m = m\<lparr>m_block := (m_block m)\<lparr>ds_sources := bs\<rparr>, m_allow := (m_allow m)\<lparr>ds_sources := as\<rparr>\<rparr>;
     (m, _) \<leftarrow> republish_merged hn m;
     Some m
   }"

subsection \<open>The refresh loops\<close>

text \<open>
  A rebuild that holds the \<open>rebuild\<close> mutex has cloned some of the block sources, or all of them
  and some of the white list sources.
\<close>

datatype rebuild_phase =
    Idle
  | Cloning_Block "domain_index list"
  | Cloning_Allow "domain_index list" "domain_index list"

record manager_state =
  mgr :: manager
  phase :: rebuild_phase

definition store_source :: "nat \<Rightarrow> source \<Rightarrow> domain_set \<Rightarrow> domain_set" where
  "store_source i src ds = ds\<lparr>ds_sources := (ds_sources ds)[i := src]\<rparr>"

inductive manager_step :: "(bytes \<Rightarrow> u64) \<Rightarrow> manager_state \<Rightarrow> manager_state \<Rightarrow> bool" for hn where
  fetch_block: "i < length (ds_sources (m_block (mgr s))) \<Longrightarrow>
    fetch_and_store hn resp (ds_sources (m_block (mgr s)) ! i) = Some src \<Longrightarrow>
    manager_step hn s (s\<lparr>mgr := (mgr s)\<lparr>m_block := store_source i src (m_block (mgr s))\<rparr>\<rparr>)" |
  fetch_allow: "i < length (ds_sources (m_allow (mgr s))) \<Longrightarrow>
    fetch_and_store hn resp (ds_sources (m_allow (mgr s)) ! i) = Some src \<Longrightarrow>
    manager_step hn s (s\<lparr>mgr := (mgr s)\<lparr>m_allow := store_source i src (m_allow (mgr s))\<rparr>\<rparr>)" |
  lock: "phase s = Idle \<Longrightarrow> manager_step hn s (s\<lparr>phase := Cloning_Block []\<rparr>)" |
  clone_block: "phase s = Cloning_Block bs \<Longrightarrow> length bs < length (ds_sources (m_block (mgr s))) \<Longrightarrow>
    manager_step hn s
      (s\<lparr>phase := Cloning_Block (bs @ [src_set (ds_sources (m_block (mgr s)) ! length bs)])\<rparr>)" |
  block_done: "phase s = Cloning_Block bs \<Longrightarrow> length bs = length (ds_sources (m_block (mgr s))) \<Longrightarrow>
    manager_step hn s (s\<lparr>phase := Cloning_Allow bs []\<rparr>)" |
  clone_allow: "phase s = Cloning_Allow bs as \<Longrightarrow> length as < length (ds_sources (m_allow (mgr s))) \<Longrightarrow>
    manager_step hn s
      (s\<lparr>phase := Cloning_Allow bs (as @ [src_set (ds_sources (m_allow (mgr s)) ! length as)])\<rparr>)" |
  publish: "phase s = Cloning_Allow bs as \<Longrightarrow> length as = length (ds_sources (m_allow (mgr s))) \<Longrightarrow>
    rebuild hn (mgr s) bs as = Some (merged, n) \<Longrightarrow>
    manager_step hn s \<lparr>mgr = (mgr s)\<lparr>m_merged := merged\<rparr>, phase = Idle\<rparr>"

inductive manager_reach :: "(bytes \<Rightarrow> u64) \<Rightarrow> manager_state \<Rightarrow> manager_state \<Rightarrow> bool" for hn where
  refl: "manager_reach hn s s" |
  step: "manager_reach hn s t \<Longrightarrow> manager_step hn t u \<Longrightarrow> manager_reach hn s u"

inductive_cases manager_stepE: "manager_step hn s t"

subsection \<open>Fetched lists\<close>

definition list_ok :: "(bytes \<Rightarrow> u64) \<Rightarrow> domain_index \<Rightarrow> bool" where
  "list_ok hn x \<longleftrightarrow> index_ok hn x \<and> text_size (domains x) \<le> MAX_LIST_RESPONSE_BYTES + 1"

definition set_ok :: "(bytes \<Rightarrow> u64) \<Rightarrow> domain_set \<Rightarrow> bool" where
  "set_ok hn ds \<longleftrightarrow> list_all (\<lambda>src. list_ok hn (src_set src)) (ds_sources ds)"

lemma read_body_bound:
  "read_body body chunks = Some b \<Longrightarrow> length body \<le> MAX_LIST_RESPONSE_BYTES \<Longrightarrow>
     length b \<le> MAX_LIST_RESPONSE_BYTES"
  by (induction body chunks rule: read_body.induct) (auto simp: Let_def split: if_splits)

lemma parse_list_list_ok:
  assumes "length body \<le> MAX_LIST_RESPONSE_BYTES"
  shows "\<exists>x. parse_list hn body = Some x \<and> list_ok hn x"
proof -
  let ?ws = "filter listed_name (concat (map line_words (lines body)))"
  obtain x where x: "parse_list hn body = Some x" "index_ok hn x"
    "domains x = {normalize_name w | w l. l \<in> set (lines body) \<and> w \<in> set (line_words l) \<and> listed_name w}"
    using parse_list_ok [of body hn] assms by auto
  have "domains x = normalize_name ` set ?ws" unfolding x(3) by auto
  then have "text_size (domains x) \<le> MAX_LIST_RESPONSE_BYTES + 1"
    using parsed_text_size [of body] assms by simp
  then show ?thesis using x by (simp add: list_ok_def)
qed

lemma fetch_one_ok: "\<exists>r. fetch_one hn resp = Some r \<and> (\<forall>x. r = Some x \<longrightarrow> list_ok hn x)"
proof (cases "Option.bind resp (read_body [])")
  case (Some body)
  then have "length body \<le> MAX_LIST_RESPONSE_BYTES"
    using read_body_bound [of "[]" _ body] by (cases resp) auto
  from parse_list_list_ok [OF this, of hn] show ?thesis
    using Some by (auto simp: fetch_one_def)
qed (simp add: fetch_one_def)

lemma fetch_and_store_ok:
  assumes "list_ok hn (src_set src)"
  shows "\<exists>src'. fetch_and_store hn resp src = Some src' \<and> list_ok hn (src_set src')"
  using fetch_one_ok [of hn resp] assms by (auto simp: fetch_and_store_def split: option.split)

lemma set_ok_store:
  "set_ok hn ds \<Longrightarrow> i < length (ds_sources ds) \<Longrightarrow>
   fetch_and_store hn resp (ds_sources ds ! i) = Some src \<Longrightarrow> set_ok hn (store_source i src ds)"
  using fetch_and_store_ok [of hn "ds_sources ds ! i" resp] set_update_subset_insert [of "ds_sources ds" i src]
  by (auto simp: set_ok_def list_all_iff store_source_def)

lemma domain_index_new_ok: "list_ok hn domain_index_new" "domains domain_index_new = {}"
  by (simp_all add: domain_index_new_def list_ok_def with_capacity_ok text_size_def)

lemma set_ok_new: "set_ok hn (domain_set_new lc)"
  by (auto simp: set_ok_def domain_set_new_def list_all_iff domain_index_new_ok)

subsection \<open>Rebuilding\<close>

text \<open>The lists of one direction fit the arena of an index.\<close>

definition fits :: "bytes list \<Rightarrow> nat \<Rightarrow> bool" where
  "fits inline n \<longleftrightarrow> text_size (set inline) + n * (MAX_LIST_RESPONSE_BYTES + 1) < 2 ^ 32"

lemma text_size_Un: "finite A \<Longrightarrow> finite B \<Longrightarrow> text_size (A \<union> B) \<le> text_size A + text_size B"
  unfolding text_size_def by (metis le_add1 sum.union_inter)

lemma text_size_sources:
  "list_all (list_ok hn) xs \<Longrightarrow>
     text_size (\<Union>x\<in>set xs. domains x) \<le> length xs * (MAX_LIST_RESPONSE_BYTES + 1)"
proof (induction xs)
  case (Cons x xs)
  have "text_size (domains x \<union> (\<Union>x\<in>set xs. domains x))
      \<le> text_size (domains x) + text_size (\<Union>x\<in>set xs. domains x)"
    by (intro text_size_Un) auto
  with Cons show ?case by (simp add: list_ok_def)
qed (simp add: text_size_def)

lemma fits_union:
  assumes "fits inline (length xs)" "list_all (list_ok hn) xs"
  shows "text_size ((set inline \<union> (\<Union>x\<in>set xs. domains x)) - E) < 2 ^ 32"
proof -
  have "text_size ((set inline \<union> (\<Union>x\<in>set xs. domains x)) - E)
      \<le> text_size (set inline \<union> (\<Union>x\<in>set xs. domains x))"
    by (intro text_size_mono) auto
  also have "\<dots> \<le> text_size (set inline) + text_size (\<Union>x\<in>set xs. domains x)"
    by (intro text_size_Un) auto
  also have "\<dots> < 2 ^ 32"
    using assms text_size_sources [OF assms(2)] by (simp add: fits_def)
  finally show ?thesis .
qed

lemma rebuild_ok:
  assumes bs: "list_all (list_ok hn) bs" "fits (ds_inline (m_block m)) (length bs)"
    and as: "list_all (list_ok hn) as" "fits (ds_inline (m_allow m)) (length as)"
  shows "\<exists>x n. rebuild hn m bs as = Some (x, n) \<and> index_ok hn x \<and>
    domains x = (set (ds_inline (m_block m)) \<union> (\<Union>y\<in>set bs. domains y))
      - (set (ds_inline (m_allow m)) \<union> (\<Union>y\<in>set as. domains y)) - {[]} \<and>
    n = card ((set (ds_inline (m_allow m)) \<union> (\<Union>y\<in>set as. domains y)) - {[]})"
proof -
  have ok: "list_all (list_ok hn) ys \<Longrightarrow> list_all (index_ok hn) ys" for ys
    by (auto simp: list_all_iff list_ok_def)
  let ?na = "length (ds_inline (m_allow m)) + sum_list (map ilen as)"
    and ?nb = "length (ds_inline (m_block m)) + sum_list (map ilen bs)"
  obtain e where e: "index_merged hn (ds_inline (m_allow m)) as None = Some e" "index_ok hn e"
    "domains e = set (ds_inline (m_allow m)) \<union> (\<Union>y\<in>set as. domains y) - {[]}"
    using merged_with_capacity_ok [OF ok [OF as(1)], of None "ds_inline (m_allow m)" ?na]
      fits_union [OF as(2,1), of "{}"]
    unfolding index_merged_def by (auto simp: exclude_set_def)
  obtain x where x: "merged_with_capacity hn ?nb (ds_inline (m_block m)) bs (Some e) = Some x"
    "index_ok hn x"
    "domains x = set (ds_inline (m_block m)) \<union> (\<Union>y\<in>set bs. domains y) - domains e - {[]}"
    using merged_with_capacity_ok [OF ok [OF bs(1)], of "Some e" "ds_inline (m_block m)" ?nb]
      e(2) fits_union [OF bs(2,1), of "domains e"]
    by (auto simp: exclude_set_def)
  have "ilen e = card (domains e)"
    using e(2) live_card unfolding index_ok_def slots_ok_def table_ok_def domains_def
    by (metis used_eq_live)
  then show ?thesis
    using e x by (auto simp: rebuild_def)
qed

subsection \<open>The initial fetch\<close>

definition fetched_names :: "(bytes \<Rightarrow> u64) \<Rightarrow> http_response \<Rightarrow> bytes set" where
  "fetched_names hn resp = (case fetch_one hn resp of Some (Some x) \<Rightarrow> domains x | _ \<Rightarrow> {})"

lemma fetch_and_store_names:
  assumes "list_ok hn (src_set src)" "domains (src_set src) = {}"
  shows "\<exists>src'. fetch_and_store hn resp src = Some src' \<and> list_ok hn (src_set src') \<and>
    domains (src_set src') = fetched_names hn resp"
  using fetch_one_ok [of hn resp] assms
  by (auto simp: fetch_and_store_def fetched_names_def split: option.split)

lemma fetch_all_names:
  "length resps = length srcs \<Longrightarrow>
   list_all (\<lambda>src. list_ok hn (src_set src) \<and> domains (src_set src) = {}) srcs \<Longrightarrow>
   \<exists>srcs'. fetch_all hn resps srcs = Some srcs' \<and> length srcs' = length srcs \<and>
     list_all (list_ok hn) (map src_set srcs') \<and>
     (\<Union>src\<in>set srcs'. domains (src_set src)) = (\<Union>r\<in>set resps. fetched_names hn r)"
proof (induction resps srcs rule: list_induct2)
  case (Cons resp resps src srcs)
  obtain src' where "fetch_and_store hn resp src = Some src'" "list_ok hn (src_set src')"
    "domains (src_set src') = fetched_names hn resp"
    using fetch_and_store_names [of hn src resp] Cons.prems by auto
  with Cons show ?case by auto
qed simp

lemma normalize_name_nonempty [simp]: "normalize_name b \<noteq> []" "[] \<notin> normalize_name ` B"
  by (auto simp: normalize_name_def Let_def)

lemma manager_start_ok:
  assumes "length block_resps = length (list_urls block)" "length allow_resps = length (list_urls allow)"
    and "fits (map normalize_name (list_domains block)) (length (list_urls block))"
    and "fits (map normalize_name (list_domains allow)) (length (list_urls allow))"
  shows "\<exists>m. manager_start hn block_resps allow_resps (manager_new block allow) = Some m \<and> index_ok hn (m_merged m) \<and>
    (\<forall>b. contains_bytes hn (m_merged m) b =
      Some ((b \<in> normalize_name ` set (list_domains block) \<or> (\<exists>r\<in>set block_resps. b \<in> fetched_names hn r))
        \<and> b \<notin> normalize_name ` set (list_domains allow) \<and> (\<forall>r\<in>set allow_resps. b \<notin> fetched_names hn r)))"
proof -
  have fresh: "list_all (\<lambda>src. list_ok hn (src_set src) \<and> domains (src_set src) = {})
      (ds_sources (domain_set_new lc))" for lc
    by (auto simp: domain_set_new_def list_all_iff domain_index_new_ok)
  have len: "length (ds_sources (domain_set_new lc)) = length (list_urls lc)" for lc
    by (simp add: domain_set_new_def)
  obtain bs where bs: "fetch_all hn block_resps (ds_sources (domain_set_new block)) = Some bs"
    "length bs = length (list_urls block)" "list_all (list_ok hn) (map src_set bs)"
    "(\<Union>src\<in>set bs. domains (src_set src)) = (\<Union>r\<in>set block_resps. fetched_names hn r)"
    using fetch_all_names [OF _ fresh, of block_resps block] assms(1) len by auto
  obtain as where as: "fetch_all hn allow_resps (ds_sources (domain_set_new allow)) = Some as"
    "length as = length (list_urls allow)" "list_all (list_ok hn) (map src_set as)"
    "(\<Union>src\<in>set as. domains (src_set src)) = (\<Union>r\<in>set allow_resps. fetched_names hn r)"
    using fetch_all_names [OF _ fresh, of allow_resps allow] assms(2) len by auto
  define m where "m = \<lparr>m_block = \<lparr>ds_sources = bs, ds_inline = map normalize_name (list_domains block)\<rparr>,
    m_allow = \<lparr>ds_sources = as, ds_inline = map normalize_name (list_domains allow)\<rparr>,
    m_merged = domain_index_new\<rparr>"
  obtain x n where x: "rebuild hn m (map src_set bs) (map src_set as) = Some (x, n)" "index_ok hn x"
    "domains x = (normalize_name ` set (list_domains block) \<union> (\<Union>r\<in>set block_resps. fetched_names hn r))
      - (normalize_name ` set (list_domains allow) \<union> (\<Union>r\<in>set allow_resps. fetched_names hn r)) - {[]}"
    using rebuild_ok [OF bs(3) _ as(3), of m] assms(3, 4) bs(2, 4) as(2, 4) by (auto simp: m_def)
  have "[] \<notin> fetched_names hn r" for r
    using fetch_one_ok [of hn r] domains_nonempty
    by (auto simp: fetched_names_def list_ok_def index_ok_def split: option.splits) blast
  then have "contains_bytes hn x b = Some ((b \<in> normalize_name ` set (list_domains block) \<or>
        (\<exists>r\<in>set block_resps. b \<in> fetched_names hn r))
      \<and> b \<notin> normalize_name ` set (list_domains allow) \<and> (\<forall>r\<in>set allow_resps. b \<notin> fetched_names hn r))" for b
    using index.mem_ok [OF x(2)] x(3) by auto
  then show ?thesis
    using bs(1) as(1) x(1, 2)
    by (auto simp: manager_start_def manager_new_def republish_merged_def snapshot_def m_def domain_set_new_def)
qed

text \<open>
  C34. After the initial fetch the published set blocks exactly the names of the configured block
  list and of the block lists that could be fetched, except the names of the configured white
  list and of the white lists that could be fetched; nothing panics or loops, whatever the
  servers return and whatever the hash function.
\<close>

theorem manager_start_publishes:
  assumes "length block_resps = length (list_urls block)" "length allow_resps = length (list_urls allow)"
    and "fits (map normalize_name (list_domains block)) (length (list_urls block))"
    and "fits (map normalize_name (list_domains allow)) (length (list_urls allow))"
  shows "\<exists>m. manager_start hn block_resps allow_resps (manager_new block allow) = Some m \<and>
    (\<forall>b. contains_bytes hn (m_merged m) b =
      Some ((b \<in> normalize_name ` set (list_domains block) \<or> (\<exists>r\<in>set block_resps. b \<in> fetched_names hn r))
        \<and> b \<notin> normalize_name ` set (list_domains allow) \<and> (\<forall>r\<in>set allow_resps. b \<notin> fetched_names hn r)))"
  using manager_start_ok [OF assms] by blast

subsection \<open>Refreshing\<close>

definition phase_ok :: "(bytes \<Rightarrow> u64) \<Rightarrow> manager_state \<Rightarrow> bool" where
  "phase_ok hn s \<longleftrightarrow>
     (case phase s of
        Idle \<Rightarrow> True
      | Cloning_Block bs \<Rightarrow> list_all (list_ok hn) bs
      | Cloning_Allow bs as \<Rightarrow> list_all (list_ok hn) bs \<and> list_all (list_ok hn) as \<and>
          length bs = length (ds_sources (m_block (mgr s))))"

definition manager_inv :: "(bytes \<Rightarrow> u64) \<Rightarrow> list_config \<Rightarrow> list_config \<Rightarrow> manager_state \<Rightarrow> bool" where
  "manager_inv hn block allow s \<longleftrightarrow>
     set_ok hn (m_block (mgr s)) \<and> set_ok hn (m_allow (mgr s)) \<and>
     ds_inline (m_block (mgr s)) = map normalize_name (list_domains block) \<and>
     ds_inline (m_allow (mgr s)) = map normalize_name (list_domains allow) \<and>
     length (ds_sources (m_block (mgr s))) = length (list_urls block) \<and>
     length (ds_sources (m_allow (mgr s))) = length (list_urls allow) \<and>
     phase_ok hn s \<and> index_ok hn (m_merged (mgr s)) \<and>
     domains (m_merged (mgr s)) \<inter> normalize_name ` set (list_domains allow) = {}"

lemma set_ok_nth: "set_ok hn ds \<Longrightarrow> i < length (ds_sources ds) \<Longrightarrow> list_ok hn (src_set (ds_sources ds ! i))"
  by (auto simp: set_ok_def list_all_length)

lemma store_source_simps [simp]:
  "ds_inline (store_source i src ds) = ds_inline ds"
  "length (ds_sources (store_source i src ds)) = length (ds_sources ds)"
  by (simp_all add: store_source_def)

lemma manager_inv_new: "manager_inv hn block allow \<lparr>mgr = manager_new block allow, phase = Idle\<rparr>"
  using domain_index_new_ok(1) [of hn] domain_index_new_ok(2) set_ok_new [of hn]
  by (simp add: manager_inv_def manager_new_def phase_ok_def list_ok_def) (simp add: domain_set_new_def)

lemma manager_step_inv:
  assumes "manager_step hn s t" "manager_inv hn block allow s"
    and "fits (map normalize_name (list_domains block)) (length (list_urls block))"
    and "fits (map normalize_name (list_domains allow)) (length (list_urls allow))"
  shows "manager_inv hn block allow t"
  using assms(1)
proof cases
  case (publish bs as merged n)
  then have "list_all (list_ok hn) bs" "list_all (list_ok hn) as"
    "fits (ds_inline (m_block (mgr s))) (length bs)" "fits (ds_inline (m_allow (mgr s))) (length as)"
    using assms by (auto simp: manager_inv_def phase_ok_def)
  from rebuild_ok [OF this(1,3,2,4)] publish show ?thesis
    using assms(2) by (auto simp: manager_inv_def phase_ok_def)
qed (use assms(2) in \<open>auto simp: manager_inv_def phase_ok_def set_ok_store set_ok_nth split: rebuild_phase.splits\<close>)

lemma manager_reach_inv:
  assumes "manager_reach hn s t" "manager_inv hn block allow s"
    and "fits (map normalize_name (list_domains block)) (length (list_urls block))"
    and "fits (map normalize_name (list_domains allow)) (length (list_urls allow))"
  shows "manager_inv hn block allow t"
  using assms by (induction rule: manager_reach.induct) (auto intro: manager_step_inv)

text \<open>
  C33. A name of the configured white list is never blocked: in every state the manager can reach,
  through any interleaving of the two refresh loops with a running rebuild, and whatever the
  fetched lists contain, the published set does not contain it.
\<close>

theorem whitelisted_never_blocked:
  assumes "manager_reach hn \<lparr>mgr = manager_new block allow, phase = Idle\<rparr> s"
    and "fits (map normalize_name (list_domains block)) (length (list_urls block))"
    and "fits (map normalize_name (list_domains allow)) (length (list_urls allow))"
    and "w \<in> set (list_domains allow)"
  shows "contains_bytes hn (m_merged (mgr s)) (normalize_name w) = Some False"
proof -
  have "manager_inv hn block allow s"
    using manager_reach_inv [OF assms(1) manager_inv_new assms(2, 3)] .
  then show ?thesis
    using assms(4) index.mem_ok [of hn "m_merged (mgr s)" "normalize_name w"]
    by (auto simp: manager_inv_def)
qed

text \<open>
  A rebuild always succeeds: in every reachable state in which the sources have been cloned,
  publishing is possible, so a refresh loop never stops at a rebuild.
\<close>

theorem rebuild_never_stuck:
  assumes "manager_reach hn \<lparr>mgr = manager_new block allow, phase = Idle\<rparr> s"
    and "fits (map normalize_name (list_domains block)) (length (list_urls block))"
    and "fits (map normalize_name (list_domains allow)) (length (list_urls allow))"
    and "phase s = Cloning_Allow bs as" "length as = length (ds_sources (m_allow (mgr s)))"
  shows "\<exists>t. manager_step hn s t \<and> phase t = Idle"
proof -
  have inv: "manager_inv hn block allow s"
    using manager_reach_inv [OF assms(1) manager_inv_new assms(2, 3)] .
  then have "list_all (list_ok hn) bs" "list_all (list_ok hn) as"
    "fits (ds_inline (m_block (mgr s))) (length bs)" "fits (ds_inline (m_allow (mgr s))) (length as)"
    using assms by (auto simp: manager_inv_def phase_ok_def)
  from rebuild_ok [OF this(1,3,2,4)] obtain x n where "rebuild hn (mgr s) bs as = Some (x, n)" by blast
  from manager_step.publish [OF assms(4, 5) this] show ?thesis
    by (metis manager_state.select_convs(2))
qed

subsection \<open>Witnesses\<close>

definition one_blocked :: list_config where
  "one_blocked = \<lparr>list_urls = [], list_domains = [[97, 100]], refresh_interval_secs = 60\<rparr>"

definition one_allowed :: list_config where
  "one_allowed = \<lparr>list_urls = [], list_domains = [[111, 107]], refresh_interval_secs = 60\<rparr>"

lemma one_blocked_facts:
  "length [] = length (list_urls one_blocked)" "normalize_name ` set (list_domains one_blocked) = {[97, 100, 46]}"
  "fits (map normalize_name (list_domains one_blocked)) (length (list_urls one_blocked))"
proof -
  have "normalize_name [97, 100] = [97, 100, 46]" by code_simp
  then show "length [] = length (list_urls one_blocked)"
    "normalize_name ` set (list_domains one_blocked) = {[97, 100, 46]}"
    "fits (map normalize_name (list_domains one_blocked)) (length (list_urls one_blocked))"
    by (simp_all add: one_blocked_def fits_def text_size_def)
qed

lemma one_allowed_facts:
  "length [] = length (list_urls one_allowed)" "normalize_name ` set (list_domains one_allowed) = {[111, 107, 46]}"
  "fits (map normalize_name (list_domains one_allowed)) (length (list_urls one_allowed))"
proof -
  have "normalize_name [111, 107] = [111, 107, 46]" by code_simp
  then show "length [] = length (list_urls one_allowed)"
    "normalize_name ` set (list_domains one_allowed) = {[111, 107, 46]}"
    "fits (map normalize_name (list_domains one_allowed)) (length (list_urls one_allowed))"
    by (simp_all add: one_allowed_def fits_def text_size_def)
qed

theorem manager_start_publishes_witness:
  "\<exists>m. manager_start (\<lambda>_. 0) [] [] (manager_new one_blocked one_allowed) = Some m \<and>
    contains_bytes (\<lambda>_. 0) (m_merged m) [97, 100, 46] = Some True \<and>
    contains_bytes (\<lambda>_. 0) (m_merged m) [111, 107, 46] = Some False"
  using manager_start_publishes [OF one_blocked_facts(1) one_allowed_facts(1) one_blocked_facts(3)
      one_allowed_facts(3), of "\<lambda>_. 0"]
  unfolding one_blocked_facts(2) one_allowed_facts(2) by auto

definition two_blocked :: list_config where
  "two_blocked = \<lparr>list_urls = [], list_domains = [[97, 100], [111, 107]], refresh_interval_secs = 60\<rparr>"

lemma two_blocked_facts:
  "map normalize_name (list_domains two_blocked) = [[97, 100, 46], [111, 107, 46]]"
  "fits (map normalize_name (list_domains two_blocked)) (length (list_urls two_blocked))"
proof -
  have "normalize_name [97, 100] = [97, 100, 46]" "normalize_name [111, 107] = [111, 107, 46]" by code_simp+
  then show "map normalize_name (list_domains two_blocked) = [[97, 100, 46], [111, 107, 46]]"
    "fits (map normalize_name (list_domains two_blocked)) (length (list_urls two_blocked))"
    by (simp_all add: two_blocked_def fits_def text_size_def)
qed

lemma rebuilt_reachable:
  "\<exists>s. manager_reach (\<lambda>_. 0) \<lparr>mgr = manager_new two_blocked one_allowed, phase = Idle\<rparr> s \<and>
     contains_bytes (\<lambda>_. 0) (m_merged (mgr s)) [97, 100, 46] = Some True"
proof -
  define s0 where "s0 = \<lparr>mgr = manager_new two_blocked one_allowed, phase = Idle\<rparr>"
  define s1 where "s1 = s0\<lparr>phase := Cloning_Block []\<rparr>"
  define s2 where "s2 = s1\<lparr>phase := Cloning_Allow [] []\<rparr>"
  have none: "ds_sources (m_block (mgr s1)) = []" "ds_sources (m_allow (mgr s2)) = []" "phase s2 = Cloning_Allow [] []"
    and inl: "ds_inline (m_block (mgr s2)) = map normalize_name (list_domains two_blocked)"
      "ds_inline (m_allow (mgr s2)) = map normalize_name (list_domains one_allowed)"
    by (simp_all add: s0_def s1_def s2_def manager_new_def domain_set_new_def two_blocked_def one_allowed_def)
  obtain x n where x: "rebuild (\<lambda>_. 0) (mgr s2) [] [] = Some (x, n)" "index_ok (\<lambda>_. 0) x"
    "domains x = set (map normalize_name (list_domains two_blocked)) - normalize_name ` set (list_domains one_allowed) - {[]}"
    using rebuild_ok [of "\<lambda>_. 0" "[]" "mgr s2" "[]"] inl two_blocked_facts(2) one_allowed_facts(1,3)
    by (auto simp: two_blocked_def)
  have "manager_step (\<lambda>_. 0) s0 s1" unfolding s1_def by (rule manager_step.lock) (simp add: s0_def)
  moreover have "manager_step (\<lambda>_. 0) s1 s2"
    unfolding s2_def by (rule manager_step.block_done, simp add: s1_def, simp add: none(1))
  moreover have "manager_step (\<lambda>_. 0) s2 \<lparr>mgr = (mgr s2)\<lparr>m_merged := x\<rparr>, phase = Idle\<rparr>"
    by (rule manager_step.publish [OF none(3) _ x(1)]) (simp add: none(2))
  ultimately have "manager_reach (\<lambda>_. 0) s0 \<lparr>mgr = (mgr s2)\<lparr>m_merged := x\<rparr>, phase = Idle\<rparr>"
    by (blast intro: manager_reach.intros)
  moreover have "contains_bytes (\<lambda>_. 0) x [97, 100, 46] = Some True"
    using index.mem_ok [OF x(2), of "[97, 100, 46]"] x(3) two_blocked_facts(1) one_allowed_facts(2) by simp
  ultimately show ?thesis
    unfolding s0_def by (intro exI [of _ "\<lparr>mgr = (mgr s2)\<lparr>m_merged := x\<rparr>, phase = Idle\<rparr>"]) simp
qed

theorem whitelisted_never_blocked_witness:
  "\<exists>s. manager_reach (\<lambda>_. 0) \<lparr>mgr = manager_new two_blocked one_allowed, phase = Idle\<rparr> s \<and>
     contains_bytes (\<lambda>_. 0) (m_merged (mgr s)) [97, 100, 46] = Some True \<and>
     [111, 107] \<in> set (list_domains two_blocked) \<and>
     contains_bytes (\<lambda>_. 0) (m_merged (mgr s)) (normalize_name [111, 107]) = Some False"
proof -
  obtain s where s: "manager_reach (\<lambda>_. 0) \<lparr>mgr = manager_new two_blocked one_allowed, phase = Idle\<rparr> s"
    "contains_bytes (\<lambda>_. 0) (m_merged (mgr s)) [97, 100, 46] = Some True" using rebuilt_reachable by blast
  have "contains_bytes (\<lambda>_. 0) (m_merged (mgr s)) (normalize_name [111, 107]) = Some False"
    by (rule whitelisted_never_blocked [OF s(1) two_blocked_facts(2) one_allowed_facts(3)]) (simp add: one_allowed_def)
  then show ?thesis using s by (intro exI [of _ s]) (simp add: two_blocked_def)
qed

theorem rebuild_never_stuck_witness:
  "\<exists>s t. phase s = Cloning_Allow [] [] \<and> manager_step (\<lambda>_. 0) s t \<and> phase t = Idle"
proof -
  define s0 where "s0 = \<lparr>mgr = manager_new one_blocked one_allowed, phase = Idle\<rparr>"
  define s1 where "s1 = s0\<lparr>phase := Cloning_Block []\<rparr>"
  define s2 where "s2 = s1\<lparr>phase := Cloning_Allow [] []\<rparr>"
  have empty: "ds_sources (m_block (mgr s1)) = []" "ds_sources (m_allow (mgr s2)) = []"
    by (simp_all add: s0_def s1_def s2_def manager_new_def domain_set_new_def one_blocked_def one_allowed_def)
  have "manager_step (\<lambda>_. 0) s0 s1" unfolding s1_def by (rule manager_step.lock) (simp add: s0_def)
  moreover have "manager_step (\<lambda>_. 0) s1 s2"
    unfolding s2_def by (rule manager_step.block_done, simp add: s1_def, simp add: empty(1))
  ultimately have "manager_reach (\<lambda>_. 0) s0 s2"
    by (blast intro: manager_reach.intros)
  then have "\<exists>t. manager_step (\<lambda>_. 0) s2 t \<and> phase t = Idle"
    using rebuild_never_stuck [of "\<lambda>_. 0" one_blocked one_allowed s2 "[]" "[]"]
      one_blocked_facts(3) one_allowed_facts(3) empty
    by (simp add: s0_def s2_def)
  moreover have "phase s2 = Cloning_Allow [] []" by (simp add: s2_def)
  ultimately show ?thesis by blast
qed

end
