(* ===== verification/Config_Correct.thy ===== *)
theory Config_Correct
  imports Config
begin

text \<open>
  What a configuration that passes \<open>validate\<close> guarantees the rest of the program, that the
  environment reader only returns such configurations, that upstream entries are read back
  exactly as written, and what the static host map contains.
\<close>

subsection \<open>Splitting\<close>

lemma split_once_eq_None: "split_once c s = None \<longleftrightarrow> c \<notin> set s"
  by (induction s) auto

lemma split_once_eq_Some: "split_once c s = Some (l, r) \<longleftrightarrow> s = l @ c # r \<and> c \<notin> set l"
proof (induction s arbitrary: l)
  case (Cons b s)
  then show ?case by (cases l) auto
qed simp

lemma rsplit_once_eq_None: "rsplit_once c s = None \<longleftrightarrow> c \<notin> set s"
  by (simp add: rsplit_once_def split_once_eq_None)

lemma rsplit_once_eq_Some: "rsplit_once c s = Some (l, r) \<longleftrightarrow> s = l @ c # r \<and> c \<notin> set r"
proof -
  have "rsplit_once c s = Some (l, r) \<longleftrightarrow> split_once c (rev s) = Some (rev r, rev l)"
    by (auto simp: rsplit_once_def)
  also have "\<dots> \<longleftrightarrow> rev s = rev (l @ c # r) \<and> c \<notin> set r"
    by (simp add: split_once_eq_Some)
  finally show ?thesis by (simp only: rev_is_rev_conv)
qed

lemma strip_prefix_append [simp]: "strip_prefix p (p @ s) = Some s"
  by (simp add: strip_prefix_def)

lemma strip_prefix_eq_Some: "strip_prefix p s = Some r \<longleftrightarrow> s = p @ r"
  by (auto simp: strip_prefix_def) (metis append_take_drop_id)

subsection \<open>Decimal numbers\<close>

function nat_text :: "nat \<Rightarrow> bytes" where
  "nat_text n = (if n < 10 then [digit n] else nat_text (n div 10) @ [digit (n mod 10)])"
  by auto
termination by (relation "measure id") auto

declare nat_text.simps [simp del]

lemma uint_digits_append:
  "uint_digits bound acc (s @ t) = Option.bind (uint_digits bound acc s) (\<lambda>a. uint_digits bound a t)"
  by (induction bound acc s rule: uint_digits.induct) (auto split: option.split)

lemma uint_digits_nat_text: "n < bound \<Longrightarrow> uint_digits bound 0 (nat_text n) = Some n"
proof (induction n rule: nat_text.induct)
  case (1 n)
  show ?case
  proof (cases "n < 10")
    case True
    then show ?thesis using 1 by (subst nat_text.simps) simp
  next
    case False
    then have "uint_digits bound 0 (nat_text (n div 10)) = Some (n div 10)"
      using 1 by (meson div_le_dividend order_le_less_trans)
    moreover have "n div 10 * 10 + n mod 10 = n" by (rule div_mult_mod_eq)
    ultimately show ?thesis
      using False "1.prems" by (subst nat_text.simps) (simp add: uint_digits_append)
  qed
qed

lemma nat_text_digits: "set (nat_text n) \<subseteq> digit ` {0..<10}"
proof (induction n rule: nat_text.induct)
  case (1 n)
  then show ?case by (subst nat_text.simps) (auto intro!: imageI)
qed

lemma nat_text_not: "c \<in> {35, 43, 58} \<Longrightarrow> c \<notin> set (nat_text n)"
proof
  assume c: "c \<in> {35, 43, 58}" and "c \<in> set (nat_text n)"
  then obtain d where "d < 10" "c = digit d" using nat_text_digits [of n] by auto
  then have "unat c = 48 + d" by (simp add: unat_digit)
  then show False using c \<open>d < 10\<close> by auto
qed

lemma nat_text_nonempty [simp]: "nat_text n \<noteq> []"
  by (subst nat_text.simps) simp

lemma parse_uint_nat_text: "n < bound \<Longrightarrow> parse_uint bound (nat_text n) = Some n"
  using uint_digits_nat_text [of n bound] nat_text_not [of 43 n]
  by (cases "nat_text n") (auto simp: parse_uint_def)

subsection \<open>Upstream entries\<close>

lemma tls_not_https: "strip_prefix (bytes_of ''https://'') (bytes_of ''tls://'' @ s) = None"
  by (simp add: strip_prefix_def bytes_of_def)

lemma upstream_parse_tls:
  assumes "35 \<notin> set host" "35 \<notin> set port" "58 \<notin> set port" "parse_uint (2 ^ 16) port = Some p"
  shows "upstream_config_parse (bytes_of ''tls://'' @ host @ 58 # port)
      = Inr (Dot host (of_nat p) host)"
    and "upstream_config_parse (bytes_of ''tls://'' @ host @ 58 # port @ 35 # name)
      = Inr (Dot host (of_nat p) name)"
proof -
  have r: "rsplit_once 58 (host @ 58 # port) = Some (host, port)"
    using assms by (simp add: rsplit_once_eq_Some)
  have "split_once 35 (host @ 58 # port) = None"
    using assms by (simp add: split_once_eq_None)
  then show "upstream_config_parse (bytes_of ''tls://'' @ host @ 58 # port)
      = Inr (Dot host (of_nat p) host)"
    using r assms(4) by (simp add: upstream_config_parse_def tls_not_https)
  have "split_once 35 (host @ 58 # port @ 35 # name) = Some (host @ 58 # port, name)"
    using assms by (simp add: split_once_eq_Some)
  then show "upstream_config_parse (bytes_of ''tls://'' @ host @ 58 # port @ 35 # name)
      = Inr (Dot host (of_nat p) name)"
    using r assms(4) by (simp add: upstream_config_parse_def tls_not_https)
qed

definition upstream_text :: "upstream_config \<Rightarrow> bytes" where
  "upstream_text u =
     (case u of
        Doh url \<Rightarrow> url
      | Dot host port name \<Rightarrow>
          bytes_of ''tls://'' @ host @ 58 # nat_text (unat port) @
          (if name = host then [] else 35 # name))"

definition upstream_ok :: "upstream_config \<Rightarrow> bool" where
  "upstream_ok u \<longleftrightarrow>
     (case u of
        Doh url \<Rightarrow> strip_prefix (bytes_of ''https://'') url \<noteq> None
      | Dot host port name \<Rightarrow> 35 \<notin> set host)"

text \<open>
  C38. Upstream entries round-trip: a DoH URL, and a DoT host and port written
  \<open>tls://host:port\<close>, followed by \<open>#name\<close> when the TLS name differs from the host, are read back
  as they were (the host must not contain \<open>#\<close>; colons, as in IPv6 literals, are allowed).
\<close>

theorem upstream_parse_text:
  assumes "upstream_ok u"
  shows "upstream_config_parse (upstream_text u) = Inr u"
proof (cases u)
  case (Doh url)
  then show ?thesis
    using assms by (simp add: upstream_ok_def upstream_text_def upstream_config_parse_def)
next
  case (Dot host port name)
  have "unat port < 2 ^ 16" using unsigned_less [of port, where ?'a = nat] by simp
  then have "parse_uint (2 ^ 16) (nat_text (unat port)) = Some (unat port)"
    by (rule parse_uint_nat_text)
  then show ?thesis
    using assms upstream_parse_tls(1) [of host "nat_text (unat port)" "unat port"]
      upstream_parse_tls(2) [of host "nat_text (unat port)" "unat port" name] Dot
      nat_text_not [of 35 "unat port"] nat_text_not [of 58 "unat port"]
    by (simp add: upstream_ok_def upstream_text_def)
qed

theorem upstream_parse_text_witness:
  "upstream_config_parse (upstream_text (Dot (bytes_of ''1.1.1.1'') 853 (bytes_of ''one.one.one.one'')))
    = Inr (Dot (bytes_of ''1.1.1.1'') 853 (bytes_of ''one.one.one.one''))"
  by (rule upstream_parse_text) (simp add: upstream_ok_def bytes_of_def)

subsection \<open>Validation\<close>

lemma mapE_eq_Inr: "mapE f xs = Inr ys \<longleftrightarrow> list_all2 (\<lambda>x y. f x = Inr y) xs ys"
  by (induction xs arbitrary: ys) (auto simp: and_then_eq_Inr list_all2_Cons1)

lemma validate_iff:
  "validate ft fs c = Inr () \<longleftrightarrow>
     upstream_urls (upstream c) \<noteq> [] \<and> (\<exists>us. parsed_upstreams c = Inr us) \<and>
     (\<not> f_certless ft \<and> (f_dot ft \<or> f_doh ft) \<longrightarrow>
        is_file fs (tls_cert (server c)) \<and> is_file fs (tls_key (server c))) \<and>
     (f_dot ft \<and> f_doh ft \<longrightarrow> dot_port (server c) \<noteq> doh_port (server c)) \<and>
     (cache_enabled (cache c) \<longrightarrow> unat (max_size_bytes (cache c)) \<le> 2 ^ 30) \<and>
     (list_urls (blocklists c) \<noteq> [] \<longrightarrow> refresh_interval_secs (blocklists c) \<noteq> 0) \<and>
     (list_urls (whitelist c) \<noteq> [] \<longrightarrow> refresh_interval_secs (whitelist c) \<noteq> 0)"
  by (auto simp: validate_def and_then_eq_Inr split: if_splits)

subsection \<open>The environment reader\<close>

lemma foldE_preserves:
  "foldE (\<lambda>step. step) steps c = Inr c' \<Longrightarrow> P c \<Longrightarrow>
     (\<And>step c c'. step \<in> set steps \<Longrightarrow> P c \<Longrightarrow> step c = Inr c' \<Longrightarrow> P c') \<Longrightarrow> P c'"
  by (induction steps arbitrary: c) (auto simp: and_then_eq_Inr)

lemma foldE_append: "foldE f (xs @ ys) s = and_then (foldE f xs s) (foldE f ys)"
proof (induction xs arbitrary: s)
  case (Cons x xs)
  then show ?case by (cases "f x s") simp_all
qed simp

lemma default_size_bounds:
  "2 ^ 20 \<le> default_max_size_bytes ft fs \<and> default_max_size_bytes ft fs \<le> 2 ^ 26"
  by (auto simp: default_max_size_bytes_def split: option.split)

lemma set_opt_keeps:
  assumes "set_opt r upd c = Inr c'" "P c" "\<And>x. P (upd x c)"
  shows "P c'"
  using assms by (auto simp: set_opt_def and_then_eq_Inr split: option.splits)

lemma add_static_host_cache: "add_static_host e c = Inr c' \<Longrightarrow> cache c' = cache c"
  by (auto simp: add_static_host_def split: option.splits prod.splits)

lemma set_static_hosts_cache: "set_static_hosts env c = Inr c' \<Longrightarrow> cache c' = cache c"
proof -
  have "foldE add_static_host es c = Inr c' \<Longrightarrow> cache c' = cache c" for es c
    by (induction es arbitrary: c) (auto simp: and_then_eq_Inr dest: add_static_host_cache)
  then show "set_static_hosts env c = Inr c' \<Longrightarrow> cache c' = cache c"
    by (auto simp: set_static_hosts_def and_then_eq_Inr split: option.splits)
qed

lemma env_steps_size:
  assumes "step \<in> set (butlast (env_steps ft env))" "step c = Inr c'"
  shows "max_size_bytes (cache c') = max_size_bytes (cache c)"
  using assms unfolding env_steps_def
  by (auto split: if_splits dest: set_static_hosts_cache
      elim!: set_opt_keeps [where P = "\<lambda>c'. max_size_bytes (cache c') = max_size_bytes (cache c)" for c])

lemma from_env_size:
  assumes "from_env ft fs env = Inr c" "cache_enabled (cache c)"
  shows "2 ^ 20 \<le> unat (max_size_bytes (cache c))"
proof -
  obtain c0 c1 where base: "env_base ft fs env = Inr c0"
    and steps: "foldE (\<lambda>s. s) (butlast (env_steps ft env)) c0 = Inr c1"
    and last: "set_cache_size env c1 = Inr c"
  proof -
    have "env_steps ft env = butlast (env_steps ft env) @ [set_cache_size env]"
      by (simp add: env_steps_def)
    then have "foldE (\<lambda>s. s) (env_steps ft env) c0 = and_then (foldE (\<lambda>s. s) (butlast (env_steps ft env)) c0)
        (foldE (\<lambda>s. s) [set_cache_size env])" for c0
      by (metis foldE_append)
    with assms(1) that show thesis
      by (auto simp: from_env_def and_then_eq_Inr)
  qed
  have "unat (max_size_bytes (cache c0)) = default_max_size_bytes ft fs"
    using base default_size_bounds [of ft fs]
    by (auto simp: env_base_def and_then_eq_Inr unat_of_nat)
  moreover have "max_size_bytes (cache c1) = max_size_bytes (cache c0)"
    by (rule foldE_preserves [OF steps, where P = "\<lambda>c. max_size_bytes (cache c) = max_size_bytes (cache c0)"])
      (simp_all add: env_steps_size)
  ultimately have "2 ^ 20 \<le> unat (max_size_bytes (cache c1))"
    using default_size_bounds [of ft fs] by simp
  then show ?thesis
    using last assms(2) by (auto simp: set_cache_size_def and_then_eq_Inr split: option.splits if_splits)
qed

text \<open>
  C37. Every configuration \<open>from_env\<close> returns is usable: it has at least one upstream and every
  upstream entry parses, the two listeners have different ports, the certificate and key exist
  unless the build is certless, no list with URLs is refreshed every 0 seconds, and an enabled
  cache has between 1 MiB and 1 GiB.
\<close>

theorem from_env_usable:
  assumes "from_env ft fs env = Inr c"
  shows "upstream_urls (upstream c) \<noteq> []
    \<and> (\<exists>us. parsed_upstreams c = Inr us \<and> length us = length (upstream_urls (upstream c)))
    \<and> (\<not> f_certless ft \<and> (f_dot ft \<or> f_doh ft) \<longrightarrow>
         is_file fs (tls_cert (server c)) \<and> is_file fs (tls_key (server c)))
    \<and> (f_dot ft \<and> f_doh ft \<longrightarrow> dot_port (server c) \<noteq> doh_port (server c))
    \<and> (cache_enabled (cache c) \<longrightarrow>
         2 ^ 20 \<le> unat (max_size_bytes (cache c)) \<and> unat (max_size_bytes (cache c)) \<le> 2 ^ 30)
    \<and> (list_urls (blocklists c) \<noteq> [] \<longrightarrow> refresh_interval_secs (blocklists c) \<noteq> 0)
    \<and> (list_urls (whitelist c) \<noteq> [] \<longrightarrow> refresh_interval_secs (whitelist c) \<noteq> 0)"
proof -
  have v: "validate ft fs c = Inr ()"
    using assms by (auto simp: from_env_def and_then_eq_Inr)
  have "parsed_upstreams c = Inr us \<Longrightarrow> length us = length (upstream_urls (upstream c))" for us
    by (auto simp: parsed_upstreams_def mapE_eq_Inr dest: list_all2_lengthD)
  then show ?thesis
    using v [unfolded validate_iff] from_env_size [OF assms] by blast
qed

definition container_features :: features where
  "container_features = \<lparr>f_dot = True, f_doh = True, f_certless = True, f_serverless = True\<rparr>"

definition no_files :: file_system where
  "no_files = \<lparr>read_file = \<lambda>_. None, is_file = \<lambda>_. False\<rparr>"

text \<open>The configuration of a certless container with no variable set.\<close>

definition default_config :: "features \<Rightarrow> file_system \<Rightarrow> config" where
  "default_config ft fs =
     \<lparr>server = \<lparr>bind_address = V4 (0, 0, 0, 0), dot_port = 8853, doh_port = 8053,
                tls_cert = [], tls_key = [], default_ttl = 300\<rparr>,
      blocking = \<lparr>mode = Nxdomain, sinkhole_ip = (0, 0, 0, 0)\<rparr>,
      blocklists = default_list, whitelist = default_list, static_hosts = [],
      upstream = \<lparr>strategy = Hedged,
                  upstream_urls = [bytes_of ''https://cloudflare-dns.com/dns-query'']\<rparr>,
      cache = \<lparr>cache_enabled = True, max_size_bytes = of_nat (default_max_size_bytes ft fs)\<rparr>\<rparr>"

lemma env_unset [simp]:
  "env_value (\<lambda>_. Unset) n = Inr None" "env_list (\<lambda>_. Unset) n = Inr None"
  "env_parse p (\<lambda>_. Unset) n = Inr None"
  by (simp_all add: env_value_def env_list_def env_parse_def)

lemma set_opt_None [simp]: "set_opt (Inr None) upd c = Inr c"
  by (simp add: set_opt_def)

text \<open>
  A certless build needs no variable at all: \<open>from_env\<close> then returns the default
  configuration, with the cache budget derived from the memory limit.
\<close>

theorem from_env_unset:
  assumes "f_certless ft"
  shows "from_env ft fs (\<lambda>_. Unset) = Inr (default_config ft fs)"
proof -
  have base: "env_base ft fs (\<lambda>_. Unset) = Inr (default_config ft fs)"
    using assms
    by (simp add: env_base_def required_def default_config_def default_bind_address_def
        default_dot_port_def default_doh_port_def default_server_ttl_def default_blocking_def)
  have steps: "foldE (\<lambda>step. step) (env_steps ft (\<lambda>_. Unset)) c = Inr c" for c
    by (simp add: env_steps_def doh_port_value_def set_static_hosts_def set_cache_size_def)
  have "unat (of_nat (default_max_size_bytes ft fs) :: u64) \<le> 2 ^ 30"
    using default_size_bounds [of ft fs] by (simp add: unat_of_nat)
  moreover have "parsed_upstreams (default_config ft fs) =
      Inr [Doh (bytes_of ''https://cloudflare-dns.com/dns-query'')]"
    by (simp add: parsed_upstreams_def default_config_def upstream_config_parse_def strip_prefix_def
        bytes_of_def)
  ultimately have "validate ft fs (default_config ft fs) = Inr ()"
    using assms unfolding validate_iff by (simp add: default_config_def default_list_def)
  then show ?thesis by (simp add: from_env_def base steps)
qed

theorem from_env_unset_witness:
  "from_env container_features no_files (\<lambda>_. Unset) = Inr (default_config container_features no_files)"
  by (rule from_env_unset) (simp add: container_features_def)

theorem from_env_usable_witness:
  "from_env container_features no_files (\<lambda>_. Unset) = Inr (default_config container_features no_files)
    \<and> 2 ^ 20 \<le> unat (max_size_bytes (cache (default_config container_features no_files)))"
proof -
  have "from_env container_features no_files (\<lambda>_. Unset) = Inr (default_config container_features no_files)"
  proof -
    have "env_base container_features no_files (\<lambda>_. Unset) = Inr (default_config container_features no_files)"
      by (simp add: container_features_def env_base_def required_def default_config_def
          default_bind_address_def default_dot_port_def default_doh_port_def default_server_ttl_def
          default_blocking_def)
    then show ?thesis
      by (simp add: from_env_def env_steps_def doh_port_value_def set_static_hosts_def set_cache_size_def)
        (simp add: validate_def parsed_upstreams_def upstream_config_parse_def strip_prefix_def bytes_of_def
          default_config_def default_list_def container_features_def default_max_size_bytes_def
          memory_limit_bytes_def no_files_def)
  qed
  moreover note from_env_usable [OF this]
  ultimately show ?thesis by (simp add: default_config_def)
qed

subsection \<open>Static hosts\<close>

lemma static_hosts_map_of:
  "static_hosts_map c = map_of (rev (map (\<lambda>(d, ip). (normalize_name d,
     \<lparr>host_ip = ip, host_ttl = default_ttl (server c)\<rparr>)) (static_hosts c)))"
proof -
  have "fold (\<lambda>(d, ip) m. m(normalize_name d \<mapsto> \<lparr>host_ip = ip, host_ttl = t\<rparr>)) hs m =
    m ++ map_of (rev (map (\<lambda>(d, ip). (normalize_name d, \<lparr>host_ip = ip, host_ttl = t\<rparr>)) hs))" for hs m t
    by (induction hs arbitrary: m) (auto simp: map_add_assoc)
  then show ?thesis by (simp add: static_hosts_map_def)
qed

text \<open>
  The static host map has exactly the configured hosts, under their normalized names, with
  the default TTL, whatever the iteration order of the configuration's hash map, provided that
  no two configured names have the same normal form.
\<close>

lemma static_hosts_map_exact:
  assumes "distinct (map (normalize_name \<circ> fst) (static_hosts c))"
  shows "static_hosts_map c q = Some h \<longleftrightarrow>
    (\<exists>d ip. (d, ip) \<in> set (static_hosts c) \<and> q = normalize_name d \<and>
       h = \<lparr>host_ip = ip, host_ttl = default_ttl (server c)\<rparr>)"
proof -
  have "distinct (map fst (rev (map (\<lambda>(d, ip). (normalize_name d,
      \<lparr>host_ip = ip, host_ttl = default_ttl (server c)\<rparr>)) (static_hosts c))))"
    using assms by (simp add: rev_map [symmetric] comp_def case_prod_unfold)
  then show ?thesis
    unfolding static_hosts_map_of by (subst map_of_eq_Some_iff) auto
qed

definition hosts_config :: "(bytes \<times> ipv4) list \<Rightarrow> config" where
  "hosts_config hs = (default_config container_features no_files)\<lparr>static_hosts := hs\<rparr>"

text \<open>
  Two spellings of one name make the static answer depend on the iteration order of the hash
  map the configuration was read into: the same entries in two orders give different maps.
\<close>

theorem static_hosts_order_dependent:
  "set (static_hosts (hosts_config [(bytes_of ''nas'', (10, 0, 0, 1)), (bytes_of ''NAS.'', (10, 0, 0, 2))]))
     = set (static_hosts (hosts_config [(bytes_of ''NAS.'', (10, 0, 0, 2)), (bytes_of ''nas'', (10, 0, 0, 1))]))
   \<and> static_hosts_map (hosts_config [(bytes_of ''nas'', (10, 0, 0, 1)), (bytes_of ''NAS.'', (10, 0, 0, 2))])
       (bytes_of ''nas.'') = Some \<lparr>host_ip = (10, 0, 0, 2), host_ttl = 300\<rparr>
   \<and> static_hosts_map (hosts_config [(bytes_of ''NAS.'', (10, 0, 0, 2)), (bytes_of ''nas'', (10, 0, 0, 1))])
       (bytes_of ''nas.'') = Some \<lparr>host_ip = (10, 0, 0, 1), host_ttl = 300\<rparr>"
proof -
  have "normalize_name (bytes_of ''nas'') = bytes_of ''nas.''"
    "normalize_name (bytes_of ''NAS.'') = bytes_of ''nas.''" by code_simp+
  then show ?thesis
    by (auto simp: static_hosts_map_def hosts_config_def default_config_def)
qed

end
