(* ===== verification/Cache.thy ===== *)
theory Cache
  imports Wire
begin

text \<open>
  The response cache of \<open>dns/cache.rs\<close>: one byte pool with an allocator, an open-addressed table of
  hashes and slab indices, a slab of entry records, and an LRU list threaded through the slab by
  \<open>u32\<close> indices.

  Every operation is in the option monad, where \<open>None\<close> is a panic (an index out of range, a dead
  slab index, an arithmetic underflow, an \<open>unreachable!\<close>) or a loop that does not end; a probing
  loop has as fuel the number of slots and the eviction loop one more than the number of entries.
  Times are nanoseconds; each \<open>Instant::now()\<close> is an argument. The hash function (\<open>FxHasher\<close>) and
  the allocator (\<open>linked_list_allocator\<close>) are parameters, the fields of \<open>cache_env\<close>. The allocator
  keeps its free list in the free parts of the pool, so its operations also change the pool.
\<close>

subsection \<open>State\<close>

abbreviation (input) EMPTY :: u32 where "EMPTY \<equiv> - 1"
abbreviation (input) TOMBSTONE :: u32 where "TOMBSTONE \<equiv> - 2"
abbreviation (input) NONE :: u32 where "NONE \<equiv> - 1"
abbreviation (input) MIN_POOL_BYTES :: nat where "MIN_POOL_BYTES \<equiv> 64"
abbreviation (input) SWEEP_BATCH :: nat where "SWEEP_BATCH \<equiv> 256"
abbreviation (input) REFRESH_CONCURRENCY :: nat where "REFRESH_CONCURRENCY \<equiv> 4"
abbreviation (input) REFRESH_SCAN_LIMIT :: nat where "REFRESH_SCAN_LIMIT \<equiv> 1024"
abbreviation (input) secs :: "nat \<Rightarrow> nat" where "secs n \<equiv> n * 10 ^ 9"
abbreviation (input) millis :: "nat \<Rightarrow> nat" where "millis n \<equiv> n * 10 ^ 6"
abbreviation (input) REFRESH_IDLE_LIMIT :: nat where "REFRESH_IDLE_LIMIT \<equiv> secs 300"
abbreviation (input) SERVE_STALE_WINDOW :: nat where "SERVE_STALE_WINDOW \<equiv> secs 30"

type_synonym instant = nat
type_synonym ('rt, 'cl) cache_key = "bytes \<times> 'rt \<times> 'cl \<times> u8"

record key_slot =
  ks_hash :: u64
  ks_entry :: u32

record ('rt, 'cl) entry_meta =
  offset :: nat
  nm_len :: u16
  wire_len :: u32
  request_len :: u16
  record_type :: 'rt
  dns_class :: 'cl
  flags :: u8
  expires_at :: instant
  stale_until :: instant
  original_ttl :: nat
  last_used :: instant
  retry_after :: instant
  reused :: bool
  refresh_failures :: u8
  refresh_claimed :: bool
  lru_prev :: u32
  lru_next :: u32
  table_slot :: u32

record 'h heap_ops =
  heap_new :: "bytes \<Rightarrow> 'h \<times> bytes"
  heap_empty :: 'h
  allocate_first_fit :: "'h \<Rightarrow> bytes \<Rightarrow> nat \<Rightarrow> nat option \<times> 'h \<times> bytes"
  deallocate :: "'h \<Rightarrow> bytes \<Rightarrow> nat \<Rightarrow> nat \<Rightarrow> 'h \<times> bytes"

record ('h, 'rt, 'cl) cache_env =
  key_hash :: "('rt, 'cl) cache_key \<Rightarrow> u64"
  heap_impl :: "'h heap_ops"

record ('h, 'rt, 'cl) cache_state =
  pool :: bytes
  heap :: 'h
  table :: "key_slot list"
  table_len :: nat
  tombstones :: nat
  entries :: "('rt, 'cl) entry_meta option list"
  free_entries :: "u32 list"
  lru_head :: u32
  lru_tail :: u32

record ('h, 'rt, 'cl) response_cache =
  enabled :: bool
  refresh_slots :: nat
  state :: "('h, 'rt, 'cl) cache_state"

datatype located = Found u32 | Vacant nat

abbreviation (input) EMPTY_KEY_SLOT :: key_slot where
  "EMPTY_KEY_SLOT \<equiv> \<lparr>ks_hash = 0, ks_entry = EMPTY\<rparr>"

definition response_cache_new ::
  "('h, 'rt, 'cl) cache_env \<Rightarrow> bool \<Rightarrow> nat \<Rightarrow> ('h, 'rt, 'cl) response_cache" where
  "response_cache_new env en max_size_bytes =
     (let en = (en \<and> max_size_bytes \<ge> MIN_POOL_BYTES);
          sz = (if en then max_size_bytes else 0);
          p = replicate sz 0;
          (h, p) = (if sz > 0 then heap_new (heap_impl env) p else (heap_empty (heap_impl env), p))
      in \<lparr>enabled = en, refresh_slots = REFRESH_CONCURRENCY,
          state = \<lparr>pool = p, heap = h, table = replicate 64 EMPTY_KEY_SLOT, table_len = 0,
                   tombstones = 0, entries = [], free_entries = [], lru_head = NONE, lru_tail = NONE\<rparr>\<rparr>)"

subsection \<open>Entries\<close>

definition entry :: "('h, 'rt, 'cl) cache_state \<Rightarrow> u32 \<Rightarrow> ('rt, 'cl) entry_meta option" where
  "entry st i = Option.bind (get (entries st) (unat i)) id"

definition entry_mut ::
  "(('rt, 'cl) entry_meta \<Rightarrow> ('rt, 'cl) entry_meta) \<Rightarrow> u32 \<Rightarrow> ('h, 'rt, 'cl) cache_state
    \<Rightarrow> ('h, 'rt, 'cl) cache_state option" where
  "entry_mut f i st = do {
     m \<leftarrow> entry st i;
     Some (st\<lparr>entries := (entries st)[unat i := Some (f m)]\<rparr>)
   }"

definition entry_name :: "('h, 'rt, 'cl) cache_state \<Rightarrow> u32 \<Rightarrow> bytes option" where
  "entry_name st i = do {
     m \<leftarrow> entry st i;
     get_range (pool st) (offset m) (offset m + unat (nm_len m))
   }"

definition key_matches ::
  "('h, 'rt, 'cl) cache_state \<Rightarrow> u32 \<Rightarrow> ('rt, 'cl) cache_key \<Rightarrow> bool option" where
  "key_matches st i k =
     (case k of (name, rt, cl, fl) \<Rightarrow> do {
        m \<leftarrow> entry st i;
        if record_type m = rt \<and> dns_class m = cl \<and> flags m = fl
        then do { n \<leftarrow> entry_name st i; Some (n = name) }
        else Some False
      })"

subsection \<open>The table\<close>

fun locate_loop ::
  "('h, 'rt, 'cl) cache_state \<Rightarrow> u64 \<Rightarrow> ('rt, 'cl) cache_key \<Rightarrow> nat \<Rightarrow> nat \<Rightarrow> nat option \<Rightarrow> located option"
where
  "locate_loop st h k 0 slot first_tombstone = None" |
  "locate_loop st h k (Suc fuel) slot first_tombstone = do {
     candidate \<leftarrow> get (table st) slot;
     let next_slot = (slot + 1) AND (length (table st) - 1);
     if ks_entry candidate = EMPTY
     then Some (Vacant (case first_tombstone of Some t \<Rightarrow> t | None \<Rightarrow> slot))
     else if ks_entry candidate = TOMBSTONE
     then locate_loop st h k fuel next_slot
            (case first_tombstone of Some t \<Rightarrow> Some t | None \<Rightarrow> Some slot)
     else do {
       hit \<leftarrow> (if ks_hash candidate = h then key_matches st (ks_entry candidate) k else Some False);
       if hit then Some (Found (ks_entry candidate))
       else locate_loop st h k fuel next_slot first_tombstone
     }
   }"

definition locate ::
  "('h, 'rt, 'cl) cache_state \<Rightarrow> u64 \<Rightarrow> ('rt, 'cl) cache_key \<Rightarrow> located option" where
  "locate st h k = locate_loop st h k (length (table st)) (unat h AND (length (table st) - 1)) None"

definition rehash_entry ::
  "('h, 'rt, 'cl) cache_env \<Rightarrow> nat \<Rightarrow> ('h, 'rt, 'cl) cache_state \<Rightarrow> ('h, 'rt, 'cl) cache_state option" where
  "rehash_entry env i st =
     (let index = of_nat i :: u32 in do {
        slot \<leftarrow> get (entries st) (unat index);
        if slot = None then Some st
        else do {
          m \<leftarrow> entry st index;
          name \<leftarrow> entry_name st index;
          let k = (name, record_type m, dns_class m, flags m);
          let h = key_hash env k;
          found \<leftarrow> locate st h k;
          (case found of
             Found _ \<Rightarrow> None
           | Vacant slot \<Rightarrow>
               entry_mut (\<lambda>m. m\<lparr>table_slot := of_nat slot\<rparr>) index
                 (st\<lparr>table := (table st)[slot := \<lparr>ks_hash = h, ks_entry = index\<rparr>],
                     table_len := table_len st + 1\<rparr>))
        }
      })"

definition rehash ::
  "('h, 'rt, 'cl) cache_env \<Rightarrow> nat \<Rightarrow> ('h, 'rt, 'cl) cache_state \<Rightarrow> ('h, 'rt, 'cl) cache_state option" where
  "rehash env new_len st =
     foldM (rehash_entry env) [0..<length (entries st)]
       (st\<lparr>table := replicate new_len EMPTY_KEY_SLOT, table_len := 0, tombstones := 0\<rparr>)"

definition ensure_table_capacity ::
  "('h, 'rt, 'cl) cache_env \<Rightarrow> ('h, 'rt, 'cl) cache_state \<Rightarrow> ('h, 'rt, 'cl) cache_state option" where
  "ensure_table_capacity env st =
     (if (table_len st + tombstones st + 1) * 4 < length (table st) * 3 then Some st
      else rehash env
             (if tombstones st > table_len st div 2 then length (table st) else length (table st) * 2) st)"

subsection \<open>The slab and the LRU list\<close>

text \<open>\<open>free_entries\<close> is a stack whose top is the end of the list, as in a \<open>Vec\<close>.\<close>

definition alloc_entry ::
  "('rt, 'cl) entry_meta \<Rightarrow> ('h, 'rt, 'cl) cache_state \<Rightarrow> (u32 \<times> ('h, 'rt, 'cl) cache_state) option" where
  "alloc_entry m st =
     (if free_entries st \<noteq> [] then
        (let index = last (free_entries st)
         in if unat index < length (entries st)
            then Some (index, st\<lparr>free_entries := butlast (free_entries st),
                                 entries := (entries st)[unat index := Some m]\<rparr>)
            else None)
      else Some (of_nat (length (entries st)), st\<lparr>entries := entries st @ [Some m]\<rparr>))"

definition unlink :: "u32 \<Rightarrow> ('h, 'rt, 'cl) cache_state \<Rightarrow> ('h, 'rt, 'cl) cache_state option" where
  "unlink e st = do {
     m \<leftarrow> entry st e;
     st \<leftarrow> (if lru_prev m = NONE then Some (st\<lparr>lru_head := lru_next m\<rparr>)
           else entry_mut (\<lambda>p. p\<lparr>lru_next := lru_next m\<rparr>) (lru_prev m) st);
     (if lru_next m = NONE then Some (st\<lparr>lru_tail := lru_prev m\<rparr>)
      else entry_mut (\<lambda>n. n\<lparr>lru_prev := lru_prev m\<rparr>) (lru_next m) st)
   }"

definition attach_front :: "u32 \<Rightarrow> ('h, 'rt, 'cl) cache_state \<Rightarrow> ('h, 'rt, 'cl) cache_state option" where
  "attach_front e st = do {
     let old_head = lru_head st;
     st \<leftarrow> entry_mut (\<lambda>m. m\<lparr>lru_prev := NONE, lru_next := old_head\<rparr>) e st;
     st \<leftarrow> (if old_head \<noteq> NONE then entry_mut (\<lambda>m. m\<lparr>lru_prev := e\<rparr>) old_head st else Some st);
     let st = st\<lparr>lru_head := e\<rparr>;
     Some (if lru_tail st = NONE then st\<lparr>lru_tail := e\<rparr> else st)
   }"

definition touch :: "u32 \<Rightarrow> ('h, 'rt, 'cl) cache_state \<Rightarrow> ('h, 'rt, 'cl) cache_state option" where
  "touch e st =
     (if lru_head st = e then Some st
      else do { st \<leftarrow> unlink e st; attach_front e st })"

definition total_len :: "('rt, 'cl) entry_meta \<Rightarrow> nat" where
  "total_len m = unat (nm_len m) + unat (wire_len m) + unat (request_len m)"

definition evict ::
  "('h, 'rt, 'cl) cache_env \<Rightarrow> u32 \<Rightarrow> ('h, 'rt, 'cl) cache_state \<Rightarrow> ('h, 'rt, 'cl) cache_state option" where
  "evict env e st = do {
     st \<leftarrow> unlink e st;
     m \<leftarrow> entry st e;
     let st = st\<lparr>entries := (entries st)[unat e := None]\<rparr>;
     let slot = unat (table_slot m);
     c \<leftarrow> get (table st) slot;
     let st = st\<lparr>table := (table st)[slot := c\<lparr>ks_entry := TOMBSTONE\<rparr>]\<rparr>;
     if table_len st = 0 then None
     else do {
       let (h, p) = deallocate (heap_impl env) (heap st) (pool st) (offset m) (total_len m);
       Some (st\<lparr>table_len := table_len st - 1, tombstones := tombstones st + 1, heap := h, pool := p,
                free_entries := free_entries st @ [e]\<rparr>)
     }
   }"

definition evict_one_for_space ::
  "('h, 'rt, 'cl) cache_env \<Rightarrow> ('h, 'rt, 'cl) cache_state \<Rightarrow> (bool \<times> ('h, 'rt, 'cl) cache_state) option"
where
  "evict_one_for_space env st =
     (let victim = lru_tail st
      in if victim = NONE then Some (False, st)
         else do { st \<leftarrow> evict env victim st; Some (True, st) })"

subsection \<open>Lookup\<close>

definition get_with_flags ::
  "('h, 'rt, 'cl) cache_env \<Rightarrow> instant \<Rightarrow> ('rt, 'cl) cache_key \<Rightarrow> ('h, 'rt, 'cl) response_cache
    \<Rightarrow> ((bytes \<times> bool \<times> bool) option \<times> ('h, 'rt, 'cl) response_cache) option" where
  "get_with_flags env now k c =
     (if \<not> enabled c \<or> length (fst k) > 255 then Some (None, c)
      else do {
        let st = state c;
        found \<leftarrow> locate st (key_hash env k) k;
        (case found of
           Vacant _ \<Rightarrow> Some (None, c)
         | Found e \<Rightarrow> do {
             m \<leftarrow> entry st e;
             if stale_until m \<le> now
             then do { st \<leftarrow> evict env e st; Some (None, c\<lparr>state := st\<rparr>) }
             else do {
               st \<leftarrow> touch e st;
               m \<leftarrow> entry st e;
               let stale = (expires_at m \<le> now);
               let should_refresh = (\<not> refresh_claimed m \<and> retry_after m \<le> now \<and>
                 (stale \<or> expires_at m - now \<le> original_ttl m div 10));
               st \<leftarrow> entry_mut (\<lambda>m. m\<lparr>last_used := now, reused := True,
                 refresh_claimed := (refresh_claimed m \<or> should_refresh)\<rparr>) e st;
               let elapsed = original_ttl m - (expires_at m - now);
               let wire_start = offset m + unat (nm_len m);
               wire \<leftarrow> get_range (pool st) wire_start (wire_start + unat (wire_len m));
               let (_, wire) = age_ttls wire (of_nat (min (elapsed div 10 ^ 9) (2 ^ 32 - 1))) stale;
               Some (Some (wire, should_refresh, stale), c\<lparr>state := st\<rparr>)
             }
           })
      })"

subsection \<open>Insertion\<close>

fun alloc_loop ::
  "('h, 'rt, 'cl) cache_env \<Rightarrow> nat \<Rightarrow> nat \<Rightarrow> ('h, 'rt, 'cl) cache_state
    \<Rightarrow> (nat option \<times> ('h, 'rt, 'cl) cache_state) option" where
  "alloc_loop env sz 0 st = None" |
  "alloc_loop env sz (Suc fuel) st =
     (let (r, h, p) = allocate_first_fit (heap_impl env) (heap st) (pool st) sz;
          st = st\<lparr>heap := h, pool := p\<rparr>
      in case r of
           Some off \<Rightarrow> Some (Some off, st)
         | None \<Rightarrow> do {
             (evicted, st) \<leftarrow> evict_one_for_space env st;
             if evicted then alloc_loop env sz fuel st else Some (None, st)
           })"

text \<open>
  The three clock reads are \<open>t1\<close> (the expiry), \<open>t2\<close> (the first use) and \<open>t3\<close> (the first retry). A
  \<open>usize\<close> has 64 bits and \<open>Layout::from_size_align\<close> refuses sizes over \<open>isize::MAX\<close>.
\<close>

definition insert_new ::
  "('h, 'rt, 'cl) cache_env \<Rightarrow> ('rt, 'cl) entry_meta \<Rightarrow> ('rt, 'cl) cache_key \<Rightarrow> bytes
    \<Rightarrow> ('h, 'rt, 'cl) cache_state \<Rightarrow> ('h, 'rt, 'cl) cache_state option" where
  "insert_new env m k text st = do {
     let h = key_hash env k;
     let st = st\<lparr>pool := blit (pool st) (offset m) text\<rparr>;
     (e, st) \<leftarrow> alloc_entry m st;
     found \<leftarrow> locate st h k;
     (case found of
        Found _ \<Rightarrow> None
      | Vacant slot \<Rightarrow> do {
          c \<leftarrow> get (table st) slot;
          if ks_entry c = TOMBSTONE \<and> tombstones st = 0 then None
          else do {
            let st = st\<lparr>tombstones := (if ks_entry c = TOMBSTONE then tombstones st - 1 else tombstones st),
                        table := (table st)[slot := \<lparr>ks_hash = h, ks_entry = e\<rparr>],
                        table_len := table_len st + 1\<rparr>;
            st \<leftarrow> entry_mut (\<lambda>m. m\<lparr>table_slot := of_nat slot\<rparr>) e st;
            attach_front e st
          }
        })
   }"

definition insert_with_flags ::
  "('h, 'rt, 'cl) cache_env \<Rightarrow> instant \<Rightarrow> instant \<Rightarrow> instant \<Rightarrow> ('rt, 'cl) cache_key \<Rightarrow> u32 \<Rightarrow> bytes
    \<Rightarrow> bytes \<Rightarrow> ('h, 'rt, 'cl) response_cache \<Rightarrow> ('h, 'rt, 'cl) response_cache option" where
  "insert_with_flags env t1 t2 t3 k ttl wire request c =
     (case k of (name, rt, cl, fl) \<Rightarrow>
        let sz = length name + length wire + length request
        in if \<not> enabled c \<or> length name > 255 then Some c
           else if length request \<ge> 2 ^ 16 then Some c
           else if sz \<ge> 2 ^ 63 then Some c
           else do {
             let ttl_ns = secs (unat ttl);
             let expires = t1 + ttl_ns;
             let st = state c;
             if sz > length (pool st) then Some c
             else do {
               found \<leftarrow> locate st (key_hash env k) k;
               (used, re, st) \<leftarrow>
                 (case found of
                    Found e \<Rightarrow> do {
                      m \<leftarrow> entry st e;
                      st \<leftarrow> evict env e st;
                      Some (last_used m, reused m, st)
                    }
                  | Vacant _ \<Rightarrow> Some (t2, False, st));
               st \<leftarrow> ensure_table_capacity env st;
               (r, st) \<leftarrow> alloc_loop env sz (length (entries st) + 1) st;
               (case r of
                  None \<Rightarrow> Some (c\<lparr>state := st\<rparr>)
                | Some off \<Rightarrow> do {
                    st \<leftarrow> insert_new env
                      \<lparr>offset = off, nm_len = of_nat (length name), wire_len = of_nat (length wire),
                       request_len = of_nat (length request), record_type = rt, dns_class = cl,
                       flags = fl, expires_at = expires, stale_until = expires + SERVE_STALE_WINDOW,
                       original_ttl = ttl_ns, last_used = used, retry_after = t3, reused = re,
                       refresh_failures = 0, refresh_claimed = False, lru_prev = NONE, lru_next = NONE,
                       table_slot = 0\<rparr> k (name @ wire @ request) st;
                    Some (c\<lparr>state := st\<rparr>)
                  })
             }
           })"

subsection \<open>Refreshing and sweeping\<close>

definition release_refresh_claim ::
  "('h, 'rt, 'cl) cache_env \<Rightarrow> instant \<Rightarrow> ('rt, 'cl) cache_key \<Rightarrow> ('h, 'rt, 'cl) response_cache
    \<Rightarrow> ('h, 'rt, 'cl) response_cache option" where
  "release_refresh_claim env now k c = do {
     let st = state c;
     let h = key_hash env k;
     found \<leftarrow> locate st h k;
     (case found of
        Vacant _ \<Rightarrow> Some c
      | Found e \<Rightarrow> do {
          m \<leftarrow> entry st e;
          if refresh_claimed m
          then do {
            let failures = min (if refresh_failures m = - 1 then - 1 else refresh_failures m + 1) 5;
            let delay_ms = unat ((push_bit (unat failures) 1 :: u64) * 500 + h mod 500);
            st \<leftarrow> entry_mut (\<lambda>m. m\<lparr>refresh_claimed := False, refresh_failures := failures,
                                      retry_after := now + millis delay_ms\<rparr>) e st;
            Some (c\<lparr>state := st\<rparr>)
          }
          else Some c
        })
   }"

definition try_refresh_permit ::
  "('h, 'rt, 'cl) response_cache \<Rightarrow> bool \<times> ('h, 'rt, 'cl) response_cache" where
  "try_refresh_permit c =
     (if refresh_slots c > 0 then (True, c\<lparr>refresh_slots := refresh_slots c - 1\<rparr>) else (False, c))"

definition drop_refresh_permit ::
  "('h, 'rt, 'cl) response_cache \<Rightarrow> ('h, 'rt, 'cl) response_cache" where
  "drop_refresh_permit c = c\<lparr>refresh_slots := refresh_slots c + 1\<rparr>"

definition refresh_due :: "instant \<Rightarrow> u64 \<Rightarrow> ('rt, 'cl) entry_meta \<Rightarrow> bool" where
  "refresh_due now h m \<longleftrightarrow>
     reused m \<and> unat (request_len m) > 0 \<and> \<not> refresh_claimed m \<and> retry_after m \<le> now \<and>
     stale_until m > now \<and> now - last_used m < REFRESH_IDLE_LIMIT \<and>
     expires_at m - now \<le> original_ttl m * (5 + unat h mod 6) div 100"

fun candidates_loop ::
  "instant \<Rightarrow> nat \<Rightarrow> nat \<Rightarrow> u32 \<Rightarrow> bytes list \<Rightarrow> ('h, 'rt, 'cl) cache_state
    \<Rightarrow> (bytes list \<times> ('h, 'rt, 'cl) cache_state) option" where
  "candidates_loop now budget 0 e requests st = Some (requests, st)" |
  "candidates_loop now budget (Suc n) e requests st =
     (if e = NONE \<or> length requests = budget then Some (requests, st)
      else do {
        m \<leftarrow> entry st e;
        c \<leftarrow> get (table st) (unat (table_slot m));
        if refresh_due now (ks_hash c) m
        then do {
          let start = offset m + unat (nm_len m) + unat (wire_len m);
          request \<leftarrow> get_range (pool st) start (start + unat (request_len m));
          st \<leftarrow> entry_mut (\<lambda>m. m\<lparr>refresh_claimed := True\<rparr>) e st;
          candidates_loop now budget n (lru_next m) (requests @ [request]) st
        }
        else candidates_loop now budget n (lru_next m) requests st
      })"

definition refresh_candidates ::
  "instant \<Rightarrow> ('h, 'rt, 'cl) response_cache \<Rightarrow> (bytes list \<times> ('h, 'rt, 'cl) response_cache) option" where
  "refresh_candidates now c =
     (let budget = refresh_slots c
      in if \<not> enabled c \<or> budget = 0 then Some ([], c)
         else do {
           (requests, st) \<leftarrow>
             candidates_loop now budget REFRESH_SCAN_LIMIT (lru_head (state c)) [] (state c);
           Some (requests, c\<lparr>state := st\<rparr>)
         })"

definition evict_if_expired ::
  "('h, 'rt, 'cl) cache_env \<Rightarrow> instant \<Rightarrow> nat \<Rightarrow> ('h, 'rt, 'cl) cache_state
    \<Rightarrow> ('h, 'rt, 'cl) cache_state option" where
  "evict_if_expired env now i st = do {
     slot \<leftarrow> get (entries st) i;
     (case slot of
        Some m \<Rightarrow> if stale_until m \<le> now then evict env (of_nat i) st else Some st
      | None \<Rightarrow> Some st)
   }"

definition evict_expired_batch ::
  "('h, 'rt, 'cl) cache_env \<Rightarrow> instant \<Rightarrow> nat \<Rightarrow> nat \<Rightarrow> ('h, 'rt, 'cl) response_cache
    \<Rightarrow> ('h, 'rt, 'cl) response_cache option" where
  "evict_expired_batch env now start stop c = do {
     st \<leftarrow> foldM (evict_if_expired env now) [start..<min stop (length (entries (state c)))] (state c);
     Some (c\<lparr>state := st\<rparr>)
   }"

text \<open>One round of the sweeper, with the clock of each batch; other tasks may run between batches.\<close>

definition sweep_starts :: "nat \<Rightarrow> nat list" where
  "sweep_starts stop = map (\<lambda>b. b * SWEEP_BATCH) [0..<(stop + SWEEP_BATCH - 1) div SWEEP_BATCH]"

definition sweep_batch ::
  "('h, 'rt, 'cl) cache_env \<Rightarrow> instant \<Rightarrow> nat \<Rightarrow> nat \<Rightarrow> ('h, 'rt, 'cl) response_cache
    \<Rightarrow> ('h, 'rt, 'cl) response_cache option" where
  "sweep_batch env now stop start c =
     evict_expired_batch env now start (min (start + SWEEP_BATCH) stop) c"

end
