(* ===== verification/Cache_Lru.thy ===== *)
theory Cache_Lru
  imports Cache
begin

text \<open>
  The LRU list of the cache: \<open>dlls\<close> relates the links in the slab to a list of slab indices, and
  \<open>unlink\<close>, \<open>attach_front\<close> and \<open>touch\<close> remove, prepend and move an element of that list. They change
  nothing but links; \<open>same_data\<close> says so.
\<close>

named_theorems lru_simps "links of the LRU list"

subsection \<open>Entries up to their links\<close>

definition unlinked :: "('rt, 'cl) entry_meta \<Rightarrow> ('rt, 'cl) entry_meta" where
  "unlinked m = m\<lparr>lru_prev := 0, lru_next := 0\<rparr>"

text \<open>Two slabs that agree, entry by entry, in what \<open>f\<close> reads.\<close>

definition same_by :: "('m \<Rightarrow> 'x) \<Rightarrow> 'm option list \<Rightarrow> 'm option list \<Rightarrow> bool" where
  "same_by f es es' \<longleftrightarrow> map (map_option f) es = map (map_option f) es'"

abbreviation same_data ::
  "('rt, 'cl) entry_meta option list \<Rightarrow> ('rt, 'cl) entry_meta option list \<Rightarrow> bool" where
  "same_data \<equiv> same_by unlinked"

lemma unlinked_update [simp]:
  "unlinked (m\<lparr>lru_prev := p\<rparr>) = unlinked m" "unlinked (m\<lparr>lru_next := n\<rparr>) = unlinked m"
  "unlinked (m\<lparr>lru_prev := p, lru_next := n\<rparr>) = unlinked m"
  by (simp_all add: unlinked_def)

lemma same_by_refl [simp]: "same_by f es es"
  by (simp add: same_by_def)

lemma same_by_sym: "same_by f es es' \<Longrightarrow> same_by f es' es"
  by (simp add: same_by_def)

lemma same_by_trans: "same_by f es es' \<Longrightarrow> same_by f es' es'' \<Longrightarrow> same_by f es es''"
  by (simp add: same_by_def)

lemma same_by_length: "same_by f es es' \<Longrightarrow> length es' = length es"
  unfolding same_by_def by (metis length_map)

lemma same_by_nth: "same_by f es es' \<Longrightarrow> i < length es \<Longrightarrow> map_option f (es' ! i) = map_option f (es ! i)"
  unfolding same_by_def by (metis length_map nth_map)

lemma same_by_None: "same_by f es es' \<Longrightarrow> i < length es \<Longrightarrow> es' ! i = None \<longleftrightarrow> es ! i = None"
  using same_by_nth by (metis option.map_disc_iff)

lemma same_by_Some:
  assumes "same_by f es es'" "i < length es" "es' ! i = Some m'"
  obtains m where "es ! i = Some m" "f m = f m'"
  using same_by_nth [OF assms(1,2)] assms(3) that by (cases "es ! i") auto

lemma same_by_update: "es ! i = Some m \<Longrightarrow> f m' = f m \<Longrightarrow> same_by f es (es[i := Some m'])"
  unfolding same_by_def
  by (rule nth_equalityI) (simp_all, metis nth_list_update_eq nth_list_update_neq option.map(2))

lemma same_by_compose:
  assumes "same_by f es es'" "\<And>m. g (f m) = g' m"
  shows "same_by g' es es'"
proof -
  have "map (map_option g') es = map (map_option g) (map (map_option f) es)" for es
    using assms(2) by (simp add: comp_def option.map_comp)
  then show ?thesis using assms(1) unfolding same_by_def by metis
qed

lemma entry_eq_Some: "entry st i = Some m \<longleftrightarrow> unat i < length (entries st) \<and> entries st ! unat i = Some m"
  by (auto simp: entry_def get_def)

lemma entry_update_other:
  "i \<noteq> j \<Longrightarrow> entry (st\<lparr>entries := (entries st)[unat i := v]\<rparr>) j = entry st j"
proof -
  assume "i \<noteq> j"
  then have "unat i \<noteq> unat j" using unsigned_word_eqI by blast
  then show ?thesis by (simp add: entry_def get_def)
qed

lemma entry_mut_Some:
  "entry st i = Some m \<Longrightarrow> entry_mut f i st = Some (st\<lparr>entries := (entries st)[unat i := Some (f m)]\<rparr>)"
  by (simp add: entry_mut_def)

subsection \<open>Doubly linked segments\<close>

text \<open>
  \<open>dlls es p c xs t n\<close>: starting at \<open>c\<close>, whose predecessor is \<open>p\<close>, the links lead through \<open>xs\<close> to
  \<open>n\<close>, and \<open>t\<close> is the last element.
\<close>

primrec dlls ::
  "('rt, 'cl) entry_meta option list \<Rightarrow> u32 \<Rightarrow> u32 \<Rightarrow> u32 list \<Rightarrow> u32 \<Rightarrow> u32 \<Rightarrow> bool" where
  "dlls es p c [] t n \<longleftrightarrow> c = n \<and> t = p" |
  "dlls es p c (x # xs) t n \<longleftrightarrow> c = x \<and> x \<noteq> NONE \<and> unat x < length es \<and>
     (\<exists>m. es ! unat x = Some m \<and> lru_prev m = p \<and> dlls es x (lru_next m) xs t n)"
  for es

lemma dlls_append [lru_simps]:
  "dlls es p c (xs @ ys) t n \<longleftrightarrow> (\<exists>q d. dlls es p c xs q d \<and> dlls es q d ys t n)"
proof (induction xs arbitrary: p c)
  case (Cons x xs)
  show ?case by (simp add: Cons.IH) blast
qed simp

lemma dlls_update [simp]:
  "i \<notin> set xs \<Longrightarrow> dlls (es[unat i := v]) p c xs t n \<longleftrightarrow> dlls es p c xs t n"
proof (induction xs arbitrary: p c)
  case (Cons x xs)
  then have "unat x \<noteq> unat i" by (auto dest: unsigned_word_eqI)
  with Cons show ?case by simp
qed simp

lemma dlls_append_entry [simp]:
  "dlls es p c xs t n \<Longrightarrow> dlls (es @ [v]) p c xs t n"
  by (induction xs arbitrary: p c) (auto simp: nth_append)

definition lru_ok :: "('rt, 'cl) entry_meta option list \<Rightarrow> u32 \<Rightarrow> u32 \<Rightarrow> u32 list \<Rightarrow> bool" where
  "lru_ok es h t xs \<longleftrightarrow> dlls es NONE h xs t NONE \<and> distinct xs"

lemma dlls_mem: "dlls es p c xs t n \<Longrightarrow> x \<in> set xs \<Longrightarrow>
   x \<noteq> NONE \<and> unat x < length es \<and> es ! unat x \<noteq> None"
  by (induction xs arbitrary: p c) auto

lemma dlls_last: "dlls es p c xs t n \<Longrightarrow> t = (if xs = [] then p else last xs)"
  by (induction xs arbitrary: p c) auto

lemma dlls_head: "dlls es p c xs t n \<Longrightarrow> c = (if xs = [] then n else hd xs)"
  by (cases xs) auto

lemma lru_ok_head: "lru_ok es h t xs \<Longrightarrow> h = (if xs = [] then NONE else hd xs)"
  by (auto simp: lru_ok_def dest: dlls_head)

lemma lru_ok_tail: "lru_ok es h t xs \<Longrightarrow> t = (if xs = [] then NONE else last xs)"
  by (auto simp: lru_ok_def dest: dlls_last)

lemma lru_ok_mem: "lru_ok es h t xs \<Longrightarrow> x \<in> set xs \<Longrightarrow>
   x \<noteq> NONE \<and> unat x < length es \<and> es ! unat x \<noteq> None"
  unfolding lru_ok_def using dlls_mem by blast

lemma lru_ok_Nil [simp]: "lru_ok es (NONE) (NONE) []"
  by (simp add: lru_ok_def)

definition links_of :: "('rt, 'cl) entry_meta \<Rightarrow> u32 \<times> u32" where
  "links_of m = (lru_prev m, lru_next m)"

lemma dlls_links: "same_by links_of es es' \<Longrightarrow> dlls es p c xs t n \<Longrightarrow> dlls es' p c xs t n"
proof (induction xs arbitrary: p c)
  case (Cons x xs)
  then obtain m where m: "x \<noteq> NONE" "c = x" "unat x < length es" "es ! unat x = Some m" "lru_prev m = p"
    "dlls es x (lru_next m) xs t n" by auto
  from m(3) have "unat x < length es'" using same_by_length [OF Cons.prems(1)] by simp
  then obtain m' where "es' ! unat x = Some m'" "links_of m' = links_of m"
    by (rule same_by_Some [OF same_by_sym [OF Cons.prems(1)] _ m(4)])
  then show ?case
    using m Cons.IH [OF Cons.prems(1) m(6)] \<open>unat x < length es'\<close> by (auto simp: links_of_def)
qed simp

lemma lru_ok_links: "same_by links_of es es' \<Longrightarrow> lru_ok es h t xs \<Longrightarrow> lru_ok es' h t xs"
  by (auto simp: lru_ok_def intro: dlls_links)

subsection \<open>Unlinking\<close>

definition links_only ::
  "('h, 'rt, 'cl) cache_state \<Rightarrow> ('h, 'rt, 'cl) cache_state \<Rightarrow> bool" where
  "links_only st st' \<longleftrightarrow>
     same_data (entries st) (entries st') \<and> pool st' = pool st \<and> heap st' = heap st \<and>
     table st' = table st \<and> table_len st' = table_len st \<and> tombstones st' = tombstones st \<and>
     free_entries st' = free_entries st"

lemma links_only_refl [simp]: "links_only st st"
  by (simp add: links_only_def)

lemma links_only_trans: "links_only st st' \<Longrightarrow> links_only st' st'' \<Longrightarrow> links_only st st''"
  by (auto simp: links_only_def intro: same_by_trans)

lemma seg_set_next:
  assumes "dlls es p c xs t n" "distinct xs" "xs \<noteq> []"
  shows "\<exists>m. unat t < length es \<and> es ! unat t = Some m \<and>
    dlls (es[unat t := Some (m\<lparr>lru_next := n'\<rparr>)]) p c xs t n'"
proof -
  obtain ys where ys: "xs = ys @ [t]"
    using assms(3) dlls_last [OF assms(1)] by (metis append_butlast_last_id)
  then obtain q m where "dlls es p c ys q t" "t \<noteq> NONE" "unat t < length es" "es ! unat t = Some m"
    "lru_prev m = q"
    using assms(1) by (auto simp: dlls_append)
  moreover have "t \<notin> set ys" using assms(2) ys by simp
  ultimately show ?thesis unfolding ys by (auto simp: dlls_append)
qed

lemma seg_set_prev:
  assumes "dlls es p c xs t n" "distinct xs" "xs \<noteq> []"
  shows "\<exists>m. unat c < length es \<and> es ! unat c = Some m \<and>
    dlls (es[unat c := Some (m\<lparr>lru_prev := p'\<rparr>)]) p' c xs t n"
  using assms by (cases xs) auto

lemma unlink_ok:
  assumes lru: "lru_ok (entries st) (lru_head st) (lru_tail st) (xs @ e # ys)"
  shows "\<exists>st'. unlink e st = Some st' \<and> links_only st st' \<and> entry st' e = entry st e \<and>
    lru_ok (entries st') (lru_head st') (lru_tail st') (xs @ ys)"
proof -
  have dist: "distinct xs" "distinct ys" "e \<notin> set xs" "e \<notin> set ys" "set xs \<inter> set ys = {}"
    using lru by (auto simp: lru_ok_def)
  obtain q m where xs: "dlls (entries st) (NONE) (lru_head st) xs q e"
    and m: "entry st e = Some m" "lru_prev m = q"
    and ys: "dlls (entries st) e (lru_next m) ys (lru_tail st) (NONE)"
    using lru by (auto simp: lru_ok_def dlls_append entry_eq_Some)
  define n where "n = lru_next m"
  obtain st1 where st1: "(if q = NONE then Some (st\<lparr>lru_head := n\<rparr>)
        else entry_mut (\<lambda>p. p\<lparr>lru_next := n\<rparr>) q st) = Some st1"
    and xs1: "dlls (entries st1) (NONE) (lru_head st1) xs q n"
    and ys1: "dlls (entries st1) e n ys (lru_tail st1) (NONE)"
    and f1: "links_only st st1" "entry st1 e = entry st e"
  proof (cases "xs = []")
    case True
    then show thesis
      using that [of "st\<lparr>lru_head := n\<rparr>"] xs ys by (simp add: n_def links_only_def entry_def)
  next
    case False
    then obtain m' where m': "unat q < length (entries st)" "entries st ! unat q = Some m'"
      "dlls ((entries st)[unat q := Some (m'\<lparr>lru_next := n\<rparr>)]) (NONE) (lru_head st) xs q n"
      using seg_set_next [OF xs dist(1)] by blast
    have q: "q \<in> set xs" using False dlls_last [OF xs] by simp
    then have "q \<noteq> NONE" "q \<noteq> e" "q \<notin> set ys" using dlls_mem [OF xs] dist by auto
    moreover have "entry st q = Some m'" using m' by (simp add: entry_eq_Some)
    ultimately show thesis
      using that [of "st\<lparr>entries := (entries st)[unat q := Some (m'\<lparr>lru_next := n\<rparr>)]\<rparr>"] m' ys
      by (simp add: n_def entry_mut_Some links_only_def entry_update_other same_by_update)
  qed
  obtain st2 where st2: "(if n = NONE then Some (st1\<lparr>lru_tail := q\<rparr>)
        else entry_mut (\<lambda>p. p\<lparr>lru_prev := q\<rparr>) n st1) = Some st2"
    and l2: "dlls (entries st2) (NONE) (lru_head st2) (xs @ ys) (lru_tail st2) (NONE)"
    and f2: "links_only st1 st2" "entry st2 e = entry st1 e"
  proof (cases "ys = []")
    case True
    then show thesis
      using that [of "st1\<lparr>lru_tail := q\<rparr>"] xs1 ys1 by (simp add: links_only_def entry_def)
  next
    case False
    then obtain m' where m': "unat n < length (entries st1)" "entries st1 ! unat n = Some m'"
      "dlls ((entries st1)[unat n := Some (m'\<lparr>lru_prev := q\<rparr>)]) q n ys (lru_tail st1) (NONE)"
      using seg_set_prev [OF ys1 dist(2)] by blast
    have "n \<in> set ys" using False dlls_head [OF ys1] by simp
    then have "n \<noteq> NONE" "n \<noteq> e" "n \<notin> set xs" using dlls_mem [OF ys1] dist by auto
    moreover have "entry st1 n = Some m'" using m' by (simp add: entry_eq_Some)
    moreover have "dlls ((entries st1)[unat n := Some (m'\<lparr>lru_prev := q\<rparr>)]) (NONE) (lru_head st1)
        (xs @ ys) (lru_tail st1) (NONE)"
      unfolding dlls_append using m'(3) xs1 \<open>n \<notin> set xs\<close> by auto
    ultimately show thesis
      using that [of "st1\<lparr>entries := (entries st1)[unat n := Some (m'\<lparr>lru_prev := q\<rparr>)]\<rparr>"] m'
      by (simp add: entry_mut_Some links_only_def entry_update_other same_by_update)
  qed
  have "unlink e st = Some st2"
    unfolding unlink_def m(1) bind.bind_lunit m(2) n_def [symmetric] st1 st2 ..
  then show ?thesis
    using l2 f1 f2 dist by (auto simp: lru_ok_def intro: links_only_trans)
qed

subsection \<open>Prepending and moving to the front\<close>

lemma attach_front_ok:
  assumes lru: "lru_ok (entries st) (lru_head st) (lru_tail st) xs" and m: "entry st e = Some m"
    and e: "e \<noteq> NONE" "e \<notin> set xs"
  shows "\<exists>st'. attach_front e st = Some st' \<and> links_only st st' \<and>
    lru_ok (entries st') (lru_head st') (lru_tail st') (e # xs)"
proof -
  have xs: "dlls (entries st) (NONE) (lru_head st) xs (lru_tail st) (NONE)" and dist: "distinct xs"
    using lru by (simp_all add: lru_ok_def)
  define st1 where "st1 = st\<lparr>entries := (entries st)[unat e := Some (m\<lparr>lru_prev := NONE, lru_next := lru_head st\<rparr>)]\<rparr>"
  have st1: "entry_mut (\<lambda>m. m\<lparr>lru_prev := NONE, lru_next := lru_head st\<rparr>) e st = Some st1"
    using m by (simp add: st1_def entry_mut_def)
  have lo1: "links_only st st1"
    using m by (auto simp: st1_def links_only_def entry_eq_Some intro: same_by_update)
  have m1: "entry st1 e = Some (m\<lparr>lru_prev := NONE, lru_next := lru_head st\<rparr>)"
    using m by (simp add: st1_def entry_eq_Some)
  have xs1: "dlls (entries st1) (NONE) (lru_head st) xs (lru_tail st) (NONE)"
    using xs e by (simp add: st1_def)
  show ?thesis
  proof (cases "xs = []")
    case True
    then have "lru_head st = NONE" "lru_tail st = NONE" using lru_ok_head [OF lru] lru_ok_tail [OF lru] by simp_all
    then show ?thesis
      using True st1 m1 lo1 e xs1
      by (auto simp: attach_front_def Let_def lru_ok_def links_only_def entry_eq_Some st1_def)
  next
    case False
    let ?h = "lru_head st"
    obtain m' where m': "unat ?h < length (entries st1)" "entries st1 ! unat ?h = Some m'"
      "dlls ((entries st1)[unat ?h := Some (m'\<lparr>lru_prev := e\<rparr>)]) e ?h xs (lru_tail st) (NONE)"
      using seg_set_prev [OF xs1 dist False] by blast
    have "?h \<in> set xs" "lru_tail st \<in> set xs"
      using False lru_ok_head [OF lru] lru_ok_tail [OF lru] by simp_all
    then have h: "?h \<noteq> NONE" "?h \<noteq> e" "lru_tail st \<noteq> NONE" using lru_ok_mem [OF lru] e by auto
    then have "unat ?h \<noteq> unat e" by (auto dest: unsigned_word_eqI)
    define st2 where "st2 = st1\<lparr>entries := (entries st1)[unat ?h := Some (m'\<lparr>lru_prev := e\<rparr>)], lru_head := e\<rparr>"
    have "entry st1 ?h = Some m'" using m' by (simp add: entry_eq_Some)
    then have "entry_mut (\<lambda>m. m\<lparr>lru_prev := e\<rparr>) ?h st1 =
        Some (st1\<lparr>entries := (entries st1)[unat ?h := Some (m'\<lparr>lru_prev := e\<rparr>)]\<rparr>)"
      by (rule entry_mut_Some)
    moreover have "lru_tail st1 = lru_tail st" by (simp add: st1_def)
    ultimately have "attach_front e st = Some st2"
      using st1 h by (simp add: attach_front_def Let_def st2_def)
    moreover have "links_only st1 st2"
      using m' by (auto simp: st2_def links_only_def intro: same_by_update)
    moreover have "lru_ok (entries st2) (lru_head st2) (lru_tail st2) (e # xs)"
      using m' m1 e dist \<open>unat ?h \<noteq> unat e\<close> by (auto simp: lru_ok_def st2_def entry_eq_Some) (simp_all add: st1_def)
    ultimately show ?thesis using lo1 links_only_trans by blast
  qed
qed

lemma touch_ok:
  assumes lru: "lru_ok (entries st) (lru_head st) (lru_tail st) xs" and e: "e \<in> set xs"
  shows "\<exists>st'. touch e st = Some st' \<and> links_only st st' \<and>
    lru_ok (entries st') (lru_head st') (lru_tail st') (e # removeAll e xs)"
proof (cases "lru_head st = e")
  case True
  then obtain ys where "xs = e # ys" using lru_ok_head [OF lru] e by (cases xs) auto
  then show ?thesis
    using True lru by (auto simp: touch_def lru_ok_def)
next
  case False
  obtain as bs where xs: "xs = as @ e # bs" using e by (auto dest: split_list)
  have "distinct xs" using lru by (simp add: lru_ok_def)
  then have rm: "removeAll e xs = as @ bs" by (simp add: xs)
  from unlink_ok [OF lru [unfolded xs]] obtain st1 where
    st1: "unlink e st = Some st1" "links_only st st1" "entry st1 e = entry st e"
    "lru_ok (entries st1) (lru_head st1) (lru_tail st1) (as @ bs)" by blast
  obtain m where "entry st e = Some m" "e \<noteq> NONE"
    using lru_ok_mem [OF lru e] by (auto simp: entry_eq_Some)
  with attach_front_ok [OF st1(4), of e m] st1(3) obtain st2 where
    "attach_front e st1 = Some st2" "links_only st1 st2"
    "lru_ok (entries st2) (lru_head st2) (lru_tail st2) (e # as @ bs)"
    using \<open>distinct xs\<close> xs by auto
  then show ?thesis
    using False st1 rm by (auto simp: touch_def intro: links_only_trans)
qed

end
