(* ===== verification/Cache_Table.thy ===== *)
theory Cache_Table
  imports Cache_Lru Probe
begin

text \<open>
  The key table of the cache seen as cells of the probing library: \<open>slots_valid\<close> says that every
  occupied slot refers to a live entry and stores the hash of its key. With it \<open>locate\<close> always ends
  without panic, finds the entry of a key that is present, and otherwise the slot where the key
  belongs: the first tombstone on its probe path, or the free slot that ends it.
\<close>

subsection \<open>Keys and texts of entries\<close>

definition text_of :: "bytes \<Rightarrow> ('rt, 'cl) entry_meta \<Rightarrow> bytes" where
  "text_of p m = take (total_len m) (drop (offset m) p)"

definition key_of :: "bytes \<Rightarrow> ('rt, 'cl) entry_meta \<Rightarrow> ('rt, 'cl) cache_key" where
  "key_of p m = (take (unat (nm_len m)) (text_of p m), record_type m, dns_class m, flags m)"

definition in_pool :: "bytes \<Rightarrow> ('rt, 'cl) entry_meta \<Rightarrow> bool" where
  "in_pool p m \<longleftrightarrow> offset m + total_len m \<le> length p"

lemma get_range_text:
  assumes "in_pool p m" "a + n \<le> total_len m"
  shows "get_range p (offset m + a) (offset m + a + n) = Some (take n (drop a (text_of p m)))"
  using assms by (simp add: get_range_def in_pool_def text_of_def drop_take add.commute min_def)

lemma entry_name_eq:
  "entry st e = Some m \<Longrightarrow> in_pool (pool st) m \<Longrightarrow>
     entry_name st e = Some (fst (key_of (pool st) m))"
  using get_range_text [of "pool st" m 0 "unat (nm_len m)"]
  by (simp add: entry_name_def key_of_def total_len_def)

lemma key_matches_eq:
  "entry st e = Some m \<Longrightarrow> in_pool (pool st) m \<Longrightarrow>
     key_matches st e k = Some (key_of (pool st) m = k)"
  by (cases k) (auto simp: key_matches_def entry_name_eq, auto simp: key_of_def)

subsection \<open>The cells of the table\<close>

definition occupied :: "key_slot \<Rightarrow> bool" where
  "occupied c \<longleftrightarrow> ks_entry c \<noteq> EMPTY \<and> ks_entry c \<noteq> TOMBSTONE"

definition cell_of ::
  "bytes \<Rightarrow> ('rt, 'cl) entry_meta option list \<Rightarrow> key_slot \<Rightarrow> ('rt, 'cl) cache_key cell" where
  "cell_of p es c =
     (if ks_entry c = EMPTY then Free else if ks_entry c = TOMBSTONE then Dead
      else Live (key_of p (the (es ! unat (ks_entry c)))))"

definition key_cells ::
  "bytes \<Rightarrow> ('rt, 'cl) entry_meta option list \<Rightarrow> key_slot list \<Rightarrow> ('rt, 'cl) cache_key cell list" where
  "key_cells p es tab = map (cell_of p es) tab"

definition slot_valid ::
  "(('rt, 'cl) cache_key \<Rightarrow> u64) \<Rightarrow> bytes \<Rightarrow> ('rt, 'cl) entry_meta option list \<Rightarrow> key_slot \<Rightarrow> bool" where
  "slot_valid kh p es c \<longleftrightarrow>
     (occupied c \<longrightarrow> unat (ks_entry c) < length es \<and>
       (\<exists>m. es ! unat (ks_entry c) = Some m \<and> in_pool p m \<and> ks_hash c = kh (key_of p m)))"

definition slots_valid ::
  "(('rt, 'cl) cache_key \<Rightarrow> u64) \<Rightarrow> bytes \<Rightarrow> ('rt, 'cl) entry_meta option list \<Rightarrow> key_slot list \<Rightarrow> bool" where
  "slots_valid kh p es tab \<longleftrightarrow> (\<forall>j<length tab. slot_valid kh p es (tab ! j))"

definition khome :: "(('rt, 'cl) cache_key \<Rightarrow> u64) \<Rightarrow> ('rt, 'cl) cache_key \<Rightarrow> nat" where
  "khome kh k = unat (kh k)"

lemma length_key_cells [simp]: "length (key_cells p es tab) = length tab"
  by (simp add: key_cells_def)

lemma nth_key_cells [simp]: "j < length tab \<Longrightarrow> key_cells p es tab ! j = cell_of p es (tab ! j)"
  by (simp add: key_cells_def)

lemma cell_of_simps:
  "cell_of p es c = Free \<longleftrightarrow> ks_entry c = EMPTY" "cell_of p es c = Dead \<longleftrightarrow> ks_entry c = TOMBSTONE"
  "cell_of p es c = Live k \<longleftrightarrow> occupied c \<and> key_of p (the (es ! unat (ks_entry c))) = k"
  by (auto simp: cell_of_def occupied_def)

lemma minus_one_two: "(- 1 :: u32) \<noteq> - 2" "(- 2 :: u32) \<noteq> - 1"
  by simp_all

subsection \<open>Locating a key\<close>

lemma locate_step:
  assumes valid: "slots_valid (key_hash env) (pool st) (entries st) (table st)"
    and j: "j < length (table st)"
  shows "locate_loop st (key_hash env k) k (Suc fuel) j ft =
    (case key_cells (pool st) (entries st) (table st) ! j of
       Free \<Rightarrow> Some (Vacant (case ft of Some t \<Rightarrow> t | None \<Rightarrow> j))
     | Dead \<Rightarrow> locate_loop st (key_hash env k) k fuel ((j + 1) AND (length (table st) - 1))
         (case ft of Some t \<Rightarrow> Some t | None \<Rightarrow> Some j)
     | Live k' \<Rightarrow> if k' = k then Some (Found (ks_entry (table st ! j)))
         else locate_loop st (key_hash env k) k fuel ((j + 1) AND (length (table st) - 1)) ft)"
proof (cases "occupied (table st ! j)")
  case True
  then obtain m where m: "unat (ks_entry (table st ! j)) < length (entries st)"
    "entries st ! unat (ks_entry (table st ! j)) = Some m" "in_pool (pool st) m"
    "ks_hash (table st ! j) = key_hash env (key_of (pool st) m)"
    using valid j by (auto simp: slots_valid_def slot_valid_def)
  then have "key_matches st (ks_entry (table st ! j)) k = Some (key_of (pool st) m = k)"
    by (intro key_matches_eq) (simp_all add: entry_eq_Some)
  then show ?thesis
    using True m j by (auto simp: get_def occupied_def cell_of_def)
next
  case False
  then show ?thesis
    using j by (auto simp: get_def occupied_def cell_of_def)
qed

lemma locate_loop_at:
  fixes h :: nat
  assumes valid: "slots_valid (key_hash env) (pool st) (entries st) (table st)"
    and n: "length (table st) = 2 ^ B"
  defines "at \<equiv> \<lambda>d. pos (length (table st)) h d" and "cs \<equiv> key_cells (pool st) (entries st) (table st)"
  shows "\<forall>e. s \<le> e \<and> e < s + d \<longrightarrow> cs ! at e \<noteq> Free \<and> cs ! at e \<noteq> Live k \<Longrightarrow> d < fuel \<Longrightarrow>
    (cs ! at (s + d) = Live k \<longrightarrow>
      locate_loop st (key_hash env k) k fuel (at s) ft = Some (Found (ks_entry (table st ! at (s + d))))) \<and>
    (cs ! at (s + d) = Free \<longrightarrow>
      (\<exists>j. locate_loop st (key_hash env k) k fuel (at s) ft = Some (Vacant j) \<and>
        (ft = Some j \<or> ft = None \<and> (\<exists>e. s \<le> e \<and> e \<le> s + d \<and> j = at e \<and> cs ! j \<in> {Free, Dead}))))"
proof (induction d arbitrary: s fuel ft)
  case 0
  then obtain f where "fuel = Suc f" by (cases fuel) auto
  moreover have "at s < length (table st)" using n by (simp add: at_def)
  ultimately show ?case
    using locate_step [OF valid, of "at s" k f ft] unfolding cs_def
    by (cases ft) auto
next
  case (Suc d)
  then obtain f where f: "fuel = Suc f" "d < f" by (cases fuel) auto
  have j: "at s < length (table st)" using n by (simp add: at_def)
  have nxt: "(at s + 1) AND (length (table st) - 1) = at (Suc s)"
    unfolding at_def n by (rule pos_Suc_mask [symmetric])
  have cell: "cs ! at s \<noteq> Free" "cs ! at s \<noteq> Live k" using Suc.prems(1) by auto
  define ft' where "ft' = (if cs ! at s = Dead then (case ft of Some t \<Rightarrow> Some t | None \<Rightarrow> Some (at s)) else ft)"
  have step: "locate_loop st (key_hash env k) k fuel (at s) ft = locate_loop st (key_hash env k) k f (at (Suc s)) ft'"
    using locate_step [OF valid j, of k f ft] cell unfolding nxt f(1) cs_def [symmetric] ft'_def
    by (cases "cs ! at s") auto
  have IH: "(cs ! at (Suc s + d) = Live k \<longrightarrow>
      locate_loop st (key_hash env k) k f (at (Suc s)) ft' = Some (Found (ks_entry (table st ! at (Suc s + d))))) \<and>
    (cs ! at (Suc s + d) = Free \<longrightarrow>
      (\<exists>j. locate_loop st (key_hash env k) k f (at (Suc s)) ft' = Some (Vacant j) \<and>
        (ft' = Some j \<or> ft' = None \<and> (\<exists>e. Suc s \<le> e \<and> e \<le> Suc s + d \<and> j = at e \<and> cs ! j \<in> {Free, Dead}))))"
    using Suc.prems f by (intro Suc.IH) auto
  show ?case
  proof (intro conjI impI)
    assume "cs ! at (s + Suc d) = Live k"
    then show "locate_loop st (key_hash env k) k fuel (at s) ft = Some (Found (ks_entry (table st ! at (s + Suc d))))"
      using IH unfolding step by simp
  next
    assume "cs ! at (s + Suc d) = Free"
    then obtain j where j: "locate_loop st (key_hash env k) k f (at (Suc s)) ft' = Some (Vacant j)"
      and c: "ft' = Some j \<or> ft' = None \<and> (\<exists>e. Suc s \<le> e \<and> e \<le> Suc s + d \<and> j = at e \<and> cs ! j \<in> {Free, Dead})"
      using IH by auto
    from c have "ft = Some j \<or> ft = None \<and> (\<exists>e. s \<le> e \<and> e \<le> s + Suc d \<and> j = at e \<and> cs ! j \<in> {Free, Dead})"
    proof
      assume "ft' = Some j"
      then have "ft = Some j \<or> ft = None \<and> j = at s \<and> cs ! j = Dead"
        by (cases "cs ! at s = Dead"; cases ft) (auto simp: ft'_def)
      then show ?thesis by auto
    next
      assume a: "ft' = None \<and> (\<exists>e. Suc s \<le> e \<and> e \<le> Suc s + d \<and> j = at e \<and> cs ! j \<in> {Free, Dead})"
      then have "ft = None" by (cases "cs ! at s = Dead"; cases ft) (auto simp: ft'_def)
      moreover obtain e where "Suc s \<le> e" "e \<le> Suc s + d" "j = at e" "cs ! j \<in> {Free, Dead}" using a by blast
      ultimately show ?thesis by (intro disjI2 conjI exI [of _ e]) simp_all
    qed
    then show "\<exists>j. locate_loop st (key_hash env k) k fuel (at s) ft = Some (Vacant j) \<and>
        (ft = Some j \<or> ft = None \<and> (\<exists>e. s \<le> e \<and> e \<le> s + Suc d \<and> j = at e \<and> cs ! j \<in> {Free, Dead}))"
      using j unfolding step by blast
  qed
qed

text \<open>\<open>locate\<close> on a searchable table, for a key that is present and for one that is not.\<close>

lemma locate_correct:
  assumes valid: "slots_valid (key_hash env) (pool st) (entries st) (table st)"
    and ok: "table_ok (khome (key_hash env)) (key_cells (pool st) (entries st) (table st))"
  defines "cs \<equiv> key_cells (pool st) (entries st) (table st)"
  shows "k \<in> cell_keys cs \<Longrightarrow> \<exists>e m. locate st (key_hash env k) k = Some (Found e) \<and>
      entry st e = Some m \<and> key_of (pool st) m = k"
    and "k \<notin> cell_keys cs \<Longrightarrow> \<exists>d. locate st (key_hash env k) k = Some (Vacant (pos (length (table st)) (khome (key_hash env) k) d)) \<and>
      (\<forall>e<d. cs ! pos (length (table st)) (khome (key_hash env) k) e \<noteq> Free) \<and>
      cs ! pos (length (table st)) (khome (key_hash env) k) d \<in> {Free, Dead}"
proof -
  let ?n = "length (table st)" and ?h = "khome (key_hash env) k"
  obtain B where B: "?n = 2 ^ B" using ok by (auto simp: table_ok_def)
  have start: "unat (key_hash env k) AND (?n - 1) = pos ?n ?h 0"
    unfolding B khome_def by (rule pos_mask [symmetric])
  obtain d where d: "d < ?n" "\<forall>e<d. cs ! pos ?n ?h e \<noteq> Free \<and> cs ! pos ?n ?h e \<noteq> Live k"
    "cs ! pos ?n ?h d = (if k \<in> cell_keys cs then Live k else Free)"
    using search_stops [OF ok, of k] unfolding cs_def by auto
  note loop = locate_loop_at [OF valid B, of 0 d ?h k ?n None, folded cs_def]
  {
    assume k: "k \<in> cell_keys cs"
    have p: "pos ?n ?h d < ?n" using B by simp
    have found: "locate st (key_hash env k) k = Some (Found (ks_entry (table st ! pos ?n ?h d)))"
      using loop d k unfolding locate_def start by simp
    have "cell_of (pool st) (entries st) (table st ! pos ?n ?h d) = Live k"
      using d(3) k p by (simp add: cs_def)
    then have "occupied (table st ! pos ?n ?h d)"
      "key_of (pool st) (the (entries st ! unat (ks_entry (table st ! pos ?n ?h d)))) = k"
      by (simp_all add: cell_of_simps)
    moreover have "slot_valid (key_hash env) (pool st) (entries st) (table st ! pos ?n ?h d)"
      using valid p by (simp add: slots_valid_def)
    ultimately show "\<exists>e m. locate st (key_hash env k) k = Some (Found e) \<and> entry st e = Some m \<and>
        key_of (pool st) m = k"
      using found by (auto simp: slot_valid_def entry_eq_Some)
  }
  {
    assume "k \<notin> cell_keys cs"
    then obtain e where e: "e \<le> d" "locate st (key_hash env k) k = Some (Vacant (pos ?n ?h e))"
      "cs ! pos ?n ?h e \<in> {Free, Dead}"
      using loop d unfolding locate_def start by auto
    then show "\<exists>d. locate st (key_hash env k) k = Some (Vacant (pos ?n ?h d)) \<and>
        (\<forall>e<d. cs ! pos ?n ?h e \<noteq> Free) \<and> cs ! pos ?n ?h d \<in> {Free, Dead}"
      using d(2) by (intro exI [of _ e]) auto
  }
qed

end
