(* ===== verification/Cache_Inv.thy ===== *)
theory Cache_Inv
  imports Cache_Table
begin

text \<open>
  The representation invariant of the cache, in parts: the LRU list contains the live slab
  indices, the free list the dead ones (\<open>slab_ok\<close>), table and slab refer to each other
  (\<open>index_inv\<close>), the counters count (\<open>counts_ok\<close>), and the entries own disjoint allocated blocks of
  the pool (\<open>blocks_ok\<close>). \<open>heap_spec\<close> is what the cache relies on of the allocator. The
  congruence lemmas say which parts of an entry the invariant looks at.
\<close>

subsection \<open>The allocator\<close>

definition same_on :: "(nat \<times> nat) set \<Rightarrow> bytes \<Rightarrow> bytes \<Rightarrow> bool" where
  "same_on B p p' \<longleftrightarrow> length p' = length p \<and> (\<forall>(a, n)\<in>B. take n (drop a p') = take n (drop a p))"

definition apart :: "nat \<times> nat \<Rightarrow> nat \<times> nat \<Rightarrow> bool" where
  "apart b c \<longleftrightarrow> fst b + snd b \<le> fst c \<or> fst c + snd c \<le> fst b"

text \<open>
  \<open>R h n B\<close>: the heap \<open>h\<close> manages \<open>n\<close> bytes, of which the blocks \<open>B\<close>, pairs of an offset and a
  length, are allocated. An allocation returns a block within the pool apart from the allocated
  ones, a deallocation frees an allocated block, and neither changes the bytes of the blocks that
  stay allocated.
\<close>

definition heap_spec :: "'h heap_ops \<Rightarrow> ('h \<Rightarrow> nat \<Rightarrow> (nat \<times> nat) set \<Rightarrow> bool) \<Rightarrow> bool" where
  "heap_spec ops R \<longleftrightarrow>
     R (heap_empty ops) 0 {} \<and>
     (\<forall>p h p'. 64 \<le> length p \<longrightarrow> heap_new ops p = (h, p') \<longrightarrow> R h (length p) {} \<and> length p' = length p) \<and>
     (\<forall>h p n B r h' p'. R h (length p) B \<longrightarrow> 0 < n \<longrightarrow> allocate_first_fit ops h p n = (r, h', p') \<longrightarrow>
        same_on B p p' \<and>
        (case r of
           None \<Rightarrow> R h' (length p) B
         | Some a \<Rightarrow> R h' (length p) (insert (a, n) B) \<and> a + n \<le> length p \<and> (\<forall>b\<in>B. apart (a, n) b))) \<and>
     (\<forall>h p a n B h' p'. R h (length p) B \<longrightarrow> (a, n) \<in> B \<longrightarrow> deallocate ops h p a n = (h', p') \<longrightarrow>
        R h' (length p) (B - {(a, n)}) \<and> same_on (B - {(a, n)}) p p')"

subsection \<open>The invariant\<close>

definition live_set :: "('rt, 'cl) entry_meta option list \<Rightarrow> nat set" where
  "live_set es = {i. i < length es \<and> es ! i \<noteq> None}"

definition slab_ok :: "('rt, 'cl) entry_meta option list \<Rightarrow> u32 list \<Rightarrow> bool" where
  "slab_ok es fr \<longleftrightarrow> distinct fr \<and> unat ` set fr = {i. i < length es \<and> es ! i = None}"

definition index_inv ::
  "(('rt, 'cl) cache_key \<Rightarrow> u64) \<Rightarrow> bytes \<Rightarrow> ('rt, 'cl) entry_meta option list \<Rightarrow> key_slot list \<Rightarrow> nat set
    \<Rightarrow> bool" where
  "index_inv kh p es tab I \<longleftrightarrow>
     table_ok (khome kh) (key_cells p es tab) \<and> slots_valid kh p es tab \<and>
     (\<forall>j m. j < length tab \<longrightarrow> occupied (tab ! j) \<longrightarrow> es ! unat (ks_entry (tab ! j)) = Some m \<longrightarrow>
        unat (ks_entry (tab ! j)) \<in> I \<and> unat (table_slot m) = j) \<and>
     (\<forall>i m. i \<in> I \<longrightarrow> es ! i = Some m \<longrightarrow>
        unat (table_slot m) < length tab \<and> ks_entry (tab ! unat (table_slot m)) = of_nat i)"

definition counts_ok :: "bytes \<Rightarrow> 'k cell list \<Rightarrow> nat \<Rightarrow> nat \<Rightarrow> bool" where
  "counts_ok p cs n t \<longleftrightarrow>
     n = live cs \<and> t = dead cs \<and> (n + t) * 4 < length cs * 3 \<and> 64 \<le> length cs \<and>
     length cs \<le> max 64 (4 * length p + 2)"

definition block :: "('rt, 'cl) entry_meta \<Rightarrow> nat \<times> nat" where
  "block m = (offset m, total_len m)"

definition blocks :: "('rt, 'cl) entry_meta option list \<Rightarrow> (nat \<times> nat) set" where
  "blocks es = {block m | m. Some m \<in> set es}"

definition blocks_ok :: "bytes \<Rightarrow> ('rt, 'cl) entry_meta option list \<Rightarrow> bool" where
  "blocks_ok p es \<longleftrightarrow>
     (\<forall>i m. i < length es \<longrightarrow> es ! i = Some m \<longrightarrow> in_pool p m \<and> 0 < total_len m) \<and>
     (\<forall>i j m m'. i < length es \<longrightarrow> j < length es \<longrightarrow> i \<noteq> j \<longrightarrow> es ! i = Some m \<longrightarrow> es ! j = Some m' \<longrightarrow>
        apart (block m) (block m'))"

definition core_inv ::
  "(('rt, 'cl) cache_key \<Rightarrow> u64) \<Rightarrow> bytes \<Rightarrow> ('rt, 'cl) entry_meta option list \<Rightarrow> key_slot list
    \<Rightarrow> u32 list \<Rightarrow> nat \<Rightarrow> nat \<Rightarrow> bool" where
  "core_inv kh p es tab fr n t \<longleftrightarrow>
     slab_ok es fr \<and> index_inv kh p es tab (live_set es) \<and> counts_ok p (key_cells p es tab) n t \<and>
     blocks_ok p es \<and> length es \<le> length p \<and> length p \<le> 2 ^ 30"

text \<open>
  \<open>X\<close> holds the block that has been allocated for an entry not yet in the slab; between operations
  it is empty. The LRU list \<open>xs\<close> contains the live slab indices.
\<close>

definition heap_inv ::
  "('h \<Rightarrow> nat \<Rightarrow> (nat \<times> nat) set \<Rightarrow> bool) \<Rightarrow> (nat \<times> nat) set \<Rightarrow> ('h, 'rt, 'cl) cache_state \<Rightarrow> bool" where
  "heap_inv R X st \<longleftrightarrow>
     R (heap st) (length (pool st)) (blocks (entries st) \<union> X) \<and>
     (\<forall>x\<in>X. 0 < snd x \<and> fst x + snd x \<le> length (pool st) \<and> (\<forall>b\<in>blocks (entries st). apart x b))"

definition body_inv ::
  "('h, 'rt, 'cl) cache_env \<Rightarrow> ('h \<Rightarrow> nat \<Rightarrow> (nat \<times> nat) set \<Rightarrow> bool) \<Rightarrow> (nat \<times> nat) set
    \<Rightarrow> ('h, 'rt, 'cl) cache_state \<Rightarrow> bool" where
  "body_inv env R X st \<longleftrightarrow>
     core_inv (key_hash env) (pool st) (entries st) (table st) (free_entries st) (table_len st) (tombstones st) \<and>
     heap_inv R X st"

definition cache_inv ::
  "('h, 'rt, 'cl) cache_env \<Rightarrow> ('h \<Rightarrow> nat \<Rightarrow> (nat \<times> nat) set \<Rightarrow> bool) \<Rightarrow> (nat \<times> nat) set
    \<Rightarrow> ('h, 'rt, 'cl) cache_state \<Rightarrow> u32 list \<Rightarrow> bool" where
  "cache_inv env R X st xs \<longleftrightarrow>
     body_inv env R X st \<and> lru_ok (entries st) (lru_head st) (lru_tail st) xs \<and>
     unat ` set xs = live_set (entries st)"

subsection \<open>What the invariant looks at\<close>

text \<open>
  \<open>static\<close> keeps the block, the lengths and the key of an entry. Updates that keep them and the
  table slots keep the invariant; a rehash changes the table slots.
\<close>

definition static :: "('rt, 'cl) entry_meta \<Rightarrow> ('rt, 'cl) entry_meta" where
  "static m = m\<lparr>expires_at := 0, stale_until := 0, original_ttl := 0, last_used := 0, retry_after := 0,
     reused := False, refresh_failures := 0, refresh_claimed := False, lru_prev := 0, lru_next := 0,
     table_slot := 0\<rparr>"

abbreviation same_static ::
  "('rt, 'cl) entry_meta option list \<Rightarrow> ('rt, 'cl) entry_meta option list \<Rightarrow> bool" where
  "same_static \<equiv> same_by static"

abbreviation same_slots ::
  "('rt, 'cl) entry_meta option list \<Rightarrow> ('rt, 'cl) entry_meta option list \<Rightarrow> bool" where
  "same_slots \<equiv> same_by table_slot"

lemma static_sel [simp]:
  "offset (static m) = offset m" "nm_len (static m) = nm_len m" "wire_len (static m) = wire_len m"
  "request_len (static m) = request_len m" "record_type (static m) = record_type m"
  "dns_class (static m) = dns_class m" "flags (static m) = flags m"
  by (simp_all add: static_def)

lemma static_fun [simp]:
  "total_len (static m) = total_len m" "text_of p (static m) = text_of p m"
  "key_of p (static m) = key_of p m" "in_pool p (static m) = in_pool p m" "block (static m) = block m"
  by (simp_all add: total_len_def text_of_def key_of_def in_pool_def block_def)

lemma static_unlinked [simp]: "static (unlinked m) = static m"
  by (simp add: static_def unlinked_def)

lemma slot_unlinked [simp]: "table_slot (unlinked m) = table_slot m"
  by (simp add: unlinked_def)

lemma same_data_static: "same_data es es' \<Longrightarrow> same_static es es' \<and> same_slots es es'"
  using same_by_compose [of unlinked es es' static static]
    same_by_compose [of unlinked es es' table_slot table_slot] by simp

lemma static_eqD:
  assumes "static m = static m'"
  shows "total_len m = total_len m'" "text_of p m = text_of p m'"
    "key_of p m = key_of p m'" "in_pool p m = in_pool p m'" "block m = block m'"
  using arg_cong [OF assms, of total_len]
    arg_cong [OF assms, of "text_of p"] arg_cong [OF assms, of "key_of p"]
    arg_cong [OF assms, of "in_pool p"] arg_cong [OF assms, of block] by simp_all

lemma live_set_cong: "same_static es es' \<Longrightarrow> live_set es' = live_set es"
  by (auto simp: live_set_def same_by_length dest: same_by_None)

lemma slab_ok_cong: "same_static es es' \<Longrightarrow> slab_ok es fr \<Longrightarrow> slab_ok es' fr"
proof -
  assume ss: "same_static es es'" and "slab_ok es fr"
  moreover have "{i. i < length es' \<and> es' ! i = None} = {i. i < length es \<and> es ! i = None}"
    using same_by_length [OF ss] same_by_None [OF ss] by auto
  ultimately show ?thesis by (simp add: slab_ok_def)
qed

lemma slots_valid_cong:
  assumes "same_static es es'" "slots_valid kh p es tab"
  shows "slots_valid kh p es' tab" "key_cells p es' tab = key_cells p es tab"
proof -
  have sv: "slot_valid kh p es' c \<and> cell_of p es' c = cell_of p es c" if valid: "slot_valid kh p es c" for c
  proof (cases "occupied c")
    case True
    then obtain m where m: "unat (ks_entry c) < length es" "es ! unat (ks_entry c) = Some m"
      "in_pool p m" "ks_hash c = kh (key_of p m)"
      using valid by (auto simp: slot_valid_def)
    then obtain m' where m': "es' ! unat (ks_entry c) = Some m'" "static m' = static m"
      using same_by_Some [OF same_by_sym [OF assms(1)]] same_by_length [OF assms(1)] by metis
    then show ?thesis
      using True m static_eqD [OF m'(2)] same_by_length [OF assms(1)]
      by (auto simp: slot_valid_def cell_of_def)
  qed (use valid in \<open>auto simp: slot_valid_def cell_of_def occupied_def\<close>)
  then show "slots_valid kh p es' tab" "key_cells p es' tab = key_cells p es tab"
    using assms(2) by (auto simp: slots_valid_def intro!: nth_equalityI)
qed

lemma index_inv_cong:
  assumes ss: "same_static es es'" and slots: "same_slots es es'"
    and inv: "index_inv kh p es tab I" and I: "I \<subseteq> {0..<length es}"
  shows "index_inv kh p es' tab I"
proof -
  have sv: "slots_valid kh p es tab" using inv by (simp add: index_inv_def)
  note c = slots_valid_cong [OF ss sv]
  have old: "\<exists>m. es ! i = Some m \<and> table_slot m = table_slot m'" if "es' ! i = Some m'" "i < length es" for i m'
    using same_by_Some [OF slots that(2,1)] by metis
  have lt: "unat (ks_entry (tab ! j)) < length es" if "j < length tab" "occupied (tab ! j)" for j
    using sv that by (auto simp: slots_valid_def slot_valid_def)
  show ?thesis
    unfolding index_inv_def c(2)
  proof (intro conjI allI impI)
    fix j m' assume j: "j < length tab" "occupied (tab ! j)" "es' ! unat (ks_entry (tab ! j)) = Some m'"
    from old [OF j(3) lt [OF j(1,2)]] obtain m where
      "es ! unat (ks_entry (tab ! j)) = Some m" "table_slot m = table_slot m'" by blast
    then show "unat (ks_entry (tab ! j)) \<in> I" "unat (table_slot m') = j"
      using inv j unfolding index_inv_def by metis+
  next
    fix i m' assume i: "i \<in> I" "es' ! i = Some m'"
    moreover have "i < length es" using i(1) I by auto
    ultimately obtain m where "es ! i = Some m" "table_slot m = table_slot m'" using old by blast
    then show "unat (table_slot m') < length tab" "ks_entry (tab ! unat (table_slot m')) = of_nat i"
      using inv i unfolding index_inv_def by metis+
  qed (use inv c(1) in \<open>simp_all add: index_inv_def\<close>)
qed

lemma blocks_cong: "same_static es es' \<Longrightarrow> blocks es' = blocks es"
proof -
  have "blocks es \<subseteq> blocks es'" if ss: "same_static es es'" for es es' :: "('a, 'b) entry_meta option list"
  proof
    fix b assume "b \<in> blocks es"
    then obtain i m where m: "i < length es" "es ! i = Some m" "b = block m"
      by (auto simp: blocks_def in_set_conv_nth)
    then have i: "i < length es'" using same_by_length [OF ss] by simp
    obtain m' where "es' ! i = Some m'" "static m' = static m"
      by (rule same_by_Some [OF same_by_sym [OF ss] i m(2)])
    then have "Some m' \<in> set es'" "block m' = b" using i m(3) static_eqD(5) nth_mem by metis+
    then show "b \<in> blocks es'" by (auto simp: blocks_def)
  qed
  then show "same_static es es' \<Longrightarrow> blocks es' = blocks es"
    using same_by_sym by blast
qed

lemma blocks_ok_cong:
  assumes "same_static es es'" "blocks_ok p es"
  shows "blocks_ok p es'"
proof -
  have old: "\<exists>m. es ! i = Some m \<and> block m = block m' \<and> in_pool p m = in_pool p m' \<and> total_len m = total_len m'"
    if "es' ! i = Some m'" "i < length es" for i m'
    using same_by_Some [OF assms(1) that(2,1)] static_eqD by metis
  show ?thesis
    unfolding blocks_ok_def same_by_length [OF assms(1)]
  proof (intro conjI allI impI)
    fix i m' assume "i < length es" "es' ! i = Some m'"
    then show "in_pool p m'" "0 < total_len m'"
      using old [of i m'] assms(2) unfolding blocks_ok_def by metis+
  next
    fix i j m m' assume "i < length es" "j < length es" "i \<noteq> j" "es' ! i = Some m" "es' ! j = Some m'"
    then show "apart (block m) (block m')"
      using old [of i m] old [of j m'] assms(2) unfolding blocks_ok_def by metis
  qed
qed

lemma core_inv_cong:
  assumes inv: "core_inv kh p es tab fr n t" and ss: "same_static es es'" "same_slots es es'"
  shows "core_inv kh p es' tab fr n t"
proof -
  have ls: "live_set es \<subseteq> {0..<length es}" by (auto simp: live_set_def)
  have ii: "index_inv kh p es tab (live_set es)" using inv by (simp add: core_inv_def)
  then have "slots_valid kh p es tab" by (simp add: index_inv_def)
  note cells = slots_valid_cong(2) [OF ss(1) this]
  show ?thesis
    using inv index_inv_cong [OF ss ii ls] slab_ok_cong [OF ss(1)] blocks_ok_cong [OF ss(1)]
    unfolding core_inv_def cells live_set_cong [OF ss(1)] same_by_length [OF ss(1)] by simp
qed

lemma body_inv_cong:
  assumes inv: "body_inv env R X st" and ss: "same_static (entries st) (entries st')"
      "same_slots (entries st) (entries st')"
    and same: "pool st' = pool st" "heap st' = heap st" "table st' = table st" "table_len st' = table_len st"
      "tombstones st' = tombstones st" "free_entries st' = free_entries st"
  shows "body_inv env R X st'"
  using inv core_inv_cong [OF _ ss]
  unfolding body_inv_def heap_inv_def same blocks_cong [OF ss(1)] by blast

lemma body_inv_links: "body_inv env R X st \<Longrightarrow> links_only st st' \<Longrightarrow> body_inv env R X st'"
  by (rule body_inv_cong) (simp_all add: links_only_def same_data_static)

end
