(* ===== verification/Cache_Core.thy ===== *)
theory Cache_Core
  imports Cache_Inv
begin

text \<open>
  The changes of the table, the slab and the pool that the operations make, on the core of the
  invariant: other bytes of the pool change, an entry is removed, an entry is added, the table is
  rebuilt.
\<close>

lemma core_invD:
  assumes "core_inv kh p es tab fr n t"
  shows "slab_ok es fr" "index_inv kh p es tab (live_set es)" "counts_ok p (key_cells p es tab) n t"
    "blocks_ok p es" "length es \<le> length p" "length p \<le> 2 ^ 30"
    "table_ok (khome kh) (key_cells p es tab)" "slots_valid kh p es tab"
  using assms by (simp_all add: core_inv_def index_inv_def)

lemma unat_index: "i < length p \<Longrightarrow> length (p :: bytes) \<le> 2 ^ 30 \<Longrightarrow> unat (of_nat i :: u32) = i"
  by (simp add: unat_of_nat)

lemma index_ne:
  assumes "i < length p" "length (p :: bytes) \<le> 2 ^ 30"
  shows "(of_nat i :: u32) \<noteq> EMPTY" "(of_nat i :: u32) \<noteq> TOMBSTONE"
proof -
  have "of_nat (i + d) \<noteq> (0 :: u32)" if "0 < d" "d \<le> 2" for d
    using that assms by (auto simp: word_of_nat_eq_0_iff simp del: of_nat_add dest: dvd_imp_le)
  from this [of 1] this [of 2] show "(of_nat i :: u32) \<noteq> EMPTY" "(of_nat i :: u32) \<noteq> TOMBSTONE"
    by auto
qed

subsection \<open>The slot of an entry\<close>

lemma slot_of_entry:
  assumes inv: "index_inv kh p es tab I" and i: "i \<in> I" "i < length p" "length p \<le> 2 ^ 30" "es ! i = Some m"
  defines "j \<equiv> unat (table_slot m)"
  shows "j < length tab" "ks_entry (tab ! j) = of_nat i" "occupied (tab ! j)"
    "key_cells p es tab ! j = Live (key_of p m)"
proof -
  show j: "j < length tab" "ks_entry (tab ! j) = of_nat i"
    using inv i by (auto simp: index_inv_def j_def)
  then show "occupied (tab ! j)" using index_ne [OF i(2,3)] by (simp add: occupied_def)
  then show "key_cells p es tab ! j = Live (key_of p m)"
    using j i unat_index [OF i(2,3)] by (simp add: cell_of_def occupied_def)
qed

lemma index_keys:
  assumes inv: "index_inv kh p es tab I" and I: "I \<subseteq> {..<length p}" "length p \<le> 2 ^ 30"
  shows "cell_keys (key_cells p es tab) = {key_of p m | i m. i \<in> I \<and> es ! i = Some m}"
proof (intro set_eqI iffI)
  fix k assume "k \<in> cell_keys (key_cells p es tab)"
  then obtain j where j: "j < length tab" "key_cells p es tab ! j = Live k"
    by (auto simp: cell_keys_def in_set_conv_nth)
  then have oc: "occupied (tab ! j)" "key_of p (the (es ! unat (ks_entry (tab ! j)))) = k"
    by (simp_all add: cell_of_simps)
  then obtain m where "es ! unat (ks_entry (tab ! j)) = Some m"
    using inv j by (auto simp: index_inv_def slots_valid_def slot_valid_def)
  moreover from this have "unat (ks_entry (tab ! j)) \<in> I"
    using inv j oc unfolding index_inv_def by blast
  ultimately show "k \<in> {key_of p m | i m. i \<in> I \<and> es ! i = Some m}"
    using oc(2) by (metis (mono_tags, lifting) mem_Collect_eq option.sel)
next
  fix k assume "k \<in> {key_of p m | i m. i \<in> I \<and> es ! i = Some m}"
  then obtain i m where i: "i \<in> I" "es ! i = Some m" "k = key_of p m" by auto
  then have "i < length p" using I by auto
  from slot_of_entry [OF inv i(1) this I(2) i(2)]
  show "k \<in> cell_keys (key_cells p es tab)"
    using i(3) unfolding cell_keys_def by (metis length_key_cells mem_Collect_eq nth_mem)
qed

lemma core_live: "core_inv kh p es tab fr n t \<Longrightarrow> live_set es \<subseteq> {..<length p}"
  by (auto simp: core_inv_def live_set_def)

lemma live_keys:
  assumes inv: "core_inv kh p es tab fr n t"
  shows "cell_keys (key_cells p es tab) = {key_of p m | i m. i < length es \<and> es ! i = Some m}"
  unfolding index_keys [OF core_invD(2) [OF inv] core_live [OF inv] core_invD(6) [OF inv]]
  by (auto simp: live_set_def)

lemma distinct_keys:
  assumes inv: "core_inv kh p es tab fr n t"
    and i: "i < length es" "es ! i = Some m" and j: "j < length es" "es ! j = Some m'"
    and key: "key_of p m = key_of p m'"
  shows "i = j"
proof -
  have l: "i \<in> live_set es" "j \<in> live_set es" "i < length p" "j < length p"
    using i j core_invD(5) [OF inv] by (auto simp: live_set_def)
  note a = slot_of_entry [OF core_invD(2) [OF inv] l(1,3) core_invD(6) [OF inv] i(2)]
  note b = slot_of_entry [OF core_invD(2) [OF inv] l(2,4) core_invD(6) [OF inv] j(2)]
  have "keys_distinct (key_cells p es tab)" using core_invD(7) [OF inv] by (simp add: table_ok_def)
  then have "unat (table_slot m) = unat (table_slot m')"
    unfolding keys_distinct_def using a(1,4) b(1,4) key by (metis length_key_cells)
  then have "(of_nat i :: u32) = of_nat j" using a(2) b(2) by simp
  then show "i = j" using unat_index l core_invD(6) [OF inv] by metis
qed

subsection \<open>Changing other bytes of the pool\<close>

lemma same_on_text:
  assumes "same_on B p p'" "block m \<in> B"
  shows "text_of p' m = text_of p m" "key_of p' m = key_of p m" "in_pool p' m = in_pool p m"
proof -
  show t: "text_of p' m = text_of p m"
    using assms by (auto simp: same_on_def block_def text_of_def)
  then show "key_of p' m = key_of p m" by (simp add: key_of_def)
  show "in_pool p' m = in_pool p m" using assms by (simp add: same_on_def in_pool_def)
qed

lemma block_mem: "i < length es \<Longrightarrow> es ! i = Some m \<Longrightarrow> block m \<in> blocks es"
  using nth_mem [of i es] by (auto simp: blocks_def)

lemma slots_valid_pool:
  assumes "same_on (blocks es) p p'" "slots_valid kh p es tab"
  shows "slots_valid kh p' es tab" "key_cells p' es tab = key_cells p es tab"
proof -
  have sv: "slot_valid kh p' es c \<and> cell_of p' es c = cell_of p es c" if valid: "slot_valid kh p es c" for c
  proof (cases "occupied c")
    case True
    then obtain m where m: "unat (ks_entry c) < length es" "es ! unat (ks_entry c) = Some m"
      "in_pool p m" "ks_hash c = kh (key_of p m)"
      using valid by (auto simp: slot_valid_def)
    note same = same_on_text [OF assms(1) block_mem [OF m(1,2)]]
    then show ?thesis using m by (simp add: slot_valid_def cell_of_def)
  qed (auto simp: slot_valid_def cell_of_def occupied_def)
  then show "slots_valid kh p' es tab" "key_cells p' es tab = key_cells p es tab"
    using assms(2) by (auto simp: slots_valid_def intro!: nth_equalityI)
qed

lemma core_inv_pool:
  assumes inv: "core_inv kh p es tab fr n t" and same: "same_on (blocks es) p p'"
  shows "core_inv kh p' es tab fr n t"
proof -
  have len: "length p' = length p" using same by (simp add: same_on_def)
  note sv = slots_valid_pool [OF same core_invD(8) [OF inv]]
  have "blocks_ok p' es"
    unfolding blocks_ok_def
    using core_invD(4) [OF inv] same_on_text(3) [OF same block_mem] by (simp add: blocks_ok_def)
  then show ?thesis
    using inv sv by (simp add: core_inv_def index_inv_def counts_ok_def len)
qed

subsection \<open>Removing an entry\<close>

lemma blocks_remove:
  assumes ok: "blocks_ok p es" and i: "i < length es" "es ! i = Some m"
  shows "blocks (es[i := None]) = blocks es - {block m}"
proof (intro set_eqI iffI)
  fix b assume "b \<in> blocks (es[i := None])"
  then obtain j m' where j: "j < length es" "es[i := None] ! j = Some m'" "b = block m'"
    by (auto simp: blocks_def in_set_conv_nth)
  then have ne: "j \<noteq> i" "es ! j = Some m'" using i by (auto simp: nth_list_update split: if_splits)
  then have "apart (block m') (block m)" "0 < total_len m" "0 < total_len m'"
    using ok i j unfolding blocks_ok_def by blast+
  then have "b \<noteq> block m" using j by (auto simp: apart_def block_def)
  then show "b \<in> blocks es - {block m}" using block_mem [OF j(1) ne(2)] j by simp
next
  fix b assume "b \<in> blocks es - {block m}"
  then obtain j m' where j: "j < length es" "es ! j = Some m'" "b = block m'" "b \<noteq> block m"
    by (auto simp: blocks_def in_set_conv_nth)
  then have "es[i := None] ! j = Some m'" using i by (auto simp: nth_list_update)
  then show "b \<in> blocks (es[i := None])" using block_mem [of j "es[i := None]" m'] j by simp
qed

lemma live_set_remove: "i < length es \<Longrightarrow> live_set (es[i := None]) = live_set es - {i}"
  by (auto simp: live_set_def nth_list_update split: if_splits)

lemma cells_remove:
  assumes inv: "core_inv kh p es tab fr n t" and i: "i < length es" "es ! i = Some m"
  defines "j \<equiv> unat (table_slot m)" and "es' \<equiv> es[i := None]"
  defines "tab' \<equiv> tab[j := (tab ! j)\<lparr>ks_entry := TOMBSTONE\<rparr>]"
  shows "key_cells p es' tab' = (key_cells p es tab)[j := Dead]" "slots_valid kh p es' tab'"
proof -
  have i': "i \<in> live_set es" "i < length p" using i core_invD(5) [OF inv] by (auto simp: live_set_def)
  note j = slot_of_entry [OF core_invD(2) [OF inv] i' core_invD(6) [OF inv] i(2), folded j_def]
  have other: "slot_valid kh p es' (tab ! l) \<and> cell_of p es' (tab ! l) = cell_of p es (tab ! l)"
    if l: "l < length tab" "l \<noteq> j" for l
  proof (cases "occupied (tab ! l)")
    case True
    let ?e = "unat (ks_entry (tab ! l))"
    obtain m' where m': "?e < length es" "es ! ?e = Some m'" "slot_valid kh p es (tab ! l)"
      using core_invD(8) [OF inv] l True by (auto simp: slots_valid_def slot_valid_def)
    then have "unat (table_slot m') = l"
      using core_invD(2) [OF inv] l True by (auto simp: index_inv_def)
    then have "?e \<noteq> i" using i l m' by (auto simp: j_def)
    then show ?thesis using m' by (simp add: es'_def slot_valid_def cell_of_def)
  qed (auto simp: slot_valid_def cell_of_def occupied_def)
  show "key_cells p es' tab' = (key_cells p es tab)[j := Dead]"
  proof (rule nth_equalityI)
    fix l assume "l < length (key_cells p es' tab')"
    then show "key_cells p es' tab' ! l = (key_cells p es tab)[j := Dead] ! l"
      using other j(1) by (cases "l = j") (simp_all add: tab'_def, simp add: cell_of_def minus_one_two)
  qed (simp add: tab'_def)
  show "slots_valid kh p es' tab'"
    unfolding slots_valid_def
  proof (intro allI impI)
    fix l assume "l < length tab'"
    then show "slot_valid kh p es' (tab' ! l)"
      using other j(1) by (cases "l = j") (simp_all add: tab'_def slot_valid_def occupied_def)
  qed
qed

lemma slab_remove:
  assumes ok: "slab_ok es fr" and i: "i < length es" "es ! i \<noteq> None" "unat (of_nat i :: u32) = i"
  shows "slab_ok (es[i := None]) (fr @ [of_nat i])"
proof -
  have "of_nat i \<notin> set fr"
  proof
    assume "of_nat i \<in> set fr"
    then have "unat (of_nat i :: u32) \<in> unat ` set fr" by blast
    then show False using ok i by (simp add: slab_ok_def)
  qed
  moreover have "{l. l < length es \<and> es[i := None] ! l = None} = insert i {l. l < length es \<and> es ! l = None}"
    using i by (auto simp: nth_list_update split: if_splits)
  ultimately show ?thesis using ok i by (simp add: slab_ok_def)
qed

lemma index_remove:
  assumes inv: "core_inv kh p es tab fr n t" and i: "i < length es" "es ! i = Some m"
  defines "j \<equiv> unat (table_slot m)" and "es' \<equiv> es[i := None]"
  defines "tab' \<equiv> tab[j := (tab ! j)\<lparr>ks_entry := TOMBSTONE\<rparr>]"
  shows "index_inv kh p es' tab' (live_set es')"
proof -
  have i': "i \<in> live_set es" "i < length p" using i core_invD(5) [OF inv] by (auto simp: live_set_def)
  note j = slot_of_entry [OF core_invD(2) [OF inv] i' core_invD(6) [OF inv] i(2), folded j_def]
  note cells = cells_remove [OF inv i, folded j_def es'_def, folded tab'_def]
  have inv1: "unat (ks_entry (tab ! l)) \<in> live_set es \<and> unat (table_slot m') = l"
    if "l < length tab" "occupied (tab ! l)" "es ! unat (ks_entry (tab ! l)) = Some m'" for l m'
    using core_invD(2) [OF inv] that unfolding index_inv_def by blast
  have inv2: "unat (table_slot m') < length tab \<and> ks_entry (tab ! unat (table_slot m')) = of_nat l"
    if "l \<in> live_set es" "es ! l = Some m'" for l m'
    using core_invD(2) [OF inv] that unfolding index_inv_def by blast
  show ?thesis
    unfolding index_inv_def cells(1)
  proof (intro conjI allI impI)
    fix l m' assume l: "l < length tab'" "occupied (tab' ! l)" "es' ! unat (ks_entry (tab' ! l)) = Some m'"
    then have "l \<noteq> j" using j(1) by (auto simp: tab'_def occupied_def)
    then have same: "tab' ! l = tab ! l" by (simp add: tab'_def)
    then have ne: "unat (ks_entry (tab ! l)) \<noteq> i" using l i by (auto simp: es'_def)
    then have "es ! unat (ks_entry (tab ! l)) = Some m'" "occupied (tab ! l)" "l < length tab"
      using l same by (auto simp: es'_def tab'_def)
    from inv1 [OF this(3,2,1)] same ne
    show "unat (ks_entry (tab' ! l)) \<in> live_set es'" "unat (table_slot m') = l"
      using i by (simp_all add: es'_def live_set_remove)
  next
    fix l m' assume "l \<in> live_set es'" "es' ! l = Some m'"
    then have l: "l \<in> live_set es" "l \<noteq> i" "es ! l = Some m'"
      using i by (simp_all add: es'_def live_set_remove)
    note s = inv2 [OF l(1,3)]
    have "l < length p" using l core_invD(5) [OF inv] by (auto simp: live_set_def)
    then have "(of_nat l :: u32) \<noteq> of_nat i"
      using l(2) i'(2) unat_index [OF _ core_invD(6) [OF inv]] by metis
    then have "unat (table_slot m') \<noteq> j" using j(2) s by auto
    then show "unat (table_slot m') < length tab'" "ks_entry (tab' ! unat (table_slot m')) = of_nat l"
      using s by (simp_all add: tab'_def)
  qed (use table_ok_delete(1) [OF core_invD(7) [OF inv]] j cells in simp_all)
qed

lemma core_inv_remove:
  assumes inv: "core_inv kh p es tab fr n t" and i: "i < length es" "es ! i = Some m"
  defines "j \<equiv> unat (table_slot m)" and "es' \<equiv> es[i := None]"
  defines "tab' \<equiv> tab[j := (tab ! j)\<lparr>ks_entry := TOMBSTONE\<rparr>]"
  shows "core_inv kh p es' tab' (fr @ [of_nat i]) (n - 1) (Suc t)" "0 < n" "j < length tab"
proof -
  have i': "i \<in> live_set es" "i < length p" using i core_invD(5) [OF inv] by (auto simp: live_set_def)
  note j = slot_of_entry [OF core_invD(2) [OF inv] i' core_invD(6) [OF inv] i(2), folded j_def]
  then show "j < length tab" by simp
  have cnt: "counts_ok p ((key_cells p es tab)[j := Dead]) (n - 1) (Suc t)" "0 < n"
    using core_invD(3) [OF inv] live_update [of j "key_cells p es tab" Dead]
      dead_update [of j "key_cells p es tab" Dead] j by (auto simp: counts_ok_def)
  then show "0 < n" by simp
  have "slab_ok es' (fr @ [of_nat i])"
    unfolding es'_def using core_invD(1) [OF inv] i unat_index [OF i'(2) core_invD(6) [OF inv]]
    by (intro slab_remove) simp_all
  moreover have "blocks_ok p es'"
  proof -
    have old: "es' ! l = Some m' \<Longrightarrow> l < length es \<Longrightarrow> es ! l = Some m'" for l m'
      by (cases "l = i") (simp_all add: es'_def)
    have "length es' = length es" by (simp add: es'_def)
    then show ?thesis using core_invD(4) [OF inv] old unfolding blocks_ok_def by metis
  qed
  moreover have "index_inv kh p es' tab' (live_set es')"
    unfolding es'_def tab'_def j_def by (rule index_remove [OF inv i])
  moreover have "key_cells p es' tab' = (key_cells p es tab)[j := Dead]"
    unfolding es'_def tab'_def j_def by (rule cells_remove(1) [OF inv i])
  ultimately show "core_inv kh p es' tab' (fr @ [of_nat i]) (n - 1) (Suc t)"
    using core_invD(5,6) [OF inv] cnt by (simp add: core_inv_def es'_def)
qed

subsection \<open>Entering an entry into the table\<close>

lemma index_invD:
  assumes "index_inv kh p es tab I"
  shows "table_ok (khome kh) (key_cells p es tab)" "slots_valid kh p es tab"
    "\<And>l m. l < length tab \<Longrightarrow> occupied (tab ! l) \<Longrightarrow> es ! unat (ks_entry (tab ! l)) = Some m \<Longrightarrow>
      unat (ks_entry (tab ! l)) \<in> I \<and> unat (table_slot m) = l"
    "\<And>l m. l \<in> I \<Longrightarrow> es ! l = Some m \<Longrightarrow>
      unat (table_slot m) < length tab \<and> ks_entry (tab ! unat (table_slot m)) = of_nat l"
  using assms unfolding index_inv_def by blast+

lemma index_occupied:
  assumes inv: "index_inv kh p es tab I" and l: "l < length tab" "occupied (tab ! l)"
  obtains m where "es ! unat (ks_entry (tab ! l)) = Some m" "unat (ks_entry (tab ! l)) \<in> I"
    "unat (ks_entry (tab ! l)) < length es" "unat (table_slot m) = l"
proof -
  obtain m where "unat (ks_entry (tab ! l)) < length es" "es ! unat (ks_entry (tab ! l)) = Some m"
    using index_invD(2) [OF inv] l by (auto simp: slots_valid_def slot_valid_def)
  then show thesis using index_invD(3) [OF inv l] that by blast
qed

lemma cells_add:
  fixes s :: u32
  assumes inv: "index_inv kh p es tab I" and i: "i \<notin> I" "i < length es" "i < length p" "length p \<le> 2 ^ 30"
    and m: "es ! i = Some m" "in_pool p m" and j: "j < length tab"
  defines "es' \<equiv> es[i := Some (m\<lparr>table_slot := s\<rparr>)]"
    and "tab' \<equiv> tab[j := \<lparr>ks_hash = kh (key_of p m), ks_entry = of_nat i\<rparr>]"
  shows "key_cells p es' tab' = (key_cells p es tab)[j := Live (key_of p m)]" "slots_valid kh p es' tab'"
proof -
  have other: "slot_valid kh p es' (tab ! l) \<and> cell_of p es' (tab ! l) = cell_of p es (tab ! l)"
    if l: "l < length tab" "l \<noteq> j" for l
  proof (cases "occupied (tab ! l)")
    case True
    from index_occupied [OF inv l(1) True] have "unat (ks_entry (tab ! l)) \<noteq> i" using i(1) by metis
    moreover have "slot_valid kh p es (tab ! l)" using index_invD(2) [OF inv] l by (simp add: slots_valid_def)
    ultimately show ?thesis by (simp add: es'_def slot_valid_def cell_of_def)
  qed (auto simp: slot_valid_def cell_of_def occupied_def)
  have new: "cell_of p es' (tab' ! j) = Live (key_of p m)" "slot_valid kh p es' (tab' ! j)"
    using i m j index_ne [OF i(3,4)] unat_index [OF i(3,4)]
    by (simp_all add: es'_def tab'_def cell_of_def slot_valid_def key_of_def text_of_def in_pool_def total_len_def)
  show "key_cells p es' tab' = (key_cells p es tab)[j := Live (key_of p m)]"
  proof (rule nth_equalityI)
    fix l assume "l < length (key_cells p es' tab')"
    then show "key_cells p es' tab' ! l = (key_cells p es tab)[j := Live (key_of p m)] ! l"
      using other new j by (cases "l = j") (simp_all add: tab'_def)
  qed (simp add: tab'_def)
  show "slots_valid kh p es' tab'"
    unfolding slots_valid_def
  proof (intro allI impI)
    fix l assume "l < length tab'"
    then show "slot_valid kh p es' (tab' ! l)"
      using other new j by (cases "l = j") (simp_all add: tab'_def)
  qed
qed

lemma index_add:
  assumes inv: "index_inv kh p es tab I" and i: "i \<notin> I" "i < length es" "i < length p" "length p \<le> 2 ^ 30"
    and I: "I \<subseteq> {..<length p}" and m: "es ! i = Some m" "in_pool p m"
    and new: "key_of p m \<notin> cell_keys (key_cells p es tab)"
    and j: "j = pos (length tab) (khome kh (key_of p m)) d"
      "\<forall>e<d. key_cells p es tab ! pos (length tab) (khome kh (key_of p m)) e \<noteq> Free"
      "key_cells p es tab ! j \<in> {Free, Dead}"
    and room: "used (key_cells p es tab) + 1 < length tab" "length tab \<le> 2 ^ 32"
  defines "es' \<equiv> es[i := Some (m\<lparr>table_slot := of_nat j\<rparr>)]"
    and "tab' \<equiv> tab[j := \<lparr>ks_hash = kh (key_of p m), ks_entry = of_nat i\<rparr>]"
  shows "index_inv kh p es' tab' (insert i I)"
proof -
  have "0 < length tab" using room by linarith
  then have jl: "j < length tab" using j(1) by simp
  note cells = cells_add [OF inv i m jl, where s = "of_nat j", folded es'_def tab'_def]
  have uj: "unat (of_nat j :: u32) = j" using jl room(2) by (simp add: unat_of_nat)
  have ok: "table_ok (khome kh) ((key_cells p es tab)[j := Live (key_of p m)])"
  proof (rule table_ok_insert(1) [OF index_invD(1) [OF inv] new])
    show "Free \<in> set ((key_cells p es tab)[j := Live (key_of p m)])"
      using used_update [of j "key_cells p es tab" "Live (key_of p m)"] jl room
      by (intro Free_exists) (auto split: if_splits)
  qed (use j in auto)
  show ?thesis
    unfolding index_inv_def cells(1)
  proof (intro conjI allI impI)
    fix l m' assume l: "l < length tab'" "occupied (tab' ! l)" "es' ! unat (ks_entry (tab' ! l)) = Some m'"
    show "unat (ks_entry (tab' ! l)) \<in> insert i I" "unat (table_slot m') = l"
    proof (atomize (full), cases "l = j")
      case True
      then show "unat (ks_entry (tab' ! l)) \<in> insert i I \<and> unat (table_slot m') = l"
        using l jl unat_index [OF i(3,4)] i uj by (auto simp: tab'_def es'_def)
    next
      case False
      then have old: "l < length tab" "occupied (tab ! l)" "tab' ! l = tab ! l" using l by (simp_all add: tab'_def)
      from index_occupied [OF inv old(1,2)] obtain m'' where "unat (ks_entry (tab ! l)) \<in> I"
        "es ! unat (ks_entry (tab ! l)) = Some m''" "unat (table_slot m'') = l" by metis
      moreover from this have "unat (ks_entry (tab ! l)) \<noteq> i" using i(1) by auto
      ultimately show "unat (ks_entry (tab' ! l)) \<in> insert i I \<and> unat (table_slot m') = l"
        using l old by (simp add: es'_def)
    qed
  next
    fix l m' assume l: "l \<in> insert i I" "es' ! l = Some m'"
    show "unat (table_slot m') < length tab'" "ks_entry (tab' ! unat (table_slot m')) = of_nat l"
    proof (atomize (full), cases "l = i")
      case True
      then show "unat (table_slot m') < length tab' \<and> ks_entry (tab' ! unat (table_slot m')) = of_nat l"
        using l i jl uj by (auto simp: tab'_def es'_def)
    next
      case False
      then have "l \<in> I" "es ! l = Some m'" using l by (simp_all add: es'_def)
      note s = index_invD(4) [OF inv this]
      have "occupied (tab ! unat (table_slot m'))"
        using slot_of_entry(3) [OF inv \<open>l \<in> I\<close> _ i(4) \<open>es ! l = Some m'\<close>] \<open>l \<in> I\<close> I by auto
      moreover have "\<not> occupied (tab ! j)" using j(3) jl by (auto simp: cell_of_simps occupied_def)
      ultimately have "unat (table_slot m') \<noteq> j" by metis
      then show "unat (table_slot m') < length tab' \<and> ks_entry (tab' ! unat (table_slot m')) = of_nat l"
        using s by (simp add: tab'_def)
    qed
  qed (use ok cells in simp_all)
qed

end
