(* ===== verification/Cache_Rehash.thy ===== *)
theory Cache_Rehash
  imports Cache_Core
begin

text \<open>
  Growing and cleaning the table: \<open>rehash\<close> rebuilds it from the slab, and
  \<open>ensure_table_capacity\<close> leaves room for one more key while the number of slots stays within
  four times the size of the pool, so that a slot number fits 32 bits.
\<close>

definition unslotted :: "('rt, 'cl) entry_meta \<Rightarrow> ('rt, 'cl) entry_meta" where
  "unslotted m = m\<lparr>table_slot := 0\<rparr>"

lemma unslotted_update [simp]: "unslotted (m\<lparr>table_slot := s\<rparr>) = unslotted m"
  by (simp add: unslotted_def)

lemma static_unslotted [simp]: "static (unslotted m) = static m"
  by (simp add: unslotted_def static_def)

lemma unslotted_static: "same_by unslotted es es' \<Longrightarrow> same_static es es'"
  using same_by_compose [of unslotted es es' static static] by simp

lemma links_unslotted [simp]: "links_of (unslotted m) = links_of m"
  by (simp add: unslotted_def links_of_def)

lemma lru_ok_unslotted: "same_by unslotted es es' \<Longrightarrow> lru_ok es h t xs \<Longrightarrow> lru_ok es' h t xs"
  using lru_ok_links same_by_compose [of unslotted es es' links_of links_of] by simp

subsection \<open>Rebuilding the table\<close>

text \<open>The first \<open>k\<close> entries have been entered into a table of \<open>L\<close> slots.\<close>

definition rehashed ::
  "(('rt, 'cl) cache_key \<Rightarrow> u64) \<Rightarrow> ('h, 'rt, 'cl) cache_state \<Rightarrow> nat \<Rightarrow> nat \<Rightarrow> ('h, 'rt, 'cl) cache_state \<Rightarrow> bool"
where
  "rehashed kh st0 L k st \<longleftrightarrow>
     same_by unslotted (entries st0) (entries st) \<and>
     pool st = pool st0 \<and> heap st = heap st0 \<and> free_entries st = free_entries st0 \<and>
     lru_head st = lru_head st0 \<and> lru_tail st = lru_tail st0 \<and> tombstones st = 0 \<and>
     length (table st) = L \<and>
     index_inv kh (pool st0) (entries st) (table st) (live_set (entries st0) \<inter> {..<k}) \<and>
     table_len st = live (key_cells (pool st0) (entries st) (table st)) \<and>
     dead (key_cells (pool st0) (entries st) (table st)) = 0"

lemma rehashed_start:
  assumes "\<exists>b. L = 2 ^ b"
  shows "rehashed kh st L 0 (st\<lparr>table := replicate L EMPTY_KEY_SLOT, table_len := 0, tombstones := 0\<rparr>)"
proof -
  have "key_cells (pool st) (entries st) (replicate L EMPTY_KEY_SLOT) = replicate L Free"
    by (simp add: key_cells_def cell_of_def)
  then show ?thesis
    using assms table_ok_replicate
    by (auto simp: rehashed_def index_inv_def slots_valid_def slot_valid_def occupied_def)
qed

lemma live_index_keys:
  assumes inv: "index_inv kh p es tab I" and I: "I \<subseteq> {..<length p}" "length p \<le> 2 ^ 30"
    and sub: "{key_of p m | i m. i \<in> I \<and> es ! i = Some m} \<subset> K" "finite K"
  shows "live (key_cells p es tab) < card K"
proof -
  have "keys_distinct (key_cells p es tab)" using inv by (simp add: index_inv_def table_ok_def)
  then have "live (key_cells p es tab) = card (cell_keys (key_cells p es tab))" by (rule live_card)
  then show ?thesis using psubset_card_mono [OF sub(2,1)] index_keys [OF inv I] by simp
qed


definition slab_keys :: "bytes \<Rightarrow> ('rt, 'cl) entry_meta option list \<Rightarrow> ('rt, 'cl) cache_key set" where
  "slab_keys p es = {key_of p m | i m. i < length es \<and> es ! i = Some m}"

lemma slab_keys_cong: "same_static es es' \<Longrightarrow> slab_keys p es' = slab_keys p es"
proof -
  have "slab_keys p es \<subseteq> slab_keys p es'" if ss: "same_static es es'" for es es' :: "('a, 'b) entry_meta option list"
  proof
    fix k assume "k \<in> slab_keys p es"
    then obtain i m where m: "i < length es" "es ! i = Some m" "k = key_of p m" by (auto simp: slab_keys_def)
    then have i: "i < length es'" using same_by_length [OF ss] by simp
    obtain m' where m': "es' ! i = Some m'" "static m' = static m"
      by (rule same_by_Some [OF same_by_sym [OF ss] i m(2)])
    then have "k = key_of p m'" using m(3) static_eqD(3) [OF m'(2), of p] by simp
    then show "k \<in> slab_keys p es'" using i m'(1) unfolding slab_keys_def by blast
  qed
  then show "same_static es es' \<Longrightarrow> slab_keys p es' = slab_keys p es" using same_by_sym by blast
qed

lemma card_slab_keys: "card (slab_keys p es) \<le> length es"
proof -
  have "slab_keys p es \<subseteq> (\<lambda>i. key_of p (the (es ! i))) ` {..<length es}"
    unfolding slab_keys_def by force
  then show ?thesis by (metis card_image_le card_lessThan card_mono finite_imageI finite_lessThan le_trans)
qed

lemma live_count:
  assumes inv: "core_inv kh p es tab fr n t"
  shows "n = card (slab_keys p es)"
proof -
  have "keys_distinct (key_cells p es tab)" using core_invD(7) [OF inv] by (simp add: table_ok_def)
  then show ?thesis
    using live_card live_keys [OF inv] core_invD(3) [OF inv] unfolding slab_keys_def by (metis counts_ok_def)
qed

lemma rehashed_new_key:
  assumes core: "core_inv kh (pool st0) (entries st0) tab fr n t" and re: "rehashed kh st0 L k st"
    and k: "k < length (entries st0)" "entries st ! k = Some m"
  shows "key_of (pool st0) m \<notin> cell_keys (key_cells (pool st0) (entries st) (table st))"
    "used (key_cells (pool st0) (entries st) (table st)) < n" "in_pool (pool st0) m" "k \<in> live_set (entries st0)"
proof -
  let ?p = "pool st0" and ?I = "live_set (entries st0) \<inter> {..<k}"
  have ss: "same_static (entries st0) (entries st)" using re by (simp add: rehashed_def unslotted_static)
  have inv: "index_inv kh ?p (entries st) (table st) ?I" using re by (simp add: rehashed_def)
  have I: "?I \<subseteq> {..<length ?p}" using core_live [OF core] by auto
  have old: "\<exists>m0. entries st0 ! i = Some m0 \<and> key_of ?p m0 = key_of ?p m \<and> in_pool ?p m0 = in_pool ?p m"
    if "i < length (entries st0)" "entries st ! i = Some m" for i m
    using same_by_Some [OF ss that] static_eqD(3,4) [of _ m ?p] by metis
  from old [OF k] obtain m0 where m0: "entries st0 ! k = Some m0" "key_of ?p m0 = key_of ?p m"
    "in_pool ?p m0 = in_pool ?p m" by blast
  then show "in_pool ?p m" "k \<in> live_set (entries st0)"
    using core_invD(4) [OF core] k by (auto simp: blocks_ok_def live_set_def)
  let ?K = "slab_keys ?p (entries st0)"
  have "key_of ?p m \<notin> {key_of ?p m | i m. i \<in> ?I \<and> entries st ! i = Some m}"
  proof
    assume "key_of ?p m \<in> {key_of ?p m | i m. i \<in> ?I \<and> entries st ! i = Some m}"
    then obtain i m' where i: "i \<in> ?I" "entries st ! i = Some m'" "key_of ?p m' = key_of ?p m" by auto
    then have "i < length (entries st0)" by (simp add: live_set_def)
    with old [OF this i(2)] obtain m1 where "entries st0 ! i = Some m1" "key_of ?p m1 = key_of ?p m0"
      using i(3) m0(2) by metis
    then have "i = k" using distinct_keys [OF core \<open>i < length (entries st0)\<close> _ k(1) m0(1)] by blast
    then show False using i(1) by simp
  qed
  moreover have "{key_of ?p m | i m. i \<in> ?I \<and> entries st ! i = Some m} \<subseteq> ?K"
  proof
    fix x assume "x \<in> {key_of ?p m | i m. i \<in> ?I \<and> entries st ! i = Some m}"
    then obtain i m where "x = key_of ?p m" "i < length (entries st0)" "entries st ! i = Some m"
      by (auto simp: live_set_def)
    with old [of i m] show "x \<in> ?K" unfolding slab_keys_def by (metis (mono_tags, lifting) mem_Collect_eq)
  qed
  moreover have "key_of ?p m \<in> ?K" using k(1) m0 unfolding slab_keys_def by (metis (mono_tags, lifting) mem_Collect_eq)
  ultimately have "{key_of ?p m | i m. i \<in> ?I \<and> entries st ! i = Some m} \<subset> ?K" by blast
  moreover have "finite ?K" using live_keys [OF core] unfolding slab_keys_def by (metis finite_cell_keys)
  ultimately have "live (key_cells ?p (entries st) (table st)) < n"
    using live_index_keys [OF inv I core_invD(6) [OF core]] live_count [OF core] by simp
  then show "used (key_cells ?p (entries st) (table st)) < n"
    using re by (simp add: used_split rehashed_def)
  show "key_of ?p m \<notin> cell_keys (key_cells ?p (entries st) (table st))"
    unfolding index_keys [OF inv I core_invD(6) [OF core]] by fact
qed


lemma rehash_entry_step:
  assumes core: "core_inv (key_hash env) (pool st0) (entries st0) tab fr n t" and L: "n < L" "L \<le> 2 ^ 32"
    and k: "k < length (entries st0)" and re: "rehashed (key_hash env) st0 L k st"
  shows "\<exists>st'. rehash_entry env k st = Some st' \<and> rehashed (key_hash env) st0 L (Suc k) st'"
proof -
  let ?p = "pool st0" and ?es = "entries st" and ?kh = "key_hash env"
  let ?I = "live_set (entries st0) \<inter> {..<k}"
  have p: "pool st = pool st0" and inv: "index_inv ?kh ?p ?es (table st) ?I"
    and un: "same_by unslotted (entries st0) ?es" and len: "length (table st) = L"
    using re unfolding rehashed_def by blast+
  have kp: "k < length ?p" "length ?p \<le> 2 ^ 30" using core_invD(5,6) [OF core] k by simp_all
  have kl: "k < length ?es" using same_by_length [OF un] k by simp
  note uk = unat_index [OF kp]
  show ?thesis
  proof (cases "?es ! k")
    case None
    then have "?I = live_set (entries st0) \<inter> {..<Suc k}"
      using same_by_None [OF un k] by (auto simp: live_set_def less_Suc_eq)
    then show ?thesis using None kl uk re by (simp add: rehash_entry_def rehashed_def get_def)
  next
    case (Some m)
    note new = rehashed_new_key [OF core re k Some]
    have I: "?I \<subseteq> {..<length ?p}" using core_live [OF core] by auto
    have "?I \<union> {k} = live_set (entries st0) \<inter> {..<Suc k}" using new(4) by auto
    then have insI: "insert k ?I = live_set (entries st0) \<inter> {..<Suc k}" by simp
    have en: "entry st (of_nat k) = Some m" using Some kl uk by (simp add: entry_eq_Some)
    obtain d where d: "locate st (?kh (key_of ?p m)) (key_of ?p m) =
        Some (Vacant (pos (length (table st)) (khome ?kh (key_of ?p m)) d))"
      "\<forall>e<d. key_cells ?p ?es (table st) ! pos (length (table st)) (khome ?kh (key_of ?p m)) e \<noteq> Free"
      "key_cells ?p ?es (table st) ! pos (length (table st)) (khome ?kh (key_of ?p m)) d \<in> {Free, Dead}"
      using locate_correct(2) [of env st, unfolded p, OF index_invD(2,1) [OF inv] new(1)] by blast
    define j where "j = pos (length (table st)) (khome ?kh (key_of ?p m)) d"
    define es' where "es' = ?es[k := Some (m\<lparr>table_slot := of_nat j\<rparr>)]"
    define tab' where "tab' = (table st)[j := \<lparr>ks_hash = ?kh (key_of ?p m), ks_entry = of_nat k\<rparr>]"
    define st' where "st' = st\<lparr>table := tab', table_len := table_len st + 1, entries := es'\<rparr>"
    have jl: "j < length (table st)" using L len by (simp add: j_def)
    have key: "(fst (key_of ?p m), record_type m, dns_class m, flags m) = key_of ?p m" by (simp add: key_of_def)
    have run: "rehash_entry env k st = Some st'"
      using en Some kl uk entry_name_eq [OF en, unfolded p, OF new(3)] d(1)
      by (simp add: rehash_entry_def get_def Let_def key j_def [symmetric] entry_mut_def entry_def st'_def
        es'_def tab'_def)
    have inv': "index_inv ?kh ?p es' tab' (insert k ?I)"
      unfolding es'_def tab'_def
      using new(2) L len by (intro index_add [OF inv _ kl kp I Some new(3,1) j_def]) (use d in \<open>simp_all add: j_def\<close>)
    have cells: "key_cells ?p es' tab' = (key_cells ?p ?es (table st))[j := Live (key_of ?p m)]"
      unfolding es'_def tab'_def by (rule cells_add(1) [OF inv _ kl kp Some new(3) jl]) simp
    have "live (key_cells ?p es' tab') = live (key_cells ?p ?es (table st)) + 1" "dead (key_cells ?p es' tab') = 0"
      using live_update [of j "key_cells ?p ?es (table st)" "Live (key_of ?p m)"]
        dead_update [of j "key_cells ?p ?es (table st)" "Live (key_of ?p m)"] d(3) jl re
      unfolding cells j_def [symmetric] rehashed_def by auto
    moreover have "same_by unslotted (entries st0) es'"
      unfolding es'_def using same_by_trans [OF un] same_by_update [OF Some, of unslotted] by simp
    ultimately show ?thesis
      using run inv' re unfolding insI by (auto simp: rehashed_def st'_def tab'_def)
  qed
qed

text \<open>Everything but the table and the slots of the entries stays.\<close>

definition table_only :: "('h, 'rt, 'cl) cache_state \<Rightarrow> ('h, 'rt, 'cl) cache_state \<Rightarrow> bool" where
  "table_only st st' \<longleftrightarrow>
     same_by unslotted (entries st) (entries st') \<and> pool st' = pool st \<and> heap st' = heap st \<and>
     free_entries st' = free_entries st \<and> lru_head st' = lru_head st \<and> lru_tail st' = lru_tail st"

abbreviation state_core ::
  "(('rt, 'cl) cache_key \<Rightarrow> u64) \<Rightarrow> ('h, 'rt, 'cl) cache_state \<Rightarrow> bool" where
  "state_core kh st \<equiv>
     core_inv kh (pool st) (entries st) (table st) (free_entries st) (table_len st) (tombstones st)"

lemma rehashed_done:
  assumes core: "state_core kh st" and re: "rehashed kh st L (length (entries st)) st'"
    and L: "64 \<le> L" "table_len st * 4 < L * 3" "L \<le> max 64 (4 * length (pool st) + 2)"
  shows "state_core kh st'" "table_only st st'" "table_len st' = table_len st" "tombstones st' = 0"
    "length (table st') = L"
proof -
  let ?cs = "key_cells (pool st) (entries st') (table st')"
  have un: "same_by unslotted (entries st) (entries st')" and len: "length (table st') = L"
    and same: "pool st' = pool st" "free_entries st' = free_entries st" "tombstones st' = 0"
    and inv0: "index_inv kh (pool st) (entries st') (table st') (live_set (entries st) \<inter> {..<length (entries st)})"
    and n: "table_len st' = live ?cs" "dead ?cs = 0"
    using re unfolding rehashed_def by blast+
  note ss = unslotted_static [OF un]
  have "live_set (entries st) \<inter> {..<length (entries st)} = live_set (entries st')"
    unfolding live_set_cong [OF ss] by (auto simp: live_set_def)
  with inv0 have inv: "index_inv kh (pool st) (entries st') (table st') (live_set (entries st'))" by simp
  have I: "live_set (entries st') \<subseteq> {..<length (pool st)}"
    unfolding live_set_cong [OF ss] by (rule core_live [OF core])
  have keys: "{key_of (pool st) m | i m. i \<in> live_set (entries st') \<and> entries st' ! i = Some m} =
      slab_keys (pool st) (entries st)"
    unfolding slab_keys_cong [OF ss, symmetric] by (auto simp: live_set_def slab_keys_def)
  have "keys_distinct ?cs" using index_invD(1) [OF inv] by (simp add: table_ok_def)
  then show tl: "table_len st' = table_len st"
    using n live_card index_keys [OF inv I core_invD(6) [OF core]] keys live_count [OF core] by metis
  then show "state_core kh st'"
    using inv n L len same core slab_ok_cong [OF ss] blocks_ok_cong [OF ss] same_by_length [OF ss]
    by (simp add: core_inv_def counts_ok_def)
qed (use re in \<open>auto simp: rehashed_def table_only_def\<close>)

lemma table_size:
  assumes "L = 2 ^ b" "L \<le> max 64 (4 * length p + 2)" "length (p :: bytes) \<le> 2 ^ 30"
  shows "L \<le> 2 ^ 32"
proof -
  have "(2::nat) ^ b < 2 ^ 33" using assms by simp
  then have "b \<le> 32" using power_strict_increasing_iff [of "2::nat" b 33] by simp
  then show ?thesis unfolding assms(1) by (rule power_increasing) simp
qed

lemma rehash_ok:
  assumes core: "state_core (key_hash env) st" and pow: "\<exists>b. L = 2 ^ b"
    and L: "64 \<le> L" "table_len st * 4 < L * 3" "L \<le> max 64 (4 * length (pool st) + 2)"
  shows "\<exists>st'. rehash env L st = Some st' \<and> rehashed (key_hash env) st L (length (entries st)) st'"
proof -
  have L32: "L \<le> 2 ^ 32" using pow table_size L(3) core_invD(6) [OF core] by blast
  have "table_len st < L" using L(2) by simp
  from foldM_range [of 0 "length (entries st)" "rehashed (key_hash env) st L" "rehash_entry env",
      OF _ _ rehashed_start [OF pow]]
  show ?thesis unfolding rehash_def using rehash_entry_step [OF core \<open>table_len st < L\<close> L32] by blast
qed

lemma ensure_table_capacity_ok:
  assumes core: "state_core (key_hash env) st"
  shows "\<exists>st'. ensure_table_capacity env st = Some st' \<and> state_core (key_hash env) st' \<and> table_only st st' \<and>
    (table_len st' + tombstones st' + 1) * 4 < length (table st') * 3"
proof (cases "(table_len st + tombstones st + 1) * 4 < length (table st) * 3")
  case True
  then show ?thesis using core by (simp add: ensure_table_capacity_def table_only_def)
next
  case False
  define L where "L = (if tombstones st > table_len st div 2 then length (table st) else length (table st) * 2)"
  have cnt: "(table_len st + tombstones st) * 4 < length (table st) * 3" "64 \<le> length (table st)"
    "length (table st) \<le> max 64 (4 * length (pool st) + 2)"
    using core_invD(3) [OF core] by (simp_all add: counts_ok_def)
  obtain b where b: "length (table st) = 2 ^ b" using core_invD(7) [OF core] by (auto simp: table_ok_def)
  then have "L = 2 ^ (if tombstones st > table_len st div 2 then b else Suc b)" by (simp add: L_def)
  then have pow: "\<exists>b. L = 2 ^ b" by blast
  have "table_len st \<le> length (pool st)"
    using live_count [OF core] card_slab_keys [of "pool st" "entries st"] core_invD(5) [OF core] by simp
  then have L: "64 \<le> L" "(table_len st + 1) * 4 < L * 3" "L \<le> max 64 (4 * length (pool st) + 2)"
    using cnt False by (auto simp: L_def)
  then have L2: "table_len st * 4 < L * 3" by simp
  from rehash_ok [OF core pow L(1) L2 L(3)] obtain st' where
    "rehash env L st = Some st'" and re: "rehashed (key_hash env) st L (length (entries st)) st'" by blast
  then show ?thesis
    using False rehashed_done [OF core re L(1) L2 L(3)] L(2) by (simp add: ensure_table_capacity_def L_def)
qed

end
