(* ===== verification/Cache_Evict.thy ===== *)
theory Cache_Evict
  imports Cache_Rehash
begin

text \<open>
  Entries as a client sees them (\<open>cached\<close>), and the operations on the whole state that remove
  entries: \<open>evict\<close>, and the loop that evicts from the end of the LRU list until an allocation
  succeeds. Both keep the invariant and every other entry.
\<close>

subsection \<open>What an entry stands for\<close>

record ('rt, 'cl) cached =
  c_key :: "('rt, 'cl) cache_key"
  c_wire :: bytes
  c_request :: bytes
  c_expires :: instant
  c_stale :: instant
  c_ttl :: nat
  c_used :: instant
  c_retry :: instant
  c_reused :: bool
  c_failures :: u8
  c_claimed :: bool

definition abs_entry :: "bytes \<Rightarrow> ('rt, 'cl) entry_meta \<Rightarrow> ('rt, 'cl) cached" where
  "abs_entry p m =
     \<lparr>c_key = key_of p m, c_wire = take (unat (wire_len m)) (drop (unat (nm_len m)) (text_of p m)),
      c_request = drop (unat (nm_len m) + unat (wire_len m)) (text_of p m),
      c_expires = expires_at m, c_stale = stale_until m, c_ttl = original_ttl m, c_used = last_used m,
      c_retry = retry_after m, c_reused = reused m, c_failures = refresh_failures m,
      c_claimed = refresh_claimed m\<rparr>"

definition abs_at :: "('h, 'rt, 'cl) cache_state \<Rightarrow> u32 \<Rightarrow> ('rt, 'cl) cached" where
  "abs_at st e = abs_entry (pool st) (the (entries st ! unat e))"

lemma abs_entry_unlinked [simp]: "abs_entry p (unlinked m) = abs_entry p m"
  by (simp add: abs_entry_def unlinked_def key_of_def text_of_def total_len_def)

lemma abs_entry_unslotted [simp]: "abs_entry p (unslotted m) = abs_entry p m"
  by (simp add: abs_entry_def unslotted_def key_of_def text_of_def total_len_def)

lemma abs_at_entry: "entry st e = Some m \<Longrightarrow> abs_at st e = abs_entry (pool st) m"
  by (simp add: abs_at_def entry_eq_Some)

lemma abs_at_same:
  assumes "same_by (abs_entry (pool st)) (entries st) (entries st')" "pool st' = pool st"
    and "unat e < length (entries st)" "entries st ! unat e \<noteq> None"
  shows "abs_at st' e = abs_at st e"
proof -
  have "map_option (abs_entry (pool st)) (entries st' ! unat e) = map_option (abs_entry (pool st)) (entries st ! unat e)"
    using same_by_nth [OF assms(1,3)] .
  then show ?thesis using assms(2,4) unfolding abs_at_def
    by (metis option.map_disc_iff option.map_sel)
qed

lemma abs_at_links:
  assumes "links_only st st'" "unat e < length (entries st)" "entries st ! unat e \<noteq> None"
  shows "abs_at st' e = abs_at st e"
  using assms same_by_compose [of unlinked "entries st" "entries st'" "abs_entry (pool st)"]
  by (intro abs_at_same) (simp_all add: links_only_def)

lemma abs_at_table_only:
  assumes "table_only st st'" "unat e < length (entries st)" "entries st ! unat e \<noteq> None"
  shows "abs_at st' e = abs_at st e"
  using assms same_by_compose [of unslotted "entries st" "entries st'" "abs_entry (pool st)"]
  by (intro abs_at_same) (simp_all add: table_only_def)

lemma abs_entry_pool:
  "same_on B p p' \<Longrightarrow> block m \<in> B \<Longrightarrow> abs_entry p' m = abs_entry p m"
  by (simp add: abs_entry_def same_on_text)

lemma cache_inv_mem:
  "cache_inv env R X st xs \<Longrightarrow> e \<in> set xs \<Longrightarrow>
     e \<noteq> NONE \<and> unat e < length (entries st) \<and> entries st ! unat e \<noteq> None"
  unfolding cache_inv_def using lru_ok_mem by blast

subsection \<open>Eviction\<close>

lemma heap_specD:
  assumes "heap_spec ops R"
  shows "\<And>h p a n B h' p'. R h (length p) B \<Longrightarrow> (a, n) \<in> B \<Longrightarrow> deallocate ops h p a n = (h', p') \<Longrightarrow>
      R h' (length p) (B - {(a, n)}) \<and> same_on (B - {(a, n)}) p p'"
    and "\<And>h p n B h' p'. R h (length p) B \<Longrightarrow> 0 < n \<Longrightarrow> allocate_first_fit ops h p n = (None, h', p') \<Longrightarrow>
      R h' (length p) B \<and> same_on B p p'"
    and "\<And>h p n B a h' p'. R h (length p) B \<Longrightarrow> 0 < n \<Longrightarrow> allocate_first_fit ops h p n = (Some a, h', p') \<Longrightarrow>
      R h' (length p) (insert (a, n) B) \<and> a + n \<le> length p \<and> (\<forall>b\<in>B. apart (a, n) b) \<and> same_on B p p'"
proof -
  show "R h' (length p) (B - {(a, n)}) \<and> same_on (B - {(a, n)}) p p'"
    if "R h (length p) B" "(a, n) \<in> B" "deallocate ops h p a n = (h', p')" for h p a n B h' p'
    using assms that unfolding heap_spec_def by blast
  have al: "same_on B p p' \<and> (case r of None \<Rightarrow> R h' (length p) B | Some a \<Rightarrow>
      R h' (length p) (insert (a, n) B) \<and> a + n \<le> length p \<and> (\<forall>b\<in>B. apart (a, n) b))"
    if "R h (length p) B" "0 < n" "allocate_first_fit ops h p n = (r, h', p')" for h p n B r h' p'
    using assms that unfolding heap_spec_def by blast
  show "R h' (length p) B \<and> same_on B p p'"
    if "R h (length p) B" "0 < n" "allocate_first_fit ops h p n = (None, h', p')" for h p n B h' p'
    using al [OF that] by simp
  show "R h' (length p) (insert (a, n) B) \<and> a + n \<le> length p \<and> (\<forall>b\<in>B. apart (a, n) b) \<and> same_on B p p'"
    if "R h (length p) B" "0 < n" "allocate_first_fit ops h p n = (Some a, h', p')" for h p n B a h' p'
    using al [OF that] by simp
qed

lemma links_live: "links_only st st' \<Longrightarrow> live_set (entries st') = live_set (entries st)"
  using live_set_cong same_data_static by (auto simp: links_only_def)

lemma unat_image_remove: "e \<notin> set xs \<Longrightarrow> unat ` set xs = unat ` set (e # xs) - {unat (e :: u32)}"
  by (auto dest: unsigned_word_eqI)

lemma lru_ok_remove:
  "lru_ok es h t xs \<Longrightarrow> e \<notin> set xs \<Longrightarrow> lru_ok (es[unat e := None]) h t xs"
  by (simp add: lru_ok_def)

text \<open>The state after the block of an unlinked entry has been freed.\<close>

definition dropped ::
  "u32 \<Rightarrow> ('rt, 'cl) entry_meta \<Rightarrow> 'h \<times> bytes \<Rightarrow> ('h, 'rt, 'cl) cache_state \<Rightarrow> ('h, 'rt, 'cl) cache_state" where
  "dropped e m hp st =
     st\<lparr>entries := (entries st)[unat e := None],
        table := (table st)[unat (table_slot m) := (table st ! unat (table_slot m))\<lparr>ks_entry := TOMBSTONE\<rparr>],
        table_len := table_len st - 1, tombstones := tombstones st + 1, heap := fst hp, pool := snd hp,
        free_entries := free_entries st @ [e]\<rparr>"

lemma dropped_ok:
  assumes spec: "heap_spec (heap_impl env) R" and body: "body_inv env R X st" and m: "entry st e = Some m"
  defines "st' \<equiv> dropped e m (deallocate (heap_impl env) (heap st) (pool st) (offset m) (total_len m)) st"
  shows "body_inv env R X st'" "same_on (blocks (entries st')) (pool st) (pool st')"
    "0 < table_len st" "unat (table_slot m) < length (table st)"
proof -
  have core: "state_core (key_hash env) st" and h: "heap_inv R X st" using body by (simp_all add: body_inv_def)
  have m': "unat e < length (entries st)" "entries st ! unat e = Some m" using m by (simp_all add: entry_eq_Some)
  note rem = core_inv_remove [OF core m']
  then show "0 < table_len st" "unat (table_slot m) < length (table st)" by simp_all
  obtain hp p where hp: "deallocate (heap_impl env) (heap st) (pool st) (offset m) (total_len m) = (hp, p)"
    by (cases "deallocate (heap_impl env) (heap st) (pool st) (offset m) (total_len m)")
  have st': "entries st' = (entries st)[unat e := None]" "pool st' = p" "heap st' = hp"
    by (simp_all add: st'_def dropped_def hp)
  have bl: "blocks (entries st') = blocks (entries st) - {block m}"
    unfolding st' by (rule blocks_remove [OF core_invD(4) [OF core] m'])
  have mem: "block m \<in> blocks (entries st)" by (rule block_mem [OF m'])
  have X: "block m \<notin> X"
  proof
    assume "block m \<in> X"
    then have "0 < snd (block m)" "apart (block m) (block m)" using h mem unfolding heap_inv_def by blast+
    then show False by (simp add: apart_def)
  qed
  have "R hp (length (pool st)) (blocks (entries st) \<union> X - {block m}) \<and>
      same_on (blocks (entries st) \<union> X - {block m}) (pool st) p"
    unfolding block_def
  proof (rule heap_specD(1) [OF spec _ _ hp])
    show "(offset m, total_len m) \<in> blocks (entries st) \<union> X" using mem by (simp add: block_def)
  qed (use h in \<open>simp add: heap_inv_def\<close>)
  moreover have "blocks (entries st) \<union> X - {block m} = blocks (entries st') \<union> X" using bl X by blast
  ultimately have heap': "R hp (length (pool st)) (blocks (entries st') \<union> X)"
    "same_on (blocks (entries st') \<union> X) (pool st) p" by simp_all
  then show same: "same_on (blocks (entries st')) (pool st) (pool st')" by (auto simp: same_on_def st'(2))
  then have "length p = length (pool st)" by (simp add: same_on_def st'(2))
  then have "heap_inv R X st'" using heap' h bl by (auto simp: heap_inv_def st'(2,3))
  moreover have "state_core (key_hash env) st'"
    using core_inv_pool [OF rem(1), of p] same st' by (simp add: st'_def dropped_def)
  ultimately show "body_inv env R X st'" by (simp add: body_inv_def)
qed

text \<open>The entries \<open>xs\<close> stay as they are, and so do the load of the table and the sizes.\<close>

definition keeps :: "u32 list \<Rightarrow> ('h, 'rt, 'cl) cache_state \<Rightarrow> ('h, 'rt, 'cl) cache_state \<Rightarrow> bool" where
  "keeps xs st st' \<longleftrightarrow>
     (\<forall>x\<in>set xs. abs_at st' x = abs_at st x) \<and>
     table_len st' + tombstones st' = table_len st + tombstones st \<and> length (table st') = length (table st) \<and>
     length (pool st') = length (pool st) \<and> length (entries st') = length (entries st)"

lemma keeps_trans: "keeps xs st st' \<Longrightarrow> keeps ys st' st'' \<Longrightarrow> set ys \<subseteq> set xs \<Longrightarrow> keeps ys st st''"
  by (auto simp: keeps_def)

lemma evict_ok:
  assumes spec: "heap_spec (heap_impl env) R" and inv: "cache_inv env R X st (as @ e # bs)"
  shows "\<exists>st'. evict env e st = Some st' \<and> cache_inv env R X st' (as @ bs) \<and>
    keeps (as @ bs) st st'"
proof -
  have body: "body_inv env R X st" and lru: "lru_ok (entries st) (lru_head st) (lru_tail st) (as @ e # bs)"
    and live: "unat ` set (as @ e # bs) = live_set (entries st)"
    using inv unfolding cache_inv_def by blast+
  from unlink_ok [OF lru] obtain st1 where st1: "unlink e st = Some st1" "links_only st st1"
    "entry st1 e = entry st e" "lru_ok (entries st1) (lru_head st1) (lru_tail st1) (as @ bs)" by blast
  obtain m where "entry st e = Some m" using cache_inv_mem [OF inv, of e] by (auto simp: entry_eq_Some)
  then have m1: "entry st1 e = Some m" using st1(3) by simp
  then have m: "entry st1 e = Some m" "unat e < length (entries st1)" by (simp_all add: entry_eq_Some)
  define st' where
    "st' = dropped e m (deallocate (heap_impl env) (heap st1) (pool st1) (offset m) (total_len m)) st1"
  note d = dropped_ok [OF spec body_inv_links [OF body st1(2)] m(1), folded st'_def]
  have es': "entries st' = (entries st1)[unat e := None]" by (simp add: st'_def dropped_def)
  have run: "evict env e st = Some st'"
    using st1(1) m(1) d(3,4) by (simp add: evict_def get_def Let_def st'_def dropped_def case_prod_beta)
  have e: "e \<notin> set (as @ bs)" using lru by (simp add: lru_ok_def)
  have "unat ` set (as @ bs) = live_set (entries st')"
    unfolding es' live_set_remove [OF m(2)]
    using live unat_image_remove [OF e] links_live [OF st1(2)] by simp
  moreover have "lru_ok (entries st') (lru_head st') (lru_tail st') (as @ bs)"
    using lru_ok_remove [OF st1(4) e] es' by (simp add: st'_def dropped_def)
  ultimately have "cache_inv env R X st' (as @ bs)" using d(1) by (simp add: cache_inv_def)
  moreover have "abs_at st' x = abs_at st x" if x: "x \<in> set (as @ bs)" for x
  proof -
    have "x \<noteq> e" using x e by auto
    then have ne: "unat x \<noteq> unat e" by (auto dest: unsigned_word_eqI)
    have l: "unat x < length (entries st)" "entries st ! unat x \<noteq> None"
      using cache_inv_mem [OF inv, of x] x by auto
    obtain m' where m': "unat x < length (entries st1)" "entries st1 ! unat x = Some m'"
      using lru_ok_mem [OF st1(4) x] by auto
    then have "block m' \<in> blocks (entries st')" using block_mem [of "unat x" "entries st'" m'] ne by (simp add: es')
    then have "abs_at st' x = abs_at st1 x"
      using abs_entry_pool [OF d(2)] m' ne by (simp add: abs_at_def es')
    then show ?thesis using abs_at_links [OF st1(2) l] by simp
  qed
  moreover have "length (pool st') = length (pool st)"
    using d(2) st1(2) by (simp add: same_on_def links_only_def)
  moreover have "length (entries st') = length (entries st)"
    using st1(2) same_by_length by (auto simp: es' links_only_def)
  ultimately show ?thesis
    using run d(3) st1(2) by (auto simp: st'_def dropped_def links_only_def keeps_def)
qed

subsection \<open>Making room\<close>

lemma heap_step:
  assumes inv: "cache_inv env R X st xs" and same: "same_on (blocks (entries st)) (pool st) p"
    and h: "R h (length (pool st)) (blocks (entries st) \<union> Y)"
    and Y: "\<forall>y\<in>Y. 0 < snd y \<and> fst y + snd y \<le> length (pool st) \<and> (\<forall>b\<in>blocks (entries st). apart y b)"
  shows "cache_inv env R Y (st\<lparr>heap := h, pool := p\<rparr>) xs" "keeps xs st (st\<lparr>heap := h, pool := p\<rparr>)"
proof -
  have len: "length p = length (pool st)" using same by (simp add: same_on_def)
  show "cache_inv env R Y (st\<lparr>heap := h, pool := p\<rparr>) xs"
    using inv core_inv_pool [OF _ same] h Y len by (simp add: cache_inv_def body_inv_def heap_inv_def)
  have "abs_at (st\<lparr>heap := h, pool := p\<rparr>) x = abs_at st x" if x: "x \<in> set xs" for x
  proof -
    obtain m where "unat x < length (entries st)" "entries st ! unat x = Some m"
      using cache_inv_mem [OF inv x] by auto
    then show ?thesis using abs_entry_pool [OF same block_mem] by (simp add: abs_at_def)
  qed
  then show "keeps xs st (st\<lparr>heap := h, pool := p\<rparr>)" using len by (simp add: keeps_def)
qed

lemma evict_one_ok:
  assumes spec: "heap_spec (heap_impl env) R" and inv: "cache_inv env R X st xs"
  shows "xs = [] \<Longrightarrow> evict_one_for_space env st = Some (False, st)"
    and "xs \<noteq> [] \<Longrightarrow> \<exists>st'. evict_one_for_space env st = Some (True, st') \<and>
      cache_inv env R X st' (butlast xs) \<and> keeps (butlast xs) st st'"
proof -
  have tail: "lru_tail st = (if xs = [] then NONE else last xs)"
    using lru_ok_tail inv unfolding cache_inv_def by blast
  then show "xs = [] \<Longrightarrow> evict_one_for_space env st = Some (False, st)" by (simp add: evict_one_for_space_def)
  assume ne: "xs \<noteq> []"
  have "last xs \<noteq> NONE" using cache_inv_mem [OF inv, of "last xs"] ne by simp
  moreover have "cache_inv env R X st (butlast xs @ last xs # [])" using inv ne by simp
  ultimately show "\<exists>st'. evict_one_for_space env st = Some (True, st') \<and>
      cache_inv env R X st' (butlast xs) \<and> keeps (butlast xs) st st'"
    using evict_ok [OF spec, of X st "butlast xs" "last xs" "[]"] tail ne by (auto simp: evict_one_for_space_def)
qed

text \<open>The allocator finds a place for \<open>sz\<close> bytes in every pool of \<open>n\<close> bytes with no block in it.\<close>

definition always_fits :: "'h heap_ops \<Rightarrow> ('h \<Rightarrow> nat \<Rightarrow> (nat \<times> nat) set \<Rightarrow> bool) \<Rightarrow> nat \<Rightarrow> nat \<Rightarrow> bool" where
  "always_fits ops R n sz \<longleftrightarrow>
     (\<forall>h p. length p = n \<longrightarrow> R h n {} \<longrightarrow> fst (allocate_first_fit ops h p sz) \<noteq> None)"

lemma alloc_loop_ok:
  assumes spec: "heap_spec (heap_impl env) R" and sz: "0 < sz"
  shows "cache_inv env R {} st xs \<Longrightarrow> length xs < fuel \<Longrightarrow>
    \<exists>r st' n. alloc_loop env sz fuel st = Some (r, st') \<and> n \<le> length xs \<and> keeps (take n xs) st st' \<and>
      (case r of
         None \<Rightarrow> n = 0 \<and> cache_inv env R {} st' [] \<and> \<not> always_fits (heap_impl env) R (length (pool st)) sz
       | Some a \<Rightarrow> cache_inv env R {(a, sz)} st' (take n xs))"
proof (induction fuel arbitrary: st xs)
  case (Suc fuel)
  obtain r h p where al: "allocate_first_fit (heap_impl env) (heap st) (pool st) sz = (r, h, p)"
    by (cases "allocate_first_fit (heap_impl env) (heap st) (pool st) sz") auto
  have R: "R (heap st) (length (pool st)) (blocks (entries st))"
    using Suc.prems(1) by (simp add: cache_inv_def body_inv_def heap_inv_def)
  let ?st = "st\<lparr>heap := h, pool := p\<rparr>"
  show ?case
  proof (cases r)
    case (Some a)
    note sp = heap_specD(3) [OF spec R sz al [unfolded Some]]
    then have "cache_inv env R {(a, sz)} ?st xs" "keeps xs st ?st"
      using heap_step [OF Suc.prems(1), of p h "{(a, sz)}"] sz by simp_all
    then show ?thesis
      using al Some by (intro exI [of _ r] exI [of _ ?st] exI [of _ "length xs"]) simp
  next
    case None
    note sp = heap_specD(2) [OF spec R sz al [unfolded None]]
    then have inv: "cache_inv env R {} ?st xs" and ab: "keeps xs st ?st"
      using heap_step [OF Suc.prems(1), of p h "{}"] by simp_all
    note ev = evict_one_ok [OF spec inv]
    show ?thesis
    proof (cases "xs = []")
      case True
      then have "blocks (entries st) = {}"
        using Suc.prems(1) by (auto simp: cache_inv_def body_inv_def blocks_def live_set_def in_set_conv_nth)
      then have "\<not> always_fits (heap_impl env) R (length (pool st)) sz"
        using R al None unfolding always_fits_def by (metis fst_conv)
      then show ?thesis
        using True al None inv ev(1) ab by (intro exI [of _ None] exI [of _ ?st] exI [of _ 0]) simp
    next
      case False
      let ?ys = "butlast xs"
      from ev(2) [OF False] obtain st2 where st2: "evict_one_for_space env ?st = Some (True, st2)"
        "cache_inv env R {} st2 ?ys" "keeps ?ys ?st st2" by blast
      have "length ?ys < fuel" using Suc.prems(2) False by (cases xs) auto
      from Suc.IH [OF st2(2) this] obtain r' st' n where
        run: "alloc_loop env sz fuel st2 = Some (r', st')" and n: "n \<le> length ?ys" and k: "keeps (take n ?ys) st2 st'"
        and post: "case r' of
            None \<Rightarrow> n = 0 \<and> cache_inv env R {} st' [] \<and> \<not> always_fits (heap_impl env) R (length (pool st2)) sz
          | Some a \<Rightarrow> cache_inv env R {(a, sz)} st' (take n ?ys)" by blast
      have tk: "take n ?ys = take n xs" using n by (auto simp: butlast_conv_take min_def split: if_splits)
      have "set (take n ?ys) \<subseteq> set ?ys" by (rule set_take_subset)
      from keeps_trans [OF st2(3) k this] have "keeps (take n ?ys) ?st st'" .
      from keeps_trans [OF ab this] have "keeps (take n xs) st st'" by (simp add: tk set_take_subset)
      moreover have len: "length (pool st2) = length (pool st)" using ab st2(3) by (simp add: keeps_def)
      moreover have "alloc_loop env sz (Suc fuel) st = Some (r', st')"
        using al None st2(1) run by simp
      ultimately show ?thesis
        using post n unfolding tk len by (intro exI [of _ r'] exI [of _ st'] exI [of _ n]) simp
    qed
  qed
qed simp

end
