(* ===== verification/Cache_Insert.thy ===== *)
theory Cache_Insert
  imports Cache_Evict
begin

text \<open>
  Insertion: the bytes are written to the allocated block, the entry is put into the slab and the
  table, and attached to the front of the LRU list. \<open>insert_new_ok\<close> puts these steps together.
\<close>

subsection \<open>Writing to the block\<close>

lemma blit_same:
  assumes "a + length bs \<le> length p" "apart (a, length bs) (b, n)" "b + n \<le> length p"
  shows "take n (drop b (blit p a bs)) = take n (drop b p)"
proof (rule nth_equalityI)
  fix i assume "i < length (take n (drop b (blit p a bs)))"
  then have i: "i < n" "b + i < length p" using assms by auto
  then have "b + i < a \<or> a + length bs \<le> b + i" using assms(2) by (auto simp: apart_def)
  then show "take n (drop b (blit p a bs)) ! i = take n (drop b p) ! i"
    using i nth_blit_outside [OF assms(1)] assms(1) by simp
qed (use assms in simp)

lemma blit_same_on:
  assumes ok: "blocks_ok p es" and a: "a + length bs \<le> length p" "\<forall>b\<in>blocks es. apart (a, length bs) b"
  shows "same_on (blocks es) p (blit p a bs)"
  unfolding same_on_def
proof (intro conjI ballI)
  fix x assume x: "x \<in> blocks es"
  then obtain i m where "i < length es" "es ! i = Some m" "x = block m"
    by (auto simp: blocks_def in_set_conv_nth)
  then have "fst x + snd x \<le> length p" using ok by (auto simp: blocks_ok_def in_pool_def block_def)
  then show "case x of (b, n) \<Rightarrow> take n (drop b (blit p a bs)) = take n (drop b p)"
    using blit_same [OF a(1)] a(2) x by (cases x) auto
qed (use a in simp)

lemma text_of_blit:
  "offset m + length bs \<le> length p \<Longrightarrow> total_len m = length bs \<Longrightarrow> text_of (blit p (offset m) bs) m = bs"
  by (simp add: text_of_def blit_def)

subsection \<open>Taking a slab index\<close>

lemma blocks_ok_add:
  assumes ok: "blocks_ok p es" and m: "in_pool p m" "0 < total_len m" "\<forall>b\<in>blocks es. apart (block m) b"
    and es': "i < length es'" "es' ! i = Some m" "length es \<le> length es'"
    and other: "\<And>l m'. l < length es' \<Longrightarrow> l \<noteq> i \<Longrightarrow> es' ! l = Some m' \<Longrightarrow> l < length es \<and> es ! l = Some m'"
  shows "blocks_ok p es'"
  unfolding blocks_ok_def
proof (intro conjI allI impI)
  fix l m' assume "l < length es'" "es' ! l = Some m'"
  then show "in_pool p m'" "0 < total_len m'"
    using other [of l m'] ok m es'(2) unfolding blocks_ok_def by (cases "l = i"; auto)+
next
  fix l l' m1 m2 assume l: "l < length es'" "l' < length es'" "l \<noteq> l'" "es' ! l = Some m1" "es' ! l' = Some m2"
  have sym: "apart b c \<Longrightarrow> apart c b" for b c by (auto simp: apart_def)
  consider "l = i" "l' \<noteq> i" | "l' = i" "l \<noteq> i" | "l \<noteq> i" "l' \<noteq> i" using l(3) by auto
  then show "apart (block m1) (block m2)"
  proof cases
    case 1
    then show ?thesis using l es'(2) other [of l' m2] m(3) block_mem [of l' es m2] by auto
  next
    case 2
    then show ?thesis using l es'(2) other [of l m1] m(3) block_mem [of l es m1] sym by auto
  next
    case 3
    then show ?thesis using l other [of l m1] other [of l' m2] ok unfolding blocks_ok_def by blast
  qed
qed

lemma slab_fits:
  assumes ok: "blocks_ok p es" and all: "\<forall>i<length es. es ! i \<noteq> None"
  shows "length es \<le> length p"
proof -
  let ?o = "\<lambda>i. offset (the (es ! i))"
  have m: "in_pool p (the (es ! i)) \<and> 0 < total_len (the (es ! i))" if "i < length es" for i
    using ok all that unfolding blocks_ok_def by (metis option.collapse)
  have "inj_on ?o {..<length es}"
  proof (rule inj_onI)
    fix i j assume ij: "i \<in> {..<length es}" "j \<in> {..<length es}" "?o i = ?o j"
    show "i = j"
    proof (rule ccontr)
      assume "i \<noteq> j"
      then have "apart (block (the (es ! i))) (block (the (es ! j)))"
        using ij ok all unfolding blocks_ok_def by (metis lessThan_iff option.collapse)
      then show False using ij m [of i] m [of j] by (auto simp: apart_def block_def)
    qed
  qed
  moreover have "?o ` {..<length es} \<subseteq> {..<length p}" using m by (fastforce simp: in_pool_def)
  ultimately show ?thesis using card_inj_on_le [of ?o "{..<length es}" "{..<length p}"] by simp
qed

definition slab_put ::
  "('rt, 'cl) entry_meta option list \<Rightarrow> nat \<Rightarrow> ('rt, 'cl) entry_meta \<Rightarrow> ('rt, 'cl) entry_meta option list \<Rightarrow> bool" where
  "slab_put es i m es' \<longleftrightarrow>
     i < length es' \<and> es' ! i = Some m \<and> i \<notin> live_set es \<and> length es \<le> length es' \<and>
     (\<forall>l<length es'. l \<noteq> i \<longrightarrow> l < length es \<and> es' ! l = es ! l) \<and>
     (length es < length es' \<longrightarrow> (\<forall>l<length es'. es' ! l \<noteq> None))"

lemma slab_put_live: "slab_put es i m es' \<Longrightarrow> live_set es' = insert i (live_set es)"
  unfolding slab_put_def live_set_def by (auto simp: less_le_trans)

lemma slab_put_old:
  assumes "slab_put es i m es'" "l \<in> live_set es"
  shows "l \<noteq> i" "l < length es'" "es' ! l = es ! l"
proof -
  show l: "l \<noteq> i" "l < length es'" using assms by (auto simp: slab_put_def live_set_def less_le_trans)
  then show "es' ! l = es ! l" using assms(1) by (simp add: slab_put_def)
qed

lemma slab_put_blocks: "slab_put es i m es' \<Longrightarrow> blocks es' = insert (block m) (blocks es)"
proof (intro set_eqI iffI)
  fix b assume put: "slab_put es i m es'" and "b \<in> blocks es'"
  then obtain l m' where "l < length es'" "es' ! l = Some m'" "b = block m'" by (auto simp: blocks_def in_set_conv_nth)
  then show "b \<in> insert (block m) (blocks es)"
    using put block_mem [of l es m'] by (cases "l = i") (auto simp: slab_put_def)
next
  fix b assume put: "slab_put es i m es'" and "b \<in> insert (block m) (blocks es)"
  then consider "b = block m" | l m' where "l < length es" "es ! l = Some m'" "b = block m'"
    by (auto simp: blocks_def in_set_conv_nth)
  then show "b \<in> blocks es'"
  proof cases
    case 1
    then show ?thesis using put block_mem [of i es' m] by (simp add: slab_put_def)
  next
    case 2
    then have "l \<noteq> i" using put by (auto simp: slab_put_def live_set_def)
    then show ?thesis using 2 put block_mem [of l es' m'] by (simp add: slab_put_def)
  qed
qed

lemma alloc_entry_ok:
  assumes slab: "slab_ok (entries st) (free_entries st)" and len: "length (entries st) < 2 ^ 32"
  shows "\<exists>i es' fr'. alloc_entry m st = Some (of_nat i, st\<lparr>entries := es', free_entries := fr'\<rparr>) \<and>
    slab_put (entries st) i m es' \<and> slab_ok es' fr' \<and> unat (of_nat i :: u32) = i \<and>
    (\<forall>h t xs. lru_ok (entries st) h t xs \<longrightarrow> of_nat i \<notin> set xs \<and> lru_ok es' h t xs)"
proof (cases "free_entries st = []")
  case True
  let ?es = "entries st" and ?n = "length (entries st)"
  have all: "\<forall>l<?n. ?es ! l \<noteq> None" using slab True by (auto simp: slab_ok_def)
  have u: "unat (of_nat ?n :: u32) = ?n" using len by (simp add: unat_of_nat)
  have "slab_put ?es ?n m (?es @ [Some m])" "slab_ok (?es @ [Some m]) []"
    using all by (auto simp: slab_put_def slab_ok_def live_set_def nth_append less_Suc_eq)
  moreover have "of_nat ?n \<notin> set xs \<and> lru_ok (?es @ [Some m]) h t xs" if "lru_ok ?es h t xs" for h t xs
    using that lru_ok_mem [OF that, of "of_nat ?n"] u by (auto simp: lru_ok_def)
  ultimately show ?thesis
    using True u by (intro exI [of _ ?n] exI [of _ "?es @ [Some m]"] exI [of _ "[]"]) (simp add: alloc_entry_def)
next
  case False
  let ?es = "entries st" and ?e = "last (free_entries st)" and ?fr = "butlast (free_entries st)"
  have fr: "free_entries st = ?fr @ [?e]" using False by simp
  have "unat ?e \<in> unat ` set (free_entries st)" using False by simp
  then have e: "unat ?e < length ?es" "?es ! unat ?e = None" using slab by (auto simp: slab_ok_def)
  have put: "slab_put ?es (unat ?e) m (?es[unat ?e := Some m])"
    using e by (auto simp: slab_put_def live_set_def)
  have "distinct (?fr @ [?e])" unfolding fr [symmetric] using slab by (simp add: slab_ok_def)
  then have d: "distinct ?fr" "?e \<notin> set ?fr" by auto
  have "unat ` set (free_entries st) = insert (unat ?e) (unat ` set ?fr)" by (subst fr) simp
  moreover have "unat ?e \<notin> unat ` set ?fr" using d(2) by (auto dest: unsigned_word_eqI)
  ultimately have "unat ` set ?fr = unat ` set (free_entries st) - {unat ?e}" by simp
  also have "\<dots> = {l. l < length ?es \<and> ?es ! l = None} - {unat ?e}" using slab by (simp add: slab_ok_def)
  also have "\<dots> = {l. l < length ?es \<and> ?es[unat ?e := Some m] ! l = None}"
    using e by (auto simp: nth_list_update split: if_splits)
  finally have "slab_ok (?es[unat ?e := Some m]) ?fr" using d(1) by (simp add: slab_ok_def)
  moreover have "?e \<notin> set xs \<and> lru_ok (?es[unat ?e := Some m]) h t xs" if "lru_ok ?es h t xs" for h t xs
  proof -
    have "?e \<notin> set xs" using lru_ok_mem [OF that, of ?e] e by auto
    then show ?thesis using that by (simp add: lru_ok_def)
  qed
  ultimately show ?thesis
    using put e False by (intro exI [of _ "unat ?e"] exI [of _ "?es[unat ?e := Some m]"] exI [of _ ?fr])
      (simp add: alloc_entry_def Let_def)
qed

lemma index_inv_put:
  assumes inv: "index_inv kh p es tab I" and I: "I \<subseteq> live_set es" and put: "slab_put es i m es'"
  shows "index_inv kh p es' tab I" "key_cells p es' tab = key_cells p es tab"
proof -
  note agree = slab_put_old(3,2) [OF put]
  have occ: "unat (ks_entry (tab ! l)) \<in> live_set es" if "l < length tab" "occupied (tab ! l)" for l
    using index_occupied [OF inv that] I by (metis subsetD)
  have cell: "slot_valid kh p es' (tab ! l) \<and> cell_of p es' (tab ! l) = cell_of p es (tab ! l)"
    if l: "l < length tab" for l
  proof (cases "occupied (tab ! l)")
    case True
    have "slot_valid kh p es (tab ! l)" using index_invD(2) [OF inv] l by (simp add: slots_valid_def)
    then show ?thesis using agree [OF occ [OF l True]] by (simp add: slot_valid_def cell_of_def)
  qed (auto simp: slot_valid_def cell_of_def occupied_def)
  then show cells: "key_cells p es' tab = key_cells p es tab" by (auto intro: nth_equalityI)
  show "index_inv kh p es' tab I"
    unfolding index_inv_def cells
  proof (intro conjI allI impI)
    show "slots_valid kh p es' tab" using cell by (simp add: slots_valid_def)
    show "unat (ks_entry (tab ! j)) \<in> I" "unat (table_slot m') = j"
      if "j < length tab" "occupied (tab ! j)" "es' ! unat (ks_entry (tab ! j)) = Some m'" for j m'
      using that index_invD(3) [OF inv that(1,2)] agree(1) [OF occ [OF that(1,2)]] by simp_all
    show "unat (table_slot m') < length tab" "ks_entry (tab ! unat (table_slot m')) = of_nat l"
      if "l \<in> I" "es' ! l = Some m'" for l m'
      using that index_invD(4) [OF inv that(1)] agree(1) [of l] I by auto
  qed (rule index_invD(1) [OF inv])
qed

subsection \<open>The new entry\<close>

text \<open>
  The entry \<open>m\<close> describes a block that has been allocated for \<open>text\<close>, and its key \<open>k\<close> is not in the
  cache. The steps of \<open>insert_new\<close> up to the links keep the core of the invariant.
\<close>

lemma enter_ok:
  assumes core: "core_inv kh p es tab fr n t" and room: "(n + t + 1) * 4 < length tab * 3"
    and m: "in_pool p m" "0 < total_len m" "\<forall>b\<in>blocks es. apart (block m) b"
    and new: "key_of p m \<notin> slab_keys p es"
    and put: "slab_put es i m es1" "slab_ok es1 fr1"
    and j: "j = pos (length tab) (khome kh (key_of p m)) d"
      "\<forall>e<d. key_cells p es tab ! pos (length tab) (khome kh (key_of p m)) e \<noteq> Free"
      "key_cells p es tab ! j \<in> {Free, Dead}"
  shows "core_inv kh p (es1[i := Some (m\<lparr>table_slot := of_nat j\<rparr>)])
      (tab[j := \<lparr>ks_hash = kh (key_of p m), ks_entry = of_nat i\<rparr>]) fr1 (n + 1)
      (if key_cells p es tab ! j = Dead then t - 1 else t)"
    "key_cells p es tab ! j = Dead \<Longrightarrow> 0 < t" "j < length tab" "i < length p" "blocks_ok p es1"
proof -
  let ?k = "key_of p m" and ?cs = "key_cells p es tab"
  have il: "i < length es1" "es1 ! i = Some m" "length es \<le> length es1" "i \<notin> live_set es"
    using put(1) by (simp_all add: slab_put_def)
  show ok1: "blocks_ok p es1"
    by (rule blocks_ok_add [OF core_invD(4) [OF core] m il(1-3)]) (use put(1) in \<open>auto simp: slab_put_def\<close>)
  have len1: "length es1 \<le> length p"
  proof (cases "length es < length es1")
    case True
    then show ?thesis using slab_fits [OF ok1] put(1) by (simp add: slab_put_def)
  next
    case False
    then show ?thesis using core_invD(5) [OF core] by simp
  qed
  then show ip: "i < length p" using il by simp
  note inv1 = index_inv_put [OF core_invD(2) [OF core] subset_refl put(1)]
  have L: "64 \<le> length tab" "length tab \<le> 2 ^ 32"
    using core_invD(3,7) [OF core] table_size [OF _ _ core_invD(6) [OF core]]
    by (auto simp: counts_ok_def table_ok_def)
  have "0 < length tab" using L by linarith
  then have jl: "j < length tab" using j(1) by simp
  then show "j < length tab" .
  have cnt: "n = live ?cs" "t = dead ?cs" "length tab \<le> max 64 (4 * length p + 2)"
    using core_invD(3) [OF core] by (simp_all add: counts_ok_def)
  have new': "?k \<notin> cell_keys (key_cells p es1 tab)"
    unfolding inv1(2) live_keys [OF core] slab_keys_def [symmetric] by (rule new)
  have idx: "index_inv kh p (es1[i := Some (m\<lparr>table_slot := of_nat j\<rparr>)])
      (tab[j := \<lparr>ks_hash = kh ?k, ks_entry = of_nat i\<rparr>]) (insert i (live_set es))"
    using cnt room L j
    by (intro index_add [OF inv1(1) il(4,1) ip core_invD(6) [OF core] core_live [OF core] il(2) m(1) new' j(1)])
      (simp_all add: inv1(2) used_split)
  have cells: "key_cells p (es1[i := Some (m\<lparr>table_slot := of_nat j\<rparr>)])
      (tab[j := \<lparr>ks_hash = kh ?k, ks_entry = of_nat i\<rparr>]) = ?cs[j := Live ?k]"
    using cells_add(1) [OF inv1(1) il(4,1) ip core_invD(6) [OF core] il(2) m(1) jl] inv1(2) by simp
  have up: "live (?cs[j := Live ?k]) = n + 1" "dead (?cs[j := Live ?k]) + of_bool (?cs ! j = Dead) = t"
    using live_update [of j ?cs "Live ?k"] dead_update [of j ?cs "Live ?k"] j(3) jl cnt by auto
  then show "?cs ! j = Dead \<Longrightarrow> 0 < t" by simp
  have ss: "same_static es1 (es1[i := Some (m\<lparr>table_slot := of_nat j\<rparr>)])"
    by (rule same_by_update [OF il(2)]) (simp add: static_def)
  show "core_inv kh p (es1[i := Some (m\<lparr>table_slot := of_nat j\<rparr>)])
      (tab[j := \<lparr>ks_hash = kh ?k, ks_entry = of_nat i\<rparr>]) fr1 (n + 1)
      (if ?cs ! j = Dead then t - 1 else t)"
    using idx up len1 core_invD(6) [OF core] slab_ok_cong [OF ss put(2)] blocks_ok_cong [OF ss ok1] room L cnt(3)
    unfolding core_inv_def cells counts_ok_def live_set_cong [OF ss] slab_put_live [OF put(1)] by auto
qed

lemma slab_keys_pool:
  assumes "same_on (blocks es) p p'"
  shows "slab_keys p' es = slab_keys p es"
proof -
  have "key_of p' m = key_of p m" if "i < length es" "es ! i = Some m" for i m
    by (rule same_on_text(2) [OF assms block_mem [OF that]])
  then show ?thesis unfolding slab_keys_def by (metis (no_types, lifting))
qed

text \<open>The state before the new entry is attached to the LRU list.\<close>

definition entered ::
  "(('rt, 'cl) cache_key \<Rightarrow> u64) \<Rightarrow> ('rt, 'cl) entry_meta \<Rightarrow> ('rt, 'cl) cache_key \<Rightarrow> nat \<Rightarrow> nat
    \<Rightarrow> ('h, 'rt, 'cl) cache_state \<Rightarrow> ('h, 'rt, 'cl) cache_state" where
  "entered kh m k i j st =
     st\<lparr>tombstones := (if ks_entry (table st ! j) = TOMBSTONE then tombstones st - 1 else tombstones st),
        table := (table st)[j := \<lparr>ks_hash = kh k, ks_entry = of_nat i\<rparr>], table_len := table_len st + 1,
        entries := (entries st)[i := Some (m\<lparr>table_slot := of_nat j\<rparr>)]\<rparr>"

lemma insert_new_run:
  assumes "alloc_entry m (st\<lparr>pool := blit (pool st) (offset m) bs\<rparr>) = Some (of_nat i, st1)"
    and "unat (of_nat i :: u32) = i" "i < length (entries st1)" "entries st1 ! i = Some m"
    and "locate st1 (key_hash env k) k = Some (Vacant j)" "j < length (table st1)"
    and "ks_entry (table st1 ! j) = TOMBSTONE \<Longrightarrow> 0 < tombstones st1"
  shows "insert_new env m k bs st = attach_front (of_nat i) (entered (key_hash env) m k i j st1)"
proof (cases "ks_entry (table st1 ! j) = TOMBSTONE")
  case True
  then show ?thesis
    using assms by (simp add: insert_new_def Let_def get_def entry_mut_def entry_def entered_def)
next
  case False
  then show ?thesis
    using assms by (simp add: insert_new_def Let_def get_def entry_mut_def entry_def entered_def)
qed

lemma insert_new_enters:
  assumes body: "body_inv env R {block m} st" and room: "(table_len st + tombstones st + 1) * 4 < length (table st) * 3"
    and m: "total_len m = length bs" "key_of (blit (pool st) (offset m) bs) m = k"
    and new: "k \<notin> slab_keys (pool st) (entries st)"
  defines "p \<equiv> blit (pool st) (offset m) bs"
  shows "\<exists>i j es1 fr1 st2. slab_put (entries st) i m es1 \<and> unat (of_nat i :: u32) = i \<and> of_nat i \<noteq> NONE \<and>
    (\<forall>h t xs. lru_ok (entries st) h t xs \<longrightarrow> of_nat i \<notin> set xs \<and> lru_ok es1 h t xs) \<and>
    st2 = entered (key_hash env) m k i j (st\<lparr>pool := p, entries := es1, free_entries := fr1\<rparr>) \<and>
    body_inv env R {} st2 \<and> insert_new env m k bs st = attach_front (of_nat i) st2 \<and>
    same_on (blocks (entries st)) (pool st) p"
proof -
  let ?kh = "key_hash env" and ?es = "entries st"
  have core: "state_core ?kh st" and h: "heap_inv R {block m} st" using body by (simp_all add: body_inv_def)
  have b: "0 < total_len m" "offset m + length bs \<le> length (pool st)" "\<forall>b\<in>blocks ?es. apart (block m) b"
    using h m(1) by (simp_all add: heap_inv_def block_def)
  have same: "same_on (blocks ?es) (pool st) p"
    using blit_same_on [OF core_invD(4) [OF core] b(2)] b(3) m(1) by (simp add: block_def p_def)
  have len: "length p = length (pool st)" using b(2) by (simp add: p_def)
  have core1: "core_inv ?kh p ?es (table st) (free_entries st) (table_len st) (tombstones st)"
    by (rule core_inv_pool [OF core same])
  have "length ?es < 2 ^ 32" using core_invD(5,6) [OF core] by simp
  from alloc_entry_ok [of "st\<lparr>pool := p\<rparr>" m] core_invD(1) [OF core] this obtain i es1 fr1 where
    put: "slab_put ?es i m es1" "slab_ok es1 fr1" "unat (of_nat i :: u32) = i"
    and al: "alloc_entry m (st\<lparr>pool := p\<rparr>) = Some (of_nat i, st\<lparr>pool := p, entries := es1, free_entries := fr1\<rparr>)"
    and lr: "\<forall>h t xs. lru_ok ?es h t xs \<longrightarrow> of_nat i \<notin> set xs \<and> lru_ok es1 h t xs"
    by auto
  define st1 where "st1 = st\<lparr>pool := p, entries := es1, free_entries := fr1\<rparr>"
  have key: "key_of p m = k" using m(2) by (simp add: p_def)
  have new1: "key_of p m \<notin> slab_keys p ?es" using new key slab_keys_pool [OF same] by simp
  note inv1 = index_inv_put [OF core_invD(2) [OF core1] subset_refl put(1)]
  have "k \<notin> cell_keys (key_cells p es1 (table st))"
    using new1 unfolding inv1(2) live_keys [OF core1] slab_keys_def [symmetric] key .
  then obtain d where d: "locate st1 (?kh k) k = Some (Vacant (pos (length (table st)) (khome ?kh k) d))"
    "\<forall>e<d. key_cells p ?es (table st) ! pos (length (table st)) (khome ?kh k) e \<noteq> Free"
    "key_cells p ?es (table st) ! pos (length (table st)) (khome ?kh k) d \<in> {Free, Dead}"
    using locate_correct(2) [of env st1 k] index_invD(1,2) [OF inv1(1)] inv1(2) by (auto simp: st1_def)
  define j where "j = pos (length (table st)) (khome ?kh k) d"
  have ip: "in_pool p m" using b(2) m(1) len by (simp add: in_pool_def)
  have dj: "key_cells p ?es (table st) ! j \<in> {Free, Dead}" using d(3) by (simp only: j_def)
  note en = enter_ok [OF core1 room ip b(1,3) new1 put(1,2), unfolded key, OF j_def d(2) dj]
  have dead_iff: "(key_cells p ?es (table st) ! j = Dead) = (ks_entry (table st ! j) = TOMBSTONE)"
    using en(3) by (simp only: nth_key_cells cell_of_simps(2))
  note en' = en(1-4) [unfolded dead_iff]
  define st2 where "st2 = entered ?kh m k i j st1"
  have es2: "entries st2 = es1[i := Some (m\<lparr>table_slot := of_nat j\<rparr>)]" by (simp add: st2_def entered_def st1_def)
  have mi: "es1 ! i = Some m" "i < length es1" using put(1) by (simp_all add: slab_put_def)
  have "same_static es1 (entries st2)" unfolding es2 by (rule same_by_update [OF mi(1)]) (simp add: static_def)
  then have "blocks (entries st2) = insert (block m) (blocks ?es)"
    using blocks_cong slab_put_blocks [OF put(1)] by blast
  then have "heap_inv R {} st2" using h len by (simp add: heap_inv_def st2_def entered_def st1_def)
  moreover have "state_core ?kh st2"
    unfolding st2_def entered_def st1_def using en'(1) by (simp cong: if_cong split del: if_split)
  ultimately have body2: "body_inv env R {} st2" by (simp add: body_inv_def)
  have "insert_new env m k bs st = attach_front (of_nat i) st2"
    unfolding st2_def using al [unfolded p_def] d(1) en'(2,3) put(3) mi
    by (intro insert_new_run) (simp_all add: st1_def j_def [symmetric] p_def)
  then show ?thesis
    using put(1,3) lr same body2 index_ne(1) [OF en'(4)] len core_invD(6) [OF core] unfolding st2_def st1_def
    by (intro exI [of _ i] exI [of _ j] exI [of _ es1] exI [of _ fr1]) simp
qed

lemma insert_new_ok:
  assumes inv: "cache_inv env R {block m} st xs" and room: "(table_len st + tombstones st + 1) * 4 < length (table st) * 3"
    and m: "total_len m = length bs" "key_of (blit (pool st) (offset m) bs) m = k"
    and new: "k \<notin> slab_keys (pool st) (entries st)"
  shows "\<exists>e st'. insert_new env m k bs st = Some st' \<and> cache_inv env R {} st' (e # xs) \<and>
    pool st' = blit (pool st) (offset m) bs \<and> abs_at st' e = abs_entry (blit (pool st) (offset m) bs) m \<and> (\<forall>x\<in>set xs. abs_at st' x = abs_at st x)"
proof -
  let ?p = "blit (pool st) (offset m) bs" and ?es = "entries st"
  have body: "body_inv env R {block m} st" and lru: "lru_ok ?es (lru_head st) (lru_tail st) xs"
    and live: "unat ` set xs = live_set ?es" using inv by (simp_all add: cache_inv_def)
  from insert_new_enters [OF body room m new] obtain i j es1 fr1 st2 where put: "slab_put ?es i m es1"
    and i: "unat (of_nat i :: u32) = i" "of_nat i \<noteq> NONE"
    and lr: "of_nat i \<notin> set xs" "lru_ok es1 (lru_head st) (lru_tail st) xs"
    and st2: "st2 = entered (key_hash env) m k i j (st\<lparr>pool := ?p, entries := es1, free_entries := fr1\<rparr>)"
    and body2: "body_inv env R {} st2" and run: "insert_new env m k bs st = attach_front (of_nat i) st2"
    and same: "same_on (blocks ?es) (pool st) ?p"
    using lru by metis
  let ?e = "of_nat i :: u32"
  have es2: "entries st2 = es1[unat ?e := Some (m\<lparr>table_slot := of_nat j\<rparr>)]" "pool st2 = ?p"
    "lru_head st2 = lru_head st" "lru_tail st2 = lru_tail st" by (simp_all add: st2 entered_def i)
  have il: "i < length es1" "es1 ! i = Some m" using put by (simp_all add: slab_put_def)
  have e2: "entry st2 ?e = Some (m\<lparr>table_slot := of_nat j\<rparr>)" using il i by (simp add: entry_eq_Some es2)
  have lru2: "lru_ok (entries st2) (lru_head st2) (lru_tail st2) xs" using lr by (simp add: es2 lru_ok_def)
  from attach_front_ok [OF lru2 e2 i(2) lr(1)] obtain st' where st': "attach_front ?e st2 = Some st'"
    "links_only st2 st'" "lru_ok (entries st') (lru_head st') (lru_tail st') (?e # xs)" by blast
  have ss: "same_static es1 (entries st2)"
    unfolding es2(1) by (rule same_by_update) (simp_all add: i il static_def)
  have live2: "live_set (entries st2) = insert i (live_set ?es)"
    using live_set_cong [OF ss] slab_put_live [OF put] by simp
  then have inv': "cache_inv env R {} st' (?e # xs)"
    using body_inv_links [OF body2 st'(2)] st'(3) links_live [OF st'(2)] live i by (simp add: cache_inv_def)
  have l2: "unat x < length (entries st2) \<and> entries st2 ! unat x \<noteq> None" if "x \<in> set (?e # xs)" for x
  proof -
    have "unat x \<in> live_set (entries st2)" using that live live2 i by auto
    then show ?thesis by (simp add: live_set_def)
  qed
  have abs2: "abs_at st' x = abs_at st2 x" if "x \<in> set (?e # xs)" for x
    using abs_at_links [OF st'(2)] l2 [OF that] by blast
  have "abs_at st2 ?e = abs_entry ?p m"
    using abs_at_entry [OF e2] by (simp add: es2 abs_entry_def key_of_def text_of_def total_len_def)
  moreover have "abs_at st2 x = abs_at st x" if x: "x \<in> set xs" for x
  proof -
    have "unat x \<in> live_set ?es" using live x by blast
    note old = slab_put_old [OF put this]
    obtain m' where "unat x < length ?es" "?es ! unat x = Some m'" using cache_inv_mem [OF inv x] by auto
    then show ?thesis using old abs_entry_pool [OF same block_mem] i by (simp add: abs_at_def es2)
  qed
  ultimately show ?thesis
    using run st'(1,2) inv' abs2 es2(2) by (intro exI [of _ ?e] exI [of _ st']) (simp add: links_only_def)
qed

end
