(* ===== verification/Cache_Spec.thy ===== *)
theory Cache_Spec
  imports Cache_Insert
begin

text \<open>
  What the cache promises: its content is a list of cached answers with distinct keys, the most
  recently used first. The specification functions here say what each operation does to that list
  and what it returns; \<open>represents\<close> relates a cache to its content. The refinement lemmas say that
  every operation of the model runs without panic and does what the specification says.
\<close>

subsection \<open>The specification\<close>

definition find_key :: "('rt, 'cl) cache_key \<Rightarrow> ('rt, 'cl) cached list \<Rightarrow> ('rt, 'cl) cached option" where
  "find_key k cs = List.find (\<lambda>c. c_key c = k) cs"

definition without :: "('rt, 'cl) cache_key \<Rightarrow> ('rt, 'cl) cached list \<Rightarrow> ('rt, 'cl) cached list" where
  "without k cs = filter (\<lambda>c. c_key c \<noteq> k) cs"

definition due :: "instant \<Rightarrow> ('rt, 'cl) cached \<Rightarrow> bool" where
  "due now c \<longleftrightarrow> \<not> c_claimed c \<and> c_retry c \<le> now \<and>
     (c_expires c \<le> now \<or> c_expires c - now \<le> c_ttl c div 10)"

definition served :: "instant \<Rightarrow> ('rt, 'cl) cached \<Rightarrow> bytes" where
  "served now c =
     snd (age_ttls (c_wire c) (of_nat (min ((c_ttl c - (c_expires c - now)) div 10 ^ 9) (2 ^ 32 - 1)))
       (c_expires c \<le> now))"

definition spec_get ::
  "instant \<Rightarrow> ('rt, 'cl) cache_key \<Rightarrow> ('rt, 'cl) cached list
    \<Rightarrow> (bytes \<times> bool \<times> bool) option \<times> ('rt, 'cl) cached list" where
  "spec_get now k cs =
     (case find_key k cs of
        None \<Rightarrow> (None, cs)
      | Some c \<Rightarrow>
          if c_stale c \<le> now then (None, without k cs)
          else (Some (served now c, due now c, c_expires c \<le> now),
                c\<lparr>c_used := now, c_reused := True, c_claimed := (c_claimed c \<or> due now c)\<rparr> # without k cs))"

definition spec_new ::
  "instant \<Rightarrow> instant \<Rightarrow> instant \<Rightarrow> ('rt, 'cl) cache_key \<Rightarrow> u32 \<Rightarrow> bytes \<Rightarrow> bytes \<Rightarrow> ('rt, 'cl) cached list
    \<Rightarrow> ('rt, 'cl) cached" where
  "spec_new t1 t2 t3 k ttl wire request cs =
     \<lparr>c_key = k, c_wire = wire, c_request = request, c_expires = t1 + secs (unat ttl),
      c_stale = t1 + secs (unat ttl) + SERVE_STALE_WINDOW, c_ttl = secs (unat ttl),
      c_used = (case find_key k cs of None \<Rightarrow> t2 | Some c \<Rightarrow> c_used c), c_retry = t3,
      c_reused = (case find_key k cs of None \<Rightarrow> False | Some c \<Rightarrow> c_reused c),
      c_failures = 0, c_claimed = False\<rparr>"

definition released :: "instant \<Rightarrow> u64 \<Rightarrow> ('rt, 'cl) cached \<Rightarrow> ('rt, 'cl) cached" where
  "released now h c =
     (let f = min (if c_failures c = - 1 then - 1 else c_failures c + 1) 5
      in c\<lparr>c_claimed := False, c_failures := f,
            c_retry := now + millis (unat ((push_bit (unat f) 1 :: u64) * 500 + h mod 500))\<rparr>)"

definition spec_release ::
  "instant \<Rightarrow> u64 \<Rightarrow> ('rt, 'cl) cache_key \<Rightarrow> ('rt, 'cl) cached list \<Rightarrow> ('rt, 'cl) cached list" where
  "spec_release now h k cs = map (\<lambda>c. if c_key c = k \<and> c_claimed c then released now h c else c) cs"

subsection \<open>Representation\<close>

definition abs_list :: "('h, 'rt, 'cl) cache_state \<Rightarrow> u32 list \<Rightarrow> ('rt, 'cl) cached list" where
  "abs_list st xs = map (abs_at st) xs"

definition represents ::
  "('h, 'rt, 'cl) cache_env \<Rightarrow> ('h \<Rightarrow> nat \<Rightarrow> (nat \<times> nat) set \<Rightarrow> bool) \<Rightarrow> ('h, 'rt, 'cl) response_cache
    \<Rightarrow> ('rt, 'cl) cached list \<Rightarrow> bool" where
  "represents env R c cs \<longleftrightarrow> (\<exists>xs. cache_inv env R {} (state c) xs \<and> cs = abs_list (state c) xs)"

lemma abs_list_cong: "(\<And>x. x \<in> set xs \<Longrightarrow> abs_at st' x = abs_at st x) \<Longrightarrow> abs_list st' xs = abs_list st xs"
  by (simp add: abs_list_def)

lemma cache_inv_core:
  assumes "cache_inv env R X st xs"
  shows "state_core (key_hash env) st" "lru_ok (entries st) (lru_head st) (lru_tail st) xs"
    "unat ` set xs = live_set (entries st)" "distinct xs"
  using assms by (simp_all add: cache_inv_def body_inv_def lru_ok_def)

lemma abs_keys:
  assumes inv: "cache_inv env R X st xs"
  shows "distinct (map c_key (abs_list st xs))" "c_key ` set (abs_list st xs) = slab_keys (pool st) (entries st)"
proof -
  note core = cache_inv_core [OF inv]
  have key: "c_key (abs_at st e) = key_of (pool st) m" if "entries st ! unat e = Some m" for e m
    using that by (simp add: abs_at_def abs_entry_def)
  have mem: "\<exists>m. unat e < length (entries st) \<and> entries st ! unat e = Some m" if "e \<in> set xs" for e
    using cache_inv_mem [OF inv that] by auto
  have "inj_on (\<lambda>e. c_key (abs_at st e)) (set xs)"
  proof (rule inj_onI)
    fix e e' assume e: "e \<in> set xs" "e' \<in> set xs" "c_key (abs_at st e) = c_key (abs_at st e')"
    from mem [OF e(1)] mem [OF e(2)] obtain m m' where
      m: "unat e < length (entries st)" "entries st ! unat e = Some m"
      "unat e' < length (entries st)" "entries st ! unat e' = Some m'" by blast
    then have "unat e = unat e'" using distinct_keys [OF core(1) m] key e(3) by metis
    then show "e = e'" by (rule unsigned_word_eqI)
  qed
  then show "distinct (map c_key (abs_list st xs))"
    using core(4) by (simp add: abs_list_def distinct_map comp_def)
  show "c_key ` set (abs_list st xs) = slab_keys (pool st) (entries st)"
  proof (intro set_eqI iffI)
    fix k assume "k \<in> c_key ` set (abs_list st xs)"
    then obtain e where "e \<in> set xs" "k = c_key (abs_at st e)" by (auto simp: abs_list_def)
    then show "k \<in> slab_keys (pool st) (entries st)" using mem key unfolding slab_keys_def by blast
  next
    fix k assume "k \<in> slab_keys (pool st) (entries st)"
    then obtain i m where i: "i < length (entries st)" "entries st ! i = Some m" "k = key_of (pool st) m"
      by (auto simp: slab_keys_def)
    then have "i \<in> unat ` set xs" unfolding core(3) by (simp add: live_set_def)
    then obtain e where "e \<in> set xs" "i = unat e" by blast
    moreover from this have "k = c_key (abs_at st e)" using i key by simp
    ultimately show "k \<in> c_key ` set (abs_list st xs)" by (auto simp: abs_list_def)
  qed
qed

lemma locate_abs:
  assumes inv: "cache_inv env R X st xs"
  shows "find_key k (abs_list st xs) = None \<Longrightarrow> \<exists>j. locate st (key_hash env k) k = Some (Vacant j)"
    and "find_key k (abs_list st xs) = Some c \<Longrightarrow> \<exists>e as bs m. locate st (key_hash env k) k = Some (Found e) \<and>
      xs = as @ e # bs \<and> entry st e = Some m \<and> in_pool (pool st) m \<and> c = abs_entry (pool st) m \<and> c_key c = k \<and>
      without k (abs_list st xs) = abs_list st (as @ bs)"
proof -
  note core = cache_inv_core [OF inv]
  note loc = locate_correct [OF core_invD(8,7) [OF core(1)], of k]
  have keys: "cell_keys (key_cells (pool st) (entries st) (table st)) = c_key ` set (abs_list st xs)"
    using live_keys [OF core(1)] abs_keys(2) [OF inv] by (simp add: slab_keys_def)
  show "\<exists>j. locate st (key_hash env k) k = Some (Vacant j)" if "find_key k (abs_list st xs) = None"
  proof -
    have "k \<notin> c_key ` set (abs_list st xs)" using that by (auto simp: find_key_def find_None_iff)
    then show ?thesis using loc(2) keys by blast
  qed
  show "\<exists>e as bs m. locate st (key_hash env k) k = Some (Found e) \<and> xs = as @ e # bs \<and> entry st e = Some m \<and>
      in_pool (pool st) m \<and> c = abs_entry (pool st) m \<and> c_key c = k \<and> without k (abs_list st xs) = abs_list st (as @ bs)"
    if "find_key k (abs_list st xs) = Some c"
  proof -
    have c: "c \<in> set (abs_list st xs)" "c_key c = k"
      using that by (auto simp: find_key_def find_Some_iff)
    then obtain e m where e: "locate st (key_hash env k) k = Some (Found e)" "entry st e = Some m"
      "key_of (pool st) m = k" using loc(1) keys by blast
    have "unat e \<in> live_set (entries st)" using e(2) by (simp add: entry_eq_Some live_set_def)
    then have "e \<in> set xs" unfolding core(3) [symmetric] by (auto dest: unsigned_word_eqI)
    then obtain as bs where xs: "xs = as @ e # bs" by (auto dest: split_list)
    have ek: "c_key (abs_at st e) = k" using e abs_at_entry [OF e(2)] by (simp add: abs_entry_def)
    have dist: "distinct (map c_key (abs_list st (as @ e # bs)))" using abs_keys(1) [OF inv] xs by simp
    have ne: "\<forall>x\<in>set (abs_list st (as @ bs)). c_key x \<noteq> k" using dist ek by (auto simp: abs_list_def) (metis imageI)+
    then have w: "without k (abs_list st xs) = abs_list st (as @ bs)"
      using ek by (auto simp: without_def abs_list_def xs filter_id_conv)
    have "c = abs_at st e" using c ne xs by (auto simp: abs_list_def)
    moreover have "in_pool (pool st) m"
      using core_invD(4) [OF core(1)] e(2) by (auto simp: blocks_ok_def entry_eq_Some)
    ultimately show ?thesis using e w xs c(2) abs_at_entry [OF e(2)] by blast
  qed
qed

subsection \<open>Updating and moving an entry\<close>

lemma entry_mut_inv:
  assumes inv: "cache_inv env R X st xs" and m: "entry st e = Some m"
    and f: "static (f m) = static m" "table_slot (f m) = table_slot m" "links_of (f m) = links_of m"
  shows "\<exists>st'. entry_mut f e st = Some st' \<and> cache_inv env R X st' xs \<and> entry st' e = Some (f m) \<and>
    pool st' = pool st \<and> table st' = table st \<and> (\<forall>x. x \<noteq> e \<longrightarrow> abs_at st' x = abs_at st x \<and> entry st' x = entry st x)"
proof -
  let ?st = "st\<lparr>entries := (entries st)[unat e := Some (f m)]\<rparr>"
  have m': "entries st ! unat e = Some m" "unat e < length (entries st)" using m by (simp_all add: entry_eq_Some)
  have ss: "same_static (entries st) (entries ?st)" "same_slots (entries st) (entries ?st)"
    "same_by links_of (entries st) (entries ?st)"
    using same_by_update [OF m'(1)] f by simp_all
  have "cache_inv env R X ?st xs"
    unfolding cache_inv_def
    using inv body_inv_cong [of env R X st ?st, OF _ ss(1,2)] lru_ok_links [OF ss(3)] live_set_cong [OF ss(1)]
    by (simp add: cache_inv_def)
  moreover have "entry ?st e = Some (f m)" using m' by (simp add: entry_eq_Some)
  moreover have "abs_at ?st x = abs_at st x \<and> entry ?st x = entry st x" if "x \<noteq> e" for x
  proof -
    have "unat x \<noteq> unat e" using that by (auto dest: unsigned_word_eqI)
    then show ?thesis by (simp add: abs_at_def entry_def get_def)
  qed
  ultimately show ?thesis using entry_mut_Some [OF m, of f] by simp
qed

lemma touch_inv:
  assumes inv: "cache_inv env R X st (as @ e # bs)"
  shows "\<exists>st'. touch e st = Some st' \<and> cache_inv env R X st' (e # as @ bs) \<and> pool st' = pool st \<and>
    abs_list st' (e # as @ bs) = abs_list st (e # as @ bs)"
proof -
  note core = cache_inv_core [OF inv]
  from touch_ok [OF core(2), of e] obtain st' where st': "touch e st = Some st'" "links_only st st'"
    "lru_ok (entries st') (lru_head st') (lru_tail st') (e # removeAll e (as @ e # bs))" by auto
  have rm: "removeAll e (as @ e # bs) = as @ bs" using core(4) by simp
  have "unat ` set (e # as @ bs) = live_set (entries st')"
    using core(3) links_live [OF st'(2)] by auto
  then have "cache_inv env R X st' (e # as @ bs)"
    using st'(3) body_inv_links [OF _ st'(2)] inv unfolding rm by (simp add: cache_inv_def)
  moreover have "abs_list st' (e # as @ bs) = abs_list st (e # as @ bs)"
    using abs_at_links [OF st'(2)] cache_inv_mem [OF inv] by (intro abs_list_cong) auto
  ultimately show ?thesis using st' by (auto simp: links_only_def)
qed

subsection \<open>Lookup\<close>

definition same_shape :: "('h, 'rt, 'cl) response_cache \<Rightarrow> ('h, 'rt, 'cl) response_cache \<Rightarrow> bool" where
  "same_shape c c' \<longleftrightarrow> enabled c' = enabled c \<and> refresh_slots c' = refresh_slots c \<and>
     length (pool (state c')) = length (pool (state c))"

lemma evict_abs:
  assumes spec: "heap_spec (heap_impl env) R" and inv: "cache_inv env R X st (as @ e # bs)"
  shows "\<exists>st'. evict env e st = Some st' \<and> cache_inv env R X st' (as @ bs) \<and> keeps (as @ bs) st st' \<and>
    abs_list st' (as @ bs) = abs_list st (as @ bs)"
  using evict_ok [OF assms] by (metis abs_list_cong keeps_def)

lemma get_range_wire:
  assumes "in_pool p m"
  shows "get_range p (offset m + unat (nm_len m)) (offset m + unat (nm_len m) + unat (wire_len m)) =
    Some (c_wire (abs_entry p m))"
  using get_range_text [OF assms, of "unat (nm_len m)" "unat (wire_len m)"]
  by (simp add: total_len_def abs_entry_def)

lemma get_hit:
  assumes inv: "cache_inv env R {} (state c) (as @ e # bs)" and m: "entry (state c) e = Some m"
    and fresh: "\<not> stale_until m \<le> now" and k: "enabled c" "length (fst k) \<le> 255"
    and loc: "locate (state c) (key_hash env k) k = Some (Found e)"
  defines "x \<equiv> abs_entry (pool (state c)) m"
  shows "\<exists>st'. get_with_flags env now k c = Some (Some (served now x, due now x, c_expires x \<le> now), c\<lparr>state := st'\<rparr>) \<and>
    cache_inv env R {} st' (e # as @ bs) \<and> pool st' = pool (state c) \<and>
    abs_list st' (e # as @ bs) =
      x\<lparr>c_used := now, c_reused := True, c_claimed := (c_claimed x \<or> due now x)\<rparr> # abs_list (state c) (as @ bs)"
proof -
  let ?st = "state c" and ?p = "pool (state c)"
  from touch_inv [OF inv] obtain st1 where st1: "touch e ?st = Some st1" "cache_inv env R {} st1 (e # as @ bs)"
    "pool st1 = ?p" "abs_list st1 (e # as @ bs) = abs_list ?st (e # as @ bs)" by blast
  obtain m1 where m1: "entry st1 e = Some m1" using cache_inv_mem [OF st1(2), of e] by (auto simp: entry_eq_Some)
  have x: "x = abs_entry ?p m1"
    using st1(3,4) abs_at_entry [OF m1] abs_at_entry [OF m] by (simp add: x_def abs_list_def)
  have ip: "in_pool ?p m1"
    using core_invD(4) [OF cache_inv_core(1) [OF st1(2)]] m1 st1(3) by (auto simp: blocks_ok_def entry_eq_Some)
  define f where "f = (\<lambda>m :: ('b, 'c) entry_meta. m\<lparr>last_used := now, reused := True,
    refresh_claimed := (refresh_claimed m \<or> due now x)\<rparr>)"
  have "static (f m1) = static m1" "table_slot (f m1) = table_slot m1" "links_of (f m1) = links_of m1"
    by (simp_all add: f_def static_def links_of_def)
  from entry_mut_inv [OF st1(2) m1, of f, OF this] obtain st2 where st2: "entry_mut f e st1 = Some st2"
    "cache_inv env R {} st2 (e # as @ bs)" "entry st2 e = Some (f m1)" "pool st2 = pool st1"
    "\<forall>x. x \<noteq> e \<longrightarrow> abs_at st2 x = abs_at st1 x" by blast
  have "e \<notin> set (as @ bs)" using cache_inv_core(4) [OF inv] by auto
  then have "abs_list st2 (as @ bs) = abs_list st1 (as @ bs)" using st2(5) by (intro abs_list_cong) auto
  moreover have "abs_at st2 e = x\<lparr>c_used := now, c_reused := True, c_claimed := (c_claimed x \<or> due now x)\<rparr>"
    using abs_at_entry [OF st2(3)] st2(4) st1(3) x
    by (simp add: f_def abs_entry_def key_of_def text_of_def total_len_def)
  ultimately have ab: "abs_list st2 (e # as @ bs) =
      x\<lparr>c_used := now, c_reused := True, c_claimed := (c_claimed x \<or> due now x)\<rparr> # abs_list ?st (as @ bs)"
    using st1(4) by (simp add: abs_list_def)
  have due: "due now x \<longleftrightarrow> \<not> refresh_claimed m1 \<and> retry_after m1 \<le> now \<and>
      (expires_at m1 \<le> now \<or> expires_at m1 - now \<le> original_ttl m1 div 10)"
    by (simp add: x due_def abs_entry_def)
  have "get_with_flags env now k c = Some (Some (served now x, due now x, c_expires x \<le> now), c\<lparr>state := st2\<rparr>)"
    using k loc m fresh st1(1) m1 st2(1) get_range_wire [OF ip] st1(3) st2(4)
    unfolding f_def due
    by (simp add: get_with_flags_def Let_def case_prod_beta served_def x) (simp add: abs_entry_def)
  then show ?thesis using st2 st1(3) ab by (intro exI [of _ st2]) simp
qed

lemma get_refines:
  assumes spec: "heap_spec (heap_impl env) R" and rep: "represents env R c cs"
    and k: "enabled c" "length (fst k) \<le> 255"
  shows "\<exists>c'. get_with_flags env now k c = Some (fst (spec_get now k cs), c') \<and>
    represents env R c' (snd (spec_get now k cs)) \<and> same_shape c c'"
proof -
  obtain xs where inv: "cache_inv env R {} (state c) xs" and cs: "cs = abs_list (state c) xs"
    using rep by (auto simp: represents_def)
  note loc = locate_abs [OF inv, of k]
  show ?thesis
  proof (cases "find_key k cs")
    case None
    then obtain j where "locate (state c) (key_hash env k) k = Some (Vacant j)" using loc(1) cs by auto
    then show ?thesis using None k rep by (simp add: get_with_flags_def spec_get_def Let_def same_shape_def)
  next
    case (Some x)
    from loc(2) [OF Some [unfolded cs]] obtain e as bs m where
      e: "locate (state c) (key_hash env k) k = Some (Found e)" "xs = as @ e # bs" "entry (state c) e = Some m"
      "x = abs_entry (pool (state c)) m" "without k cs = abs_list (state c) (as @ bs)" unfolding cs by blast
    have st: "c_stale x = stale_until m" using e(4) by (simp add: abs_entry_def)
    show ?thesis
    proof (cases "stale_until m \<le> now")
      case True
      from evict_abs [OF spec inv [unfolded e(2)]] obtain st' where st': "evict env e (state c) = Some st'"
        "cache_inv env R {} st' (as @ bs)" "keeps (as @ bs) (state c) st'" "abs_list st' (as @ bs) = without k cs"
        unfolding e(5) by blast
      have "represents env R (c\<lparr>state := st'\<rparr>) (without k cs)"
        unfolding represents_def using st' by (intro exI [of _ "as @ bs"]) simp
      moreover have "get_with_flags env now k c = Some (None, c\<lparr>state := st'\<rparr>)"
        using True k e(1,3) st'(1) by (simp add: get_with_flags_def Let_def)
      ultimately show ?thesis
        using Some True st st'(3) by (simp add: spec_get_def same_shape_def keeps_def)
    next
      case False
      from get_hit [OF inv [unfolded e(2)] e(3) False k e(1)] obtain st' where
        st': "get_with_flags env now k c = Some (Some (served now x, due now x, c_expires x \<le> now), c\<lparr>state := st'\<rparr>)"
        "cache_inv env R {} st' (e # as @ bs)" "pool st' = pool (state c)" "abs_list st' (e # as @ bs) =
          x\<lparr>c_used := now, c_reused := True, c_claimed := (c_claimed x \<or> due now x)\<rparr> # without k cs"
        unfolding e(4) [symmetric] e(5) by blast
      have "represents env R (c\<lparr>state := st'\<rparr>) (snd (spec_get now k cs))"
        unfolding represents_def using st'(2,4) Some False st
        by (intro exI [of _ "e # as @ bs"]) (simp add: spec_get_def)
      then show ?thesis using Some False st st'(1,3) by (simp add: spec_get_def same_shape_def)
    qed
  qed
qed

subsection \<open>Giving up a refresh\<close>

lemma release_refines:
  assumes rep: "represents env R c cs"
  shows "\<exists>c'. release_refresh_claim env now k c = Some c' \<and>
    represents env R c' (spec_release now (key_hash env k) k cs) \<and> same_shape c c'"
proof -
  obtain xs where inv: "cache_inv env R {} (state c) xs" and cs: "cs = abs_list (state c) xs"
    using rep by (auto simp: represents_def)
  note loc = locate_abs [OF inv, of k]
  let ?h = "key_hash env k"
  show ?thesis
  proof (cases "find_key k cs")
    case None
    then obtain j where "locate (state c) ?h k = Some (Vacant j)" using loc(1) cs by auto
    moreover have "spec_release now ?h k cs = cs"
      using None by (auto simp: spec_release_def find_key_def find_None_iff intro: map_idI)
    ultimately show ?thesis using rep by (simp add: release_refresh_claim_def Let_def same_shape_def)
  next
    case (Some x)
    from loc(2) [OF Some [unfolded cs]] obtain e as bs m where
      e: "locate (state c) ?h k = Some (Found e)" "xs = as @ e # bs" "entry (state c) e = Some m"
      "x = abs_entry (pool (state c)) m" "c_key x = k" "without k cs = abs_list (state c) (as @ bs)" unfolding cs by blast
    have xe: "abs_at (state c) e = x" using abs_at_entry [OF e(3)] e(4) by simp
    have ne: "c_key (abs_at (state c) y) \<noteq> k" if "y \<in> set (as @ bs)" for y
    proof -
      have "distinct (map c_key (abs_list (state c) (as @ e # bs)))" using abs_keys(1) [OF inv] e(2) by simp
      then show ?thesis using that xe e(5) by (auto simp: abs_list_def) (metis imageI)+
    qed
    have sp: "spec_release now ?h k cs =
        abs_list (state c) as @ (if c_claimed x then released now ?h x else x) # abs_list (state c) bs"
      unfolding spec_release_def cs e(2) using ne xe e(5) by (simp add: abs_list_def)
    have cl: "c_claimed x = refresh_claimed m" using e(4) by (simp add: abs_entry_def)
    show ?thesis
    proof (cases "refresh_claimed m")
      case False
      then have "release_refresh_claim env now k c = Some c" "spec_release now ?h k cs = cs"
        using e(1,3) sp cl xe cs e(2) by (simp_all add: release_refresh_claim_def Let_def abs_list_def)
      then show ?thesis using rep by (simp add: same_shape_def)
    next
      case True
      define g where "g = min (if refresh_failures m = - 1 then - 1 else refresh_failures m + 1) 5"
      define f where "f = (\<lambda>m :: ('b, 'c) entry_meta. m\<lparr>refresh_claimed := False, refresh_failures := g,
        retry_after := now + millis (unat ((push_bit (unat g) 1 :: u64) * 500 + ?h mod 500))\<rparr>)"
      have "static (f m) = static m" "table_slot (f m) = table_slot m" "links_of (f m) = links_of m"
        by (simp_all add: f_def static_def links_of_def)
      from entry_mut_inv [OF inv e(3), of f, OF this] obtain st' where st': "entry_mut f e (state c) = Some st'"
        "cache_inv env R {} st' xs" "entry st' e = Some (f m)" "pool st' = pool (state c)"
        "\<forall>x. x \<noteq> e \<longrightarrow> abs_at st' x = abs_at (state c) x" by blast
      have "e \<notin> set (as @ bs)" using cache_inv_core(4) [OF inv] e(2) by auto
      moreover have "abs_at st' e = released now ?h x"
        using abs_at_entry [OF st'(3)] st'(4) e(4)
        by (simp add: f_def g_def released_def Let_def abs_entry_def key_of_def text_of_def total_len_def)
      ultimately have "abs_list st' xs = spec_release now ?h k cs"
        unfolding sp e(2) using st'(5) True cl by (auto simp: abs_list_def)
      then have "represents env R (c\<lparr>state := st'\<rparr>) (spec_release now ?h k cs)"
        unfolding represents_def using st'(2) by (intro exI [of _ xs]) simp
      moreover have "release_refresh_claim env now k c = Some (c\<lparr>state := st'\<rparr>)"
        using e(1,3) True st'(1) unfolding f_def g_def by (simp add: release_refresh_claim_def Let_def)
      ultimately show ?thesis using st'(4) by (simp add: same_shape_def)
    qed
  qed
qed

end
