(* ===== verification/Cache_Refine.thy ===== *)
theory Cache_Refine
  imports Cache_Spec
begin

text \<open>
  Insertion, the scan for refresh candidates, the sweep and the creation of a cache refine their
  specifications.
\<close>

subsection \<open>Insertion\<close>

lemma abs_list_simps:
  "abs_list st [] = []" "abs_list st (e # xs) = abs_at st e # abs_list st xs"
  "abs_list st (xs @ ys) = abs_list st xs @ abs_list st ys"
  by (simp_all add: abs_list_def)

lemma abs_list_take: "abs_list st (take n xs) = take n (abs_list st xs)"
  by (simp add: abs_list_def take_map)

lemma find_without: "find_key k (without k cs) = None"
  by (auto simp: find_key_def without_def find_None_iff)

lemma find_key_notin: "find_key k cs = None \<longleftrightarrow> k \<notin> c_key ` set cs"
  by (auto simp: find_key_def find_None_iff)

lemma without_absent: "find_key k cs = None \<Longrightarrow> without k cs = cs"
  by (auto simp: find_key_notin without_def filter_id_conv)

text \<open>The old entry of the key, if there is one, has been removed.\<close>

lemma remove_old:
  assumes spec: "heap_spec (heap_impl env) R" and inv: "cache_inv env R {} st xs"
  shows "\<exists>used re st' ys. Option.bind (locate st (key_hash env k) k) (\<lambda>found. case found of
        Found e \<Rightarrow> do { m \<leftarrow> entry st e; st \<leftarrow> evict env e st; Some (last_used m, reused m, st) }
      | Vacant _ \<Rightarrow> Some (t2, False, st)) = Some (used, re, st') \<and>
    used = (case find_key k (abs_list st xs) of None \<Rightarrow> t2 | Some c \<Rightarrow> c_used c) \<and>
    re = (case find_key k (abs_list st xs) of None \<Rightarrow> False | Some c \<Rightarrow> c_reused c) \<and>
    cache_inv env R {} st' ys \<and> abs_list st' ys = without k (abs_list st xs) \<and>
    length (pool st') = length (pool st)"
proof (cases "find_key k (abs_list st xs)")
  case None
  then obtain j where "locate st (key_hash env k) k = Some (Vacant j)" using locate_abs(1) [OF inv] by blast
  then show ?thesis using None inv without_absent [OF None] by (intro exI [of _ t2] exI [of _ False] exI [of _ st] exI [of _ xs]) simp
next
  case (Some x)
  from locate_abs(2) [OF inv Some] obtain e as bs m where
    e: "locate st (key_hash env k) k = Some (Found e)" "xs = as @ e # bs" "entry st e = Some m"
    "x = abs_entry (pool st) m" "without k (abs_list st xs) = abs_list st (as @ bs)" by blast
  from evict_abs [OF spec inv [unfolded e(2)]] obtain st' where st': "evict env e st = Some st'"
    "cache_inv env R {} st' (as @ bs)" "keeps (as @ bs) st st'" "abs_list st' (as @ bs) = abs_list st (as @ bs)" by blast
  show ?thesis
    using Some e st'
    by (intro exI [of _ "last_used m"] exI [of _ "reused m"] exI [of _ st'] exI [of _ "as @ bs"])
      (simp add: abs_entry_def keeps_def)
qed

lemma ensure_inv:
  assumes inv: "cache_inv env R {} st xs"
  shows "\<exists>st'. ensure_table_capacity env st = Some st' \<and> cache_inv env R {} st' xs \<and>
    abs_list st' xs = abs_list st xs \<and> pool st' = pool st \<and>
    (table_len st' + tombstones st' + 1) * 4 < length (table st') * 3"
proof -
  note core = cache_inv_core [OF inv]
  from ensure_table_capacity_ok [OF core(1)] obtain st' where st': "ensure_table_capacity env st = Some st'"
    "state_core (key_hash env) st'" "table_only st st'"
    "(table_len st' + tombstones st' + 1) * 4 < length (table st') * 3" by blast
  have un: "same_by unslotted (entries st) (entries st')" using st'(3) by (simp add: table_only_def)
  note ss = unslotted_static [OF un]
  have "heap_inv R {} st'"
    using inv st'(3) blocks_cong [OF ss] by (simp add: cache_inv_def body_inv_def heap_inv_def table_only_def)
  then have "cache_inv env R {} st' xs"
    using inv st'(2,3) lru_ok_unslotted [OF un] live_set_cong [OF ss]
    by (simp add: cache_inv_def body_inv_def table_only_def)
  moreover have "abs_list st' xs = abs_list st xs"
    using abs_at_table_only [OF st'(3)] cache_inv_mem [OF inv] by (intro abs_list_cong) blast
  ultimately show ?thesis using st' by (auto simp: table_only_def)
qed

lemma lru_length: "cache_inv env R X st xs \<Longrightarrow> length xs \<le> length (entries st)"
proof -
  assume inv: "cache_inv env R X st xs"
  have "card (unat ` set xs) = length xs"
    using cache_inv_core(4) [OF inv] by (simp add: card_image distinct_card inj_on_def unsigned_word_eqI)
  moreover have "card (live_set (entries st)) \<le> card {..<length (entries st)}"
    by (rule card_mono) (auto simp: live_set_def)
  ultimately show ?thesis using cache_inv_core(3) [OF inv] by simp
qed

text \<open>The entry an insertion creates.\<close>

definition meta_of ::
  "instant \<Rightarrow> instant \<Rightarrow> bool \<Rightarrow> instant \<Rightarrow> ('rt, 'cl) cache_key \<Rightarrow> u32 \<Rightarrow> bytes \<Rightarrow> bytes \<Rightarrow> nat
    \<Rightarrow> ('rt, 'cl) entry_meta" where
  "meta_of t1 lu re t3 k ttl wire request off =
     (case k of (name, rt, cl, fl) \<Rightarrow>
        \<lparr>offset = off, nm_len = of_nat (length name), wire_len = of_nat (length wire),
         request_len = of_nat (length request), record_type = rt, dns_class = cl,
         flags = fl, expires_at = t1 + secs (unat ttl),
         stale_until = t1 + secs (unat ttl) + SERVE_STALE_WINDOW,
         original_ttl = secs (unat ttl), last_used = lu, retry_after = t3, reused = re,
         refresh_failures = 0, refresh_claimed = False, lru_prev = NONE, lru_next = NONE,
         table_slot = 0\<rparr>)"

lemma meta_of_abs:
  fixes t1 t3 lu :: instant and re :: bool and ttl :: u32
  assumes len: "length (fst k) \<le> 255" "length request < 2 ^ 16"
    and fits: "off + length (fst k @ wire @ request) \<le> length p" "length p \<le> 2 ^ 30"
  defines "m \<equiv> meta_of t1 lu re t3 k ttl wire request off" and "q \<equiv> blit p off (fst k @ wire @ request)"
  shows "total_len m = length (fst k @ wire @ request)" "block m = (off, length (fst k @ wire @ request))"
    "key_of q m = k"
    "abs_entry q m = \<lparr>c_key = k, c_wire = wire, c_request = request, c_expires = t1 + secs (unat ttl),
      c_stale = t1 + secs (unat ttl) + SERVE_STALE_WINDOW, c_ttl = secs (unat ttl), c_used = lu, c_retry = t3,
      c_reused = re, c_failures = 0, c_claimed = False\<rparr>"
proof -
  obtain name rt cl fl where k: "k = (name, rt, cl, fl)" by (cases k)
  have l: "unat (nm_len m) = length name" "unat (wire_len m) = length wire" "unat (request_len m) = length request"
    using assms(1-4) by (simp_all add: m_def meta_of_def k unat_of_nat)
  show tl: "total_len m = length (fst k @ wire @ request)" by (simp add: total_len_def l k)
  have o: "offset m = off" by (simp add: m_def meta_of_def k)
  then show "block m = (off, length (fst k @ wire @ request))" using tl by (simp add: block_def)
  have tx: "text_of q m = fst k @ wire @ request"
    using text_of_blit [of m "fst k @ wire @ request" p] fits(1) tl o by (simp add: q_def)
  then show key: "key_of q m = k" by (simp add: key_of_def l k) (simp add: m_def meta_of_def k)
  show "abs_entry q m = \<lparr>c_key = k, c_wire = wire, c_request = request, c_expires = t1 + secs (unat ttl),
      c_stale = t1 + secs (unat ttl) + SERVE_STALE_WINDOW, c_ttl = secs (unat ttl), c_used = lu, c_retry = t3,
      c_reused = re, c_failures = 0, c_claimed = False\<rparr>"
    unfolding abs_entry_def key tx l using k by (simp add: m_def meta_of_def)
qed

lemma insert_alloc:
  assumes spec: "heap_spec (heap_impl env) R" and inv: "cache_inv env R {} st ys"
    and room: "(table_len st + tombstones st + 1) * 4 < length (table st) * 3"
    and new: "find_key k (abs_list st ys) = None"
    and len: "length (fst k) \<le> 255" "length request < 2 ^ 16" "0 < length (fst k @ wire @ request)"
  defines "bs \<equiv> fst k @ wire @ request"
  shows "\<exists>r st3. alloc_loop env (length bs) (length (entries st) + 1) st = Some (r, st3) \<and>
    length (pool st3) = length (pool st) \<and>
    (case r of
       None \<Rightarrow> cache_inv env R {} st3 [] \<and> \<not> always_fits (heap_impl env) R (length (pool st)) (length bs)
     | Some off \<Rightarrow> \<exists>st' e n. insert_new env (meta_of t1 lu re t3 k ttl wire request off) k bs st3 = Some st' \<and>
         cache_inv env R {} st' (e # take n ys) \<and> length (pool st') = length (pool st) \<and>
         abs_at st' e = \<lparr>c_key = k, c_wire = wire, c_request = request, c_expires = t1 + secs (unat ttl),
           c_stale = t1 + secs (unat ttl) + SERVE_STALE_WINDOW, c_ttl = secs (unat ttl), c_used = lu,
           c_retry = t3, c_reused = re, c_failures = 0, c_claimed = False\<rparr> \<and>
         abs_list st' (take n ys) = abs_list st (take n ys))"
proof -
  have "length ys < length (entries st) + 1" using lru_length [OF inv] by simp
  from alloc_loop_ok [OF spec len(3) inv this, folded bs_def] obtain r st3 n where
    run: "alloc_loop env (length bs) (length (entries st) + 1) st = Some (r, st3)"
    and kp: "keeps (take n ys) st st3"
    and res: "case r of
        None \<Rightarrow> n = 0 \<and> cache_inv env R {} st3 [] \<and> \<not> always_fits (heap_impl env) R (length (pool st)) (length bs)
      | Some a \<Rightarrow> cache_inv env R {(a, length bs)} st3 (take n ys)" by blast
  have pl: "length (pool st3) = length (pool st)" using kp by (simp add: keeps_def)
  show ?thesis
  proof (cases r)
    case None
    then show ?thesis using run res pl by simp
  next
    case (Some off)
    let ?m = "meta_of t1 lu re t3 k ttl wire request off"
    have inv3: "cache_inv env R {(off, length bs)} st3 (take n ys)" using res Some by simp
    have fits: "off + length bs \<le> length (pool st3)" "length (pool st3) \<le> 2 ^ 30"
      using inv3 core_invD(6) [OF cache_inv_core(1) [OF inv3]]
      by (simp_all add: cache_inv_def body_inv_def heap_inv_def)
    note ma = meta_of_abs [OF len(1,2) fits [unfolded bs_def], of t1 lu re t3 ttl, folded bs_def]
    have o: "offset ?m = off" by (simp add: meta_of_def split: prod.split)
    have "abs_list st3 (take n ys) = abs_list st (take n ys)" using kp by (intro abs_list_cong) (simp add: keeps_def)
    moreover have "k \<notin> slab_keys (pool st3) (entries st3)"
    proof -
      have "c_key ` set (abs_list st3 (take n ys)) \<subseteq> c_key ` set (abs_list st ys)"
        unfolding calculation by (auto simp: abs_list_def dest: in_set_takeD)
      then show ?thesis using new abs_keys(2) [OF inv3] by (auto simp: find_key_notin)
    qed
    moreover have "(table_len st3 + tombstones st3 + 1) * 4 < length (table st3) * 3"
      using room kp by (simp add: keeps_def)
    moreover from calculation obtain e st' where "insert_new env ?m k bs st3 = Some st'"
      "cache_inv env R {} st' (e # take n ys)" "pool st' = blit (pool st3) off bs"
      "abs_at st' e = abs_entry (blit (pool st3) off bs) ?m" "\<forall>x\<in>set (take n ys). abs_at st' x = abs_at st3 x"
      using insert_new_ok [of env R ?m st3 "take n ys" bs k] inv3 ma o by auto
    moreover from this have "abs_list st' (take n ys) = abs_list st3 (take n ys)" by (intro abs_list_cong) simp
    ultimately show ?thesis
      using run Some pl fits(1) ma(4) by (intro exI [of _ r] exI [of _ st3]) auto
  qed
qed

definition cacheable :: "('h, 'rt, 'cl) response_cache \<Rightarrow> ('rt, 'cl) cache_key \<Rightarrow> bytes \<Rightarrow> bytes \<Rightarrow> bool" where
  "cacheable c k wire request \<longleftrightarrow> enabled c \<and> length (fst k) \<le> 255 \<and> length request < 2 ^ 16 \<and>
     length (fst k) + length wire + length request \<le> length (pool (state c))"

lemma insert_rejects:
  "\<not> cacheable c k wire request \<Longrightarrow> insert_with_flags env t1 t2 t3 k ttl wire request c = Some c"
  by (cases k) (auto simp: insert_with_flags_def cacheable_def Let_def)

lemma insert_refines:
  assumes spec: "heap_spec (heap_impl env) R" and rep: "represents env R c cs"
    and ok: "cacheable c k wire request" "0 < length (fst k) + length wire + length request"
  shows "\<exists>c' cs'. insert_with_flags env t1 t2 t3 k ttl wire request c = Some c' \<and> represents env R c' cs' \<and>
    same_shape c c' \<and>
    (cs' = [] \<and> \<not> always_fits (heap_impl env) R (length (pool (state c))) (length (fst k) + length wire + length request) \<or>
     (\<exists>n. cs' = spec_new t1 t2 t3 k ttl wire request cs # take n (without k cs)))"
proof -
  obtain name rt cl fl where k: "k = (name, rt, cl, fl)" by (cases k)
  let ?bs = "fst k @ wire @ request"
  have sz: "length name + length wire + length request = length ?bs" using k by simp
  obtain xs where inv: "cache_inv env R {} (state c) xs" and cs: "cs = abs_list (state c) xs"
    using rep by (auto simp: represents_def)
  have "length ?bs < 2 ^ 63"
    using ok core_invD(6) [OF cache_inv_core(1) [OF inv]] k by (simp add: cacheable_def)
  then have pre: "enabled c" "\<not> length name > 255" "\<not> length request \<ge> 2 ^ 16" "\<not> length ?bs \<ge> 2 ^ 63"
    "\<not> length ?bs > length (pool (state c))"
    using ok k by (auto simp: cacheable_def)
  from remove_old [OF spec inv, of k t2] obtain found lu re st1 ys where
    loc: "locate (state c) (key_hash env k) k = Some found"
    and old: "(case found of Found e \<Rightarrow> do { m \<leftarrow> entry (state c) e; st \<leftarrow> evict env e (state c); Some (last_used m, reused m, st) }
      | Vacant _ \<Rightarrow> Some (t2, False, state c)) = Some (lu, re, st1)"
    and lu: "lu = (case find_key k cs of None \<Rightarrow> t2 | Some c \<Rightarrow> c_used c)"
      "re = (case find_key k cs of None \<Rightarrow> False | Some c \<Rightarrow> c_reused c)"
    and st1: "cache_inv env R {} st1 ys" "abs_list st1 ys = without k cs" "length (pool st1) = length (pool (state c))"
    unfolding cs by (auto simp: Option.bind_eq_Some_conv)
  from ensure_inv [OF st1(1)] obtain st2 where st2: "ensure_table_capacity env st1 = Some st2"
    "cache_inv env R {} st2 ys" "abs_list st2 ys = without k cs" "pool st2 = pool st1"
    "(table_len st2 + tombstones st2 + 1) * 4 < length (table st2) * 3" using st1(2) by auto
  have new: "find_key k (abs_list st2 ys) = None" using st2(3) find_without by simp
  have len: "length (fst k) \<le> 255" "length request < 2 ^ 16" "0 < length ?bs" using ok by (auto simp: cacheable_def)
  from insert_alloc [OF spec st2(2,5) new len, of t1 lu re t3 ttl] obtain r st3 where
    al: "alloc_loop env (length ?bs) (length (entries st2) + 1) st2 = Some (r, st3)"
    and res: "length (pool st3) = length (pool st2)" "case r of
       None \<Rightarrow> cache_inv env R {} st3 [] \<and> \<not> always_fits (heap_impl env) R (length (pool st2)) (length ?bs)
     | Some off \<Rightarrow> \<exists>st' e n. insert_new env (meta_of t1 lu re t3 k ttl wire request off) k ?bs st3 = Some st' \<and>
         cache_inv env R {} st' (e # take n ys) \<and> length (pool st') = length (pool st2) \<and>
         abs_at st' e = spec_new t1 t2 t3 k ttl wire request cs \<and>
         abs_list st' (take n ys) = abs_list st2 (take n ys)"
    unfolding spec_new_def lu [symmetric] by blast
  show ?thesis
  proof (cases r)
    case None
    have "insert_with_flags env t1 t2 t3 k ttl wire request c = Some (c\<lparr>state := st3\<rparr>)"
      using pre loc old st2(1) al None unfolding insert_with_flags_def k prod.case Let_def sz by (simp add: k)
    moreover have "represents env R (c\<lparr>state := st3\<rparr>) []"
      unfolding represents_def using res None by (intro exI [of _ "[]"]) (simp add: abs_list_def)
    ultimately show ?thesis
      using res None st1(3) st2(4)
      by (intro exI [of _ "c\<lparr>state := st3\<rparr>"] exI [of _ "[]"]) (simp add: same_shape_def add.assoc)
  next
    case (Some off)
    with res(2) obtain st' e n where
      ins: "insert_new env (meta_of t1 lu re t3 k ttl wire request off) k ?bs st3 = Some st'"
      and st': "cache_inv env R {} st' (e # take n ys)" "length (pool st') = length (pool st2)"
        "abs_at st' e = spec_new t1 t2 t3 k ttl wire request cs" "abs_list st' (take n ys) = abs_list st2 (take n ys)"
      by auto
    have "insert_with_flags env t1 t2 t3 k ttl wire request c = Some (c\<lparr>state := st'\<rparr>)"
      using pre loc old st2(1) al Some ins unfolding insert_with_flags_def k prod.case Let_def sz
      by (simp add: k meta_of_def)
    moreover have "abs_list st' (e # take n ys) = spec_new t1 t2 t3 k ttl wire request cs # take n (without k cs)"
      using st'(3,4) st2(3) by (simp add: abs_list_simps abs_list_take)
    then have "represents env R (c\<lparr>state := st'\<rparr>) (spec_new t1 t2 t3 k ttl wire request cs # take n (without k cs))"
      unfolding represents_def using st'(1) by (intro exI [of _ "e # take n ys"]) simp
    ultimately show ?thesis
      using st'(2) st1(3) st2(4)
      by (intro exI [of _ "c\<lparr>state := st'\<rparr>"] exI [of _ "spec_new t1 t2 t3 k ttl wire request cs # take n (without k cs)"])
        (auto simp: same_shape_def)
  qed
qed

subsection \<open>Refresh candidates\<close>

definition prefetch :: "instant \<Rightarrow> u64 \<Rightarrow> ('rt, 'cl) cached \<Rightarrow> bool" where
  "prefetch now h c \<longleftrightarrow>
     c_reused c \<and> c_request c \<noteq> [] \<and> \<not> c_claimed c \<and> c_retry c \<le> now \<and> now < c_stale c \<and>
     now - c_used c < REFRESH_IDLE_LIMIT \<and> c_expires c - now \<le> c_ttl c * (5 + unat h mod 6) div 100"

fun spec_scan ::
  "(('rt, 'cl) cache_key \<Rightarrow> u64) \<Rightarrow> instant \<Rightarrow> nat \<Rightarrow> nat \<Rightarrow> bytes list \<Rightarrow> ('rt, 'cl) cached list
    \<Rightarrow> bytes list \<times> ('rt, 'cl) cached list" where
  "spec_scan kh now budget 0 reqs cs = (reqs, cs)" |
  "spec_scan kh now budget (Suc n) reqs [] = (reqs, [])" |
  "spec_scan kh now budget (Suc n) reqs (c # cs) =
     (if length reqs = budget then (reqs, c # cs)
      else if prefetch now (kh (c_key c)) c
      then let (reqs, cs) = spec_scan kh now budget n (reqs @ [c_request c]) cs in (reqs, c\<lparr>c_claimed := True\<rparr> # cs)
      else let (reqs, cs) = spec_scan kh now budget n reqs cs in (reqs, c # cs))"

lemma next_of:
  assumes "lru_ok es h t (xs @ e # ys)" "es ! unat e = Some m"
  shows "lru_next m = (if ys = [] then NONE else hd ys)"
  using assms by (auto simp: lru_ok_def dlls_append dest: dlls_head)

lemma get_range_request:
  assumes "in_pool p m"
  shows "get_range p (offset m + unat (nm_len m) + unat (wire_len m))
      (offset m + unat (nm_len m) + unat (wire_len m) + unat (request_len m)) = Some (c_request (abs_entry p m))"
    "c_request (abs_entry p m) \<noteq> [] \<longleftrightarrow> 0 < unat (request_len m)"
proof -
  have "length (text_of p m) = total_len m" using assms by (simp add: text_of_def in_pool_def)
  moreover from this have "take (unat (request_len m)) (drop (unat (nm_len m) + unat (wire_len m)) (text_of p m)) =
      drop (unat (nm_len m) + unat (wire_len m)) (text_of p m)"
    by (intro take_all) (simp add: total_len_def)
  ultimately show "get_range p (offset m + unat (nm_len m) + unat (wire_len m))
      (offset m + unat (nm_len m) + unat (wire_len m) + unat (request_len m)) = Some (c_request (abs_entry p m))"
    "c_request (abs_entry p m) \<noteq> [] \<longleftrightarrow> 0 < unat (request_len m)"
    using get_range_text [OF assms, of "unat (nm_len m) + unat (wire_len m)" "unat (request_len m)"]
    by (simp_all add: total_len_def abs_entry_def add.assoc)
qed

lemma entry_hash:
  assumes inv: "cache_inv env R X st xs" and m: "entry st e = Some m"
  shows "\<exists>c. get (table st) (unat (table_slot m)) = Some c \<and> ks_hash c = key_hash env (key_of (pool st) m)"
    "in_pool (pool st) m"
proof -
  note core = cache_inv_core(1) [OF inv]
  have m': "unat e < length (entries st)" "entries st ! unat e = Some m" using m by (simp_all add: entry_eq_Some)
  then have l: "unat e \<in> live_set (entries st)" "unat e < length (pool st)"
    using core_invD(5) [OF core] by (auto simp: live_set_def)
  note s = slot_of_entry [OF core_invD(2) [OF core] l core_invD(6) [OF core] m'(2)]
  have "slot_valid (key_hash env) (pool st) (entries st) (table st ! unat (table_slot m))"
    using core_invD(8) [OF core] s(1) by (simp add: slots_valid_def)
  then show "\<exists>c. get (table st) (unat (table_slot m)) = Some c \<and> ks_hash c = key_hash env (key_of (pool st) m)"
    using s m' by (auto simp: slot_valid_def get_def)
  show "in_pool (pool st) m" using core_invD(4) [OF core] m' by (auto simp: blocks_ok_def)
qed

lemma candidates_loop_ok:
  "cache_inv env R {} st (xs @ ys) \<Longrightarrow>
   \<exists>st'. candidates_loop now budget n (if ys = [] then NONE else hd ys) reqs st =
       Some (fst (spec_scan (key_hash env) now budget n reqs (abs_list st ys)), st') \<and>
     cache_inv env R {} st' (xs @ ys) \<and> pool st' = pool st \<and> abs_list st' xs = abs_list st xs \<and>
     abs_list st' ys = snd (spec_scan (key_hash env) now budget n reqs (abs_list st ys))"
proof (induction n arbitrary: xs ys reqs st)
  case 0
  then show ?case by auto
next
  case (Suc n)
  show ?case
  proof (cases "ys = [] \<or> length reqs = budget")
    case True
    then show ?thesis using Suc.prems by (cases ys) (auto simp: abs_list_def)
  next
    case False
    then obtain e zs where ys: "ys = e # zs" by (cases ys) auto
    obtain m where m: "entry st e = Some m" "e \<noteq> NONE"
      using cache_inv_mem [OF Suc.prems, of e] ys by (auto simp: entry_eq_Some)
    note hash = entry_hash [OF Suc.prems m(1)]
    then obtain c where c: "get (table st) (unat (table_slot m)) = Some c"
      "ks_hash c = key_hash env (key_of (pool st) m)" by blast
    have nx: "lru_next m = (if zs = [] then NONE else hd zs)"
      using next_of [of "entries st" _ _ xs e zs m] cache_inv_core(2) [OF Suc.prems] ys m(1) by (auto simp: entry_eq_Some)
    let ?x = "abs_at st e"
    have x: "?x = abs_entry (pool st) m" by (rule abs_at_entry [OF m(1)])
    have due: "refresh_due now (ks_hash c) m = prefetch now (key_hash env (c_key ?x)) ?x"
      using get_range_request(2) [OF hash(2)] c(2)
      by (simp add: refresh_due_def prefetch_def x) (simp add: abs_entry_def)
    have inv0: "cache_inv env R {} st ((xs @ [e]) @ zs)" using Suc.prems ys by simp
    show ?thesis
    proof (cases "prefetch now (key_hash env (c_key ?x)) ?x")
      case False
      from Suc.IH [OF inv0, of reqs] show ?thesis
        using False \<open>\<not> (ys = [] \<or> length reqs = budget)\<close> ys m c due nx
        by (auto simp: abs_list_simps case_prod_beta)
    next
      case True
      let ?f = "\<lambda>m :: ('b, 'c) entry_meta. m\<lparr>refresh_claimed := True\<rparr>"
      have "static (?f m) = static m" "table_slot (?f m) = table_slot m" "links_of (?f m) = links_of m"
        by (simp_all add: static_def links_of_def)
      from entry_mut_inv [OF inv0 m(1), of ?f, OF this] obtain st1 where st1: "entry_mut ?f e st = Some st1"
        "cache_inv env R {} st1 ((xs @ [e]) @ zs)" "entry st1 e = Some (?f m)" "pool st1 = pool st"
        "\<forall>x. x \<noteq> e \<longrightarrow> abs_at st1 x = abs_at st x" by blast
      have "e \<notin> set (xs @ zs)" using cache_inv_core(4) [OF inv0] by auto
      then have ab: "abs_list st1 xs = abs_list st xs" "abs_list st1 zs = abs_list st zs"
        "abs_at st1 e = ?x\<lparr>c_claimed := True\<rparr>"
        using st1(5) abs_at_entry [OF st1(3)] st1(4) x
        by (auto simp: abs_list_def abs_entry_def key_of_def text_of_def total_len_def)
      from Suc.IH [OF st1(2), of "reqs @ [c_request ?x]"] show ?thesis
        using True \<open>\<not> (ys = [] \<or> length reqs = budget)\<close> ys m c due nx st1(1,4) ab
          get_range_request(1) [OF hash(2)] x
        by (auto simp: abs_list_simps case_prod_beta)
    qed
  qed
qed

lemma refresh_candidates_refines:
  fixes now :: instant
  assumes rep: "represents env R c cs"
  defines "scan \<equiv> spec_scan (key_hash env) now (refresh_slots c) REFRESH_SCAN_LIMIT [] cs"
  shows "\<exists>c'. refresh_candidates now c = Some (if enabled c \<and> refresh_slots c \<noteq> 0 then fst scan else [], c') \<and>
    represents env R c' (if enabled c \<and> refresh_slots c \<noteq> 0 then snd scan else cs) \<and> same_shape c c'"
proof (cases "enabled c \<and> refresh_slots c \<noteq> 0")
  case True
  obtain xs where inv: "cache_inv env R {} (state c) ([] @ xs)" and cs: "cs = abs_list (state c) xs"
    using rep by (auto simp: represents_def)
  have "lru_head (state c) = (if xs = [] then NONE else hd xs)"
    using lru_ok_head cache_inv_core(2) [OF inv] by fastforce
  with candidates_loop_ok [OF inv, of now "refresh_slots c" REFRESH_SCAN_LIMIT "[]"] obtain st' where
    "candidates_loop now (refresh_slots c) REFRESH_SCAN_LIMIT (lru_head (state c)) [] (state c) = Some (fst scan, st')"
    "cache_inv env R {} st' xs" "pool st' = pool (state c)" "abs_list st' xs = snd scan"
    unfolding scan_def cs by auto
  then show ?thesis
    using True by (auto simp: refresh_candidates_def represents_def same_shape_def Let_def)
next
  case False
  then show ?thesis using rep by (auto simp: refresh_candidates_def same_shape_def Let_def)
qed

subsection \<open>Sweeping\<close>

text \<open>The entries of the LRU list that survive the sweep of the slab indices below \<open>k\<close> from \<open>a\<close> on.\<close>

definition survivors :: "instant \<Rightarrow> ('h, 'rt, 'cl) cache_state \<Rightarrow> nat \<Rightarrow> nat \<Rightarrow> u32 list \<Rightarrow> u32 list" where
  "survivors now st a k xs = filter (\<lambda>e. \<not> (a \<le> unat e \<and> unat e < k \<and> c_stale (abs_at st e) \<le> now)) xs"

definition swept ::
  "('h, 'rt, 'cl) cache_env \<Rightarrow> ('h \<Rightarrow> nat \<Rightarrow> (nat \<times> nat) set \<Rightarrow> bool) \<Rightarrow> instant \<Rightarrow> ('h, 'rt, 'cl) cache_state
    \<Rightarrow> u32 list \<Rightarrow> nat \<Rightarrow> nat \<Rightarrow> ('h, 'rt, 'cl) cache_state \<Rightarrow> bool" where
  "swept env R now st0 xs a k st \<longleftrightarrow>
     cache_inv env R {} st (survivors now st0 a k xs) \<and> keeps (survivors now st0 a k xs) st0 st"

lemma survivors_Suc_same:
  assumes "\<And>e. e \<in> set xs \<Longrightarrow> unat e = k \<Longrightarrow> \<not> c_stale (abs_at st e) \<le> now"
  shows "survivors now st a (Suc k) xs = survivors now st a k xs"
  unfolding survivors_def using assms by (intro filter_cong) (auto simp: less_Suc_eq)

lemma survivors_Suc_drop:
  assumes sv: "survivors now st a k xs = as @ e # bs" and d: "distinct xs"
    and e: "unat e = k" "a \<le> k" "c_stale (abs_at st e) \<le> now"
  shows "survivors now st a (Suc k) xs = as @ bs"
proof -
  have "survivors now st a (Suc k) xs = filter (\<lambda>x. x \<noteq> e) (survivors now st a k xs)"
    unfolding survivors_def filter_filter
    using e by (intro filter_cong) (auto simp: less_Suc_eq dest: unsigned_word_eqI)
  moreover have "distinct (as @ e # bs)" unfolding sv [symmetric] using d by (simp add: survivors_def)
  then have "filter (\<lambda>x. x \<noteq> e) as = as" "filter (\<lambda>x. x \<noteq> e) bs = bs"
    by (auto intro: filter_True)
  then have "filter (\<lambda>x. x \<noteq> e) (as @ e # bs) = as @ bs" by simp
  ultimately show ?thesis unfolding sv by simp
qed

lemma sweep_step:
  assumes spec: "heap_spec (heap_impl env) R" and d: "distinct xs" and k: "a \<le> k" "k < length (entries st0)"
    and sw: "swept env R now st0 xs a k st"
  shows "\<exists>st'. evict_if_expired env now k st = Some st' \<and> swept env R now st0 xs a (Suc k) st'"
proof -
  let ?ys = "survivors now st0 a k xs"
  have inv: "cache_inv env R {} st ?ys" and kp: "keeps ?ys st0 st" using sw by (simp_all add: swept_def)
  have kl: "k < length (entries st)" using k(2) kp by (simp add: keeps_def)
  then have kp30: "k < length (pool st)" "length (pool st) \<le> 2 ^ 30"
    using core_invD(5,6) [OF cache_inv_core(1) [OF inv]] by simp_all
  note uk = unat_index [OF kp30]
  have at: "e \<in> set ?ys" if "e \<in> set xs" "unat e = k" for e
    using that by (auto simp: survivors_def)
  show ?thesis
  proof (cases "entries st ! k")
    case None
    have "survivors now st0 a (Suc k) xs = ?ys"
    proof (rule survivors_Suc_same)
      fix e assume "e \<in> set xs" "unat e = k"
      then show "\<not> c_stale (abs_at st0 e) \<le> now" using at [of e] cache_inv_mem [OF inv, of e] None by auto
    qed
    then show ?thesis using None kl sw by (simp add: evict_if_expired_def get_def swept_def)
  next
    case (Some m)
    let ?e = "of_nat k :: u32"
    have "k \<in> unat ` set ?ys" unfolding cache_inv_core(3) [OF inv] using Some kl by (simp add: live_set_def)
    then have mem: "?e \<in> set ?ys" by auto
    have st: "c_stale (abs_at st0 ?e) = stale_until m"
      using kp mem Some uk by (auto simp: keeps_def abs_at_def abs_entry_def)
    show ?thesis
    proof (cases "stale_until m \<le> now")
      case False
      have "survivors now st0 a (Suc k) xs = ?ys"
      proof (rule survivors_Suc_same)
        fix e :: u32 assume "unat e = k"
        then have "e = ?e" by auto
        then show "\<not> c_stale (abs_at st0 e) \<le> now" using st False by simp
      qed
      then show ?thesis using Some False kl sw by (simp add: evict_if_expired_def get_def swept_def)
    next
      case True
      obtain as bs where ys: "?ys = as @ ?e # bs" using mem by (auto dest: split_list)
      have nx: "survivors now st0 a (Suc k) xs = as @ bs"
        by (rule survivors_Suc_drop [OF ys d uk k(1)]) (simp add: st True)
      from evict_abs [OF spec inv [unfolded ys]] obtain st' where st': "evict env ?e st = Some st'"
        "cache_inv env R {} st' (as @ bs)" "keeps (as @ bs) st st'" by blast
      have "keeps (as @ bs) st0 st'" by (rule keeps_trans [OF kp st'(3)]) (auto simp: ys)
      then show ?thesis using Some True kl st' by (auto simp: evict_if_expired_def get_def swept_def nx)
    qed
  qed
qed

lemma evict_batch_refines:
  assumes spec: "heap_spec (heap_impl env) R" and inv: "cache_inv env R {} (state c) xs"
    and ab: "a \<le> b" "b \<le> length (entries (state c))"
  shows "\<exists>st'. evict_expired_batch env now a b c = Some (c\<lparr>state := st'\<rparr>) \<and> swept env R now (state c) xs a b st'"
proof -
  have "survivors now (state c) a a xs = xs" by (auto simp: survivors_def filter_id_conv)
  then have start: "swept env R now (state c) xs a a (state c)" using inv by (simp add: swept_def keeps_def)
  have "\<exists>st'. foldM (evict_if_expired env now) [a..<b] (state c) = Some st' \<and> swept env R now (state c) xs a b st'"
  proof (rule foldM_range [where P = "swept env R now (state c) xs a", OF _ ab(1) start])
    fix k st assume k: "a \<le> k" "k < b" and sw: "swept env R now (state c) xs a k st"
    show "\<exists>st'. evict_if_expired env now k st = Some st' \<and> swept env R now (state c) xs a (Suc k) st'"
      by (rule sweep_step [OF spec cache_inv_core(4) [OF inv] k(1) _ sw]) (use k ab in simp)
  qed
  then show ?thesis using ab by (auto simp: evict_expired_batch_def min_def)
qed

end
