(* ===== verification/Cache_Trace.thy ===== *)
theory Cache_Trace
  imports Cache_Refine
begin

text \<open>
  The creation of a cache, a full sweep, and sequences of operations. \<open>cache_op\<close> and \<open>run_ops\<close> put
  the operations in the order in which the cache's mutex serializes them; \<open>spec_op\<close> says what an
  operation may do to the content. \<open>run_op_simulates\<close> is the simulation: every operation runs without
  panic and does what \<open>spec_op\<close> allows.
\<close>

subsection \<open>A new cache\<close>

lemma empty_core:
  fixes kh :: "('rt, 'cl) cache_key \<Rightarrow> u64"
  assumes "length p \<le> 2 ^ 30"
  shows "core_inv kh p [] (replicate 64 EMPTY_KEY_SLOT) [] 0 0"
proof -
  have cells: "key_cells p ([] :: ('rt, 'cl) entry_meta option list) (replicate 64 EMPTY_KEY_SLOT) = replicate 64 Free"
    by (simp add: key_cells_def cell_of_def)
  have "table_ok (khome kh) (replicate (2 ^ 6) Free)" by (rule table_ok_replicate)
  then have "index_inv kh p [] (replicate 64 EMPTY_KEY_SLOT) (live_set [])"
    unfolding index_inv_def cells by (auto simp: slots_valid_def slot_valid_def occupied_def live_set_def)
  moreover have "counts_ok p (replicate 64 Free :: ('rt, 'cl) cache_key cell list) 0 0"
    using table_ok_replicate(4,5) by (auto simp: counts_ok_def)
  ultimately show ?thesis
    unfolding core_inv_def cells using assms by (auto simp: slab_ok_def blocks_ok_def)
qed

lemma new_represents:
  assumes spec: "heap_spec (heap_impl env) R" and size: "n \<le> 2 ^ 30"
  shows "represents env R (response_cache_new env en n) []"
    "enabled (response_cache_new env en n) \<longleftrightarrow> en \<and> 64 \<le> n"
    "refresh_slots (response_cache_new env en n) = REFRESH_CONCURRENCY"
    "length (pool (state (response_cache_new env en n))) = (if en \<and> 64 \<le> n then n else 0)"
proof -
  let ?c = "response_cache_new env en n"
  define sz where "sz = (if en \<and> 64 \<le> n then n else 0)"
  obtain h p where hp: "(if 0 < sz then heap_new (heap_impl env) (replicate sz 0)
      else (heap_empty (heap_impl env), replicate sz 0)) = (h, p)"
    by (cases "if 0 < sz then heap_new (heap_impl env) (replicate sz 0)
      else (heap_empty (heap_impl env), replicate sz 0)")
  have sz64: "0 < sz \<Longrightarrow> 64 \<le> sz" by (simp add: sz_def split: if_splits)
  have R: "R h (length p) {}" "length p = sz"
  proof -
    have empty: "R (heap_empty (heap_impl env)) 0 {}" using spec unfolding heap_spec_def by blast
    have new: "R h (length q) {} \<and> length p' = length q" if "64 \<le> length q" "heap_new (heap_impl env) q = (h, p')"
      for q h p' using spec that unfolding heap_spec_def by blast
    show "R h (length p) {}" "length p = sz"
      using hp empty new [of "replicate sz 0" h p] sz64 by (auto split: if_splits)
  qed
  have c: "?c = \<lparr>enabled = (en \<and> 64 \<le> n), refresh_slots = REFRESH_CONCURRENCY,
      state = \<lparr>pool = p, heap = h, table = replicate 64 EMPTY_KEY_SLOT, table_len = 0, tombstones = 0,
        entries = [], free_entries = [], lru_head = NONE, lru_tail = NONE\<rparr>\<rparr>"
    using hp unfolding response_cache_new_def Let_def sz_def [symmetric] by (simp only: prod.case)
  then show "enabled ?c \<longleftrightarrow> en \<and> 64 \<le> n" "refresh_slots ?c = REFRESH_CONCURRENCY"
    "length (pool (state ?c)) = (if en \<and> 64 \<le> n then n else 0)"
    using R(2) by (simp_all add: sz_def)
  have "length p \<le> 2 ^ 30" using R(2) size by (simp add: sz_def)
  then have "state_core (key_hash env) (state ?c)" using empty_core unfolding c by simp
  then have "cache_inv env R {} (state ?c) []"
    using R(1) unfolding c by (simp add: cache_inv_def body_inv_def heap_inv_def blocks_def live_set_def)
  then show "represents env R ?c []"
    unfolding represents_def by (intro exI [of _ "[]"]) (simp add: abs_list_def)
qed

subsection \<open>A full sweep\<close>

lemma survivors_compose:
  assumes "\<forall>e\<in>set (survivors now st0 a k xs). abs_at st e = abs_at st0 e" "a \<le> k" "k \<le> l"
  shows "survivors now st k l (survivors now st0 a k xs) = survivors now st0 a l xs"
  using assms unfolding survivors_def filter_filter by (intro filter_cong) auto

lemma swept_trans:
  assumes "swept env R now st0 xs a k st" "swept env R now st (survivors now st0 a k xs) k l st'" "a \<le> k" "k \<le> l"
  shows "swept env R now st0 xs a l st'"
proof -
  have eq: "survivors now st k l (survivors now st0 a k xs) = survivors now st0 a l xs"
    using assms by (intro survivors_compose) (simp_all add: swept_def keeps_def)
  have sub: "set (survivors now st0 a l xs) \<subseteq> set (survivors now st0 a k xs)"
    using assms(4) by (auto simp: survivors_def)
  have "keeps (survivors now st0 a k xs) st0 st" "keeps (survivors now st0 a l xs) st st'"
    using assms(1,2) unfolding swept_def eq by blast+
  from keeps_trans [OF this sub] show ?thesis using assms(2) unfolding swept_def eq by blast
qed

lemma filter_abs:
  assumes inv: "cache_inv env R X st xs"
  shows "\<exists>P. abs_list st (filter Q xs) = filter P (abs_list st xs) \<and> (\<forall>e\<in>set xs. P (abs_at st e) = Q e)"
proof -
  have "inj_on (abs_at st) (set xs)"
    using abs_keys(1) [OF inv] cache_inv_core(4) [OF inv] unfolding abs_list_def
    by (metis distinct_map inj_on_imageI2 map_map)
  then have P: "(abs_at st e \<in> abs_at st ` set (filter Q xs)) = Q e" if "e \<in> set xs" for e
    using that by (auto dest: inj_onD)
  have "filter (\<lambda>x. x \<in> abs_at st ` set (filter Q xs)) (map (abs_at st) xs) = map (abs_at st) (filter Q xs)"
    unfolding filter_map comp_def using P by (intro arg_cong [of _ _ "map (abs_at st)"] filter_cong) auto
  then show ?thesis
    using P by (intro exI [of _ "\<lambda>x. x \<in> abs_at st ` set (filter Q xs)"]) (simp add: abs_list_def)
qed

lemma evict_batch_any:
  assumes spec: "heap_spec (heap_impl env) R" and rep: "represents env R c cs"
  shows "\<exists>c' P. evict_expired_batch env now a b c = Some c' \<and> represents env R c' (filter P cs) \<and>
    (\<forall>x\<in>set cs. \<not> P x \<longrightarrow> c_stale x \<le> now) \<and> same_shape c c'"
proof (cases "a \<le> min b (length (entries (state c)))")
  case True
  obtain xs where inv: "cache_inv env R {} (state c) xs" and cs: "cs = abs_list (state c) xs"
    using rep by (auto simp: represents_def)
  let ?b = "min b (length (entries (state c)))" and ?ys = "survivors now (state c) a (min b (length (entries (state c)))) xs"
  from evict_batch_refines [OF spec inv True, of now] obtain st' where
    st': "evict_expired_batch env now a ?b c = Some (c\<lparr>state := st'\<rparr>)" "swept env R now (state c) xs a ?b st'" by auto
  have keep: "abs_list st' ?ys = abs_list (state c) ?ys"
    using st'(2) by (intro abs_list_cong) (simp add: swept_def keeps_def)
  from filter_abs [OF inv] obtain P where P: "abs_list (state c) ?ys = filter P (abs_list (state c) xs)"
    "\<forall>e\<in>set xs. P (abs_at (state c) e) = (\<not> (a \<le> unat e \<and> unat e < ?b \<and> c_stale (abs_at (state c) e) \<le> now))"
    unfolding survivors_def by blast
  have "represents env R (c\<lparr>state := st'\<rparr>) (filter P cs)"
    unfolding represents_def using st'(2) keep P(1) cs by (intro exI [of _ ?ys]) (simp add: swept_def)
  moreover have "\<forall>x\<in>set cs. \<not> P x \<longrightarrow> c_stale x \<le> now" using P(2) by (auto simp: cs abs_list_def)
  ultimately show ?thesis
    using st' by (intro exI [of _ "c\<lparr>state := st'\<rparr>"] exI [of _ P])
      (auto simp: evict_expired_batch_def same_shape_def swept_def keeps_def)
next
  case False
  then have "min b (length (entries (state c))) \<le> a" by linarith
  then have "evict_expired_batch env now a b c = Some (c\<lparr>state := state c\<rparr>)"
    by (simp add: evict_expired_batch_def)
  then show ?thesis using rep by (intro exI [of _ c] exI [of _ "\<lambda>_. True"]) (simp add: same_shape_def)
qed

lemma foldM_map: "foldM f (map g xs) s = foldM (\<lambda>x. f (g x)) xs s"
  by (induction xs arbitrary: s) (auto intro: Option.bind_cong)

lemma sweep_refines:
  assumes spec: "heap_spec (heap_impl env) R" and rep: "represents env R c cs"
  shows "\<exists>c'. foldM (sweep_batch env now (length (entries (state c)))) (sweep_starts (length (entries (state c)))) c = Some c' \<and>
    represents env R c' (filter (\<lambda>x. now < c_stale x) cs)"
proof -
  obtain xs where inv: "cache_inv env R {} (state c) xs" and cs: "cs = abs_list (state c) xs"
    using rep by (auto simp: represents_def)
  let ?n = "length (entries (state c))" and ?N = "(length (entries (state c)) + SWEEP_BATCH - 1) div SWEEP_BATCH"
  define P where "P = (\<lambda>b (c' :: ('a, 'b, 'c) response_cache). swept env R now (state c) xs 0 (min (b * SWEEP_BATCH) ?n) (state c'))"
  have "survivors now (state c) 0 0 xs = xs" by (simp add: survivors_def)
  then have start: "P 0 c" using inv by (simp add: P_def swept_def keeps_def)
  have "\<exists>c'. foldM (\<lambda>b. sweep_batch env now ?n (b * SWEEP_BATCH)) [0..<?N] c = Some c' \<and> P ?N c'"
  proof (rule foldM_range [where P = P, OF _ _ start])
    fix b c' assume b: "b < ?N" and P: "P b c'"
    let ?k = "b * SWEEP_BATCH" and ?l = "min (b * SWEEP_BATCH + SWEEP_BATCH) ?n"
    have kn: "?k \<le> ?n" using b by linarith
    then have sw: "swept env R now (state c) xs 0 ?k (state c')" using P by (simp add: P_def)
    then have inv': "cache_inv env R {} (state c') (survivors now (state c) 0 ?k xs)"
      and len: "length (entries (state c')) = ?n" by (simp_all add: swept_def keeps_def)
    from evict_batch_refines [OF spec inv', of ?k ?l now] obtain st' where
      st': "evict_expired_batch env now ?k ?l c' = Some (c'\<lparr>state := st'\<rparr>)"
      "swept env R now (state c') (survivors now (state c) 0 ?k xs) ?k ?l st'"
      using kn len by auto
    have "P (Suc b) (c'\<lparr>state := st'\<rparr>)"
      using swept_trans [OF sw st'(2)] kn by (simp add: P_def add.commute)
    then show "\<exists>c''. sweep_batch env now ?n ?k c' = Some c'' \<and> P (Suc b) c''"
      using st'(1) by (simp add: sweep_batch_def)
  qed simp
  then obtain c' where c': "foldM (\<lambda>b. sweep_batch env now ?n (b * SWEEP_BATCH)) [0..<?N] c = Some c'" "P ?N c'" by blast
  have "min (?N * SWEEP_BATCH) ?n = ?n" by linarith
  then have sw: "swept env R now (state c) xs 0 ?n (state c')" using c'(2) by (simp only: P_def)
  have sv: "survivors now (state c) 0 ?n xs = filter (\<lambda>e. now < c_stale (abs_at (state c) e)) xs"
    unfolding survivors_def using cache_inv_mem [OF inv] by (intro filter_cong) auto
  have "abs_list (state c') (survivors now (state c) 0 ?n xs) = filter (\<lambda>x. now < c_stale x) cs"
    using sw unfolding sv cs abs_list_def filter_map comp_def
    by (auto simp: swept_def keeps_def sv)
  then have "represents env R c' (filter (\<lambda>x. now < c_stale x) cs)"
    unfolding represents_def using sw by (auto simp: swept_def)
  then show ?thesis using c'(1) by (simp add: sweep_starts_def foldM_map)
qed

subsection \<open>Sequences of operations\<close>

datatype ('rt, 'cl) cache_op =
    Get instant "('rt, 'cl) cache_key"
  | Insert instant instant instant "('rt, 'cl) cache_key" u32 bytes bytes
  | Release instant "('rt, 'cl) cache_key"
  | Candidates instant
  | Sweep instant nat nat
  | Acquire
  | Give_Back

datatype outcome = Done | Hit bytes bool bool | Requests "bytes list" | Permit bool

definition run_op ::
  "('h, 'rt, 'cl) cache_env \<Rightarrow> ('rt, 'cl) cache_op \<Rightarrow> ('h, 'rt, 'cl) response_cache
    \<Rightarrow> (outcome \<times> ('h, 'rt, 'cl) response_cache) option" where
  "run_op env op c =
     (case op of
        Get now k \<Rightarrow> do {
          (r, c) \<leftarrow> get_with_flags env now k c;
          Some (case r of None \<Rightarrow> Done | Some (w, refresh, stale) \<Rightarrow> Hit w refresh stale, c)
        }
      | Insert t1 t2 t3 k ttl wire request \<Rightarrow>
          map_option (Pair Done) (insert_with_flags env t1 t2 t3 k ttl wire request c)
      | Release now k \<Rightarrow> map_option (Pair Done) (release_refresh_claim env now k c)
      | Candidates now \<Rightarrow> map_option (\<lambda>(rs, c). (Requests rs, c)) (refresh_candidates now c)
      | Sweep now a b \<Rightarrow> map_option (Pair Done) (evict_expired_batch env now a b c)
      | Acquire \<Rightarrow> Some (let (ok, c) = try_refresh_permit c in (Permit ok, c))
      | Give_Back \<Rightarrow> Some (Done, drop_refresh_permit c))"

fun run_ops ::
  "('h, 'rt, 'cl) cache_env \<Rightarrow> ('rt, 'cl) cache_op list \<Rightarrow> ('h, 'rt, 'cl) response_cache
    \<Rightarrow> (outcome list \<times> ('h, 'rt, 'cl) response_cache) option" where
  "run_ops env [] c = Some ([], c)" |
  "run_ops env (op # ops) c = do {
     (out, c) \<leftarrow> run_op env op c;
     (outs, c) \<leftarrow> run_ops env ops c;
     Some (out # outs, c)
   }"

text \<open>
  The insertions for a key that a pool of \<open>n\<close> bytes accepts. Names are never empty, so an insertion
  has at least one byte.
\<close>

definition stores :: "nat \<Rightarrow> ('rt, 'cl) cache_key \<Rightarrow> ('rt, 'cl) cache_op \<Rightarrow> bool" where
  "stores n k op \<longleftrightarrow>
     (case op of
        Insert _ _ _ k' _ wire request \<Rightarrow>
          k' = k \<and> length (fst k) \<le> 255 \<and> length request < 2 ^ 16 \<and>
          length (fst k) + length wire + length request \<le> n
      | _ \<Rightarrow> False)"

definition op_ok :: "('rt, 'cl) cache_op \<Rightarrow> bool" where
  "op_ok op \<longleftrightarrow> (case op of Insert _ _ _ k _ wire request \<Rightarrow> fst k \<noteq> [] | _ \<Rightarrow> True)"

text \<open>
  The content of a cache that accepts answers (\<open>en\<close>) into a pool of \<open>n\<close> bytes, with the number of
  free refresh permits. An insertion puts the answer in front and drops answers from the end, the
  least recently used ones; only when there is no \<open>room\<close> for the answer even in an empty pool all are
  gone. A sweep removes expired answers only.
\<close>

inductive spec_op ::
  "(('rt, 'cl) cache_key \<Rightarrow> u64) \<Rightarrow> (nat \<Rightarrow> bool) \<Rightarrow> bool \<Rightarrow> nat \<Rightarrow> ('rt, 'cl) cache_op \<Rightarrow> nat \<times> ('rt, 'cl) cached list \<Rightarrow> outcome
    \<Rightarrow> nat \<times> ('rt, 'cl) cached list \<Rightarrow> bool" for kh room en n where
  get_miss: "en \<and> length (fst k) \<le> 255 \<Longrightarrow> spec_get now k cs = (None, cs') \<Longrightarrow>
    spec_op kh room en n (Get now k) (p, cs) Done (p, cs')" |
  get_hit: "en \<and> length (fst k) \<le> 255 \<Longrightarrow> spec_get now k cs = (Some (w, r, s), cs') \<Longrightarrow>
    spec_op kh room en n (Get now k) (p, cs) (Hit w r s) (p, cs')" |
  get_off: "\<not> (en \<and> length (fst k) \<le> 255) \<Longrightarrow> spec_op kh room en n (Get now k) (p, cs) Done (p, cs)" |
  insert_new: "en \<and> stores n k (Insert t1 t2 t3 k ttl wire request) \<Longrightarrow>
    spec_op kh room en n (Insert t1 t2 t3 k ttl wire request) (p, cs) Done
      (p, spec_new t1 t2 t3 k ttl wire request cs # take m (without k cs))" |
  insert_full: "en \<and> stores n k (Insert t1 t2 t3 k ttl wire request) \<Longrightarrow>
    \<not> room (length (fst k) + length wire + length request) \<Longrightarrow>
    spec_op kh room en n (Insert t1 t2 t3 k ttl wire request) (p, cs) Done (p, [])" |
  insert_off: "\<not> (en \<and> stores n k (Insert t1 t2 t3 k ttl wire request)) \<Longrightarrow>
    spec_op kh room en n (Insert t1 t2 t3 k ttl wire request) (p, cs) Done (p, cs)" |
  release: "spec_op kh room en n (Release now k) (p, cs) Done (p, spec_release now (kh k) k cs)" |
  candidates: "en \<and> p \<noteq> 0 \<Longrightarrow> spec_scan kh now p REFRESH_SCAN_LIMIT [] cs = (reqs, cs') \<Longrightarrow>
    spec_op kh room en n (Candidates now) (p, cs) (Requests reqs) (p, cs')" |
  candidates_off: "\<not> (en \<and> p \<noteq> 0) \<Longrightarrow> spec_op kh room en n (Candidates now) (p, cs) (Requests []) (p, cs)" |
  sweep: "\<forall>x\<in>set cs. \<not> P x \<longrightarrow> c_stale x \<le> now \<Longrightarrow>
    spec_op kh room en n (Sweep now a b) (p, cs) Done (p, filter P cs)" |
  acquire: "spec_op kh room en n Acquire (p, cs) (Permit (p \<noteq> 0)) (p - 1, cs)" |
  give_back: "spec_op kh room en n Give_Back (p, cs) Done (p + 1, cs)"

inductive_cases spec_opE:
  "spec_op kh room en n (Get now k) x out y" "spec_op kh room en n (Insert t1 t2 t3 k ttl wire request) x out y"
  "spec_op kh room en n (Release now k) x out y" "spec_op kh room en n (Candidates now) x out y"
  "spec_op kh room en n (Sweep now a b) x out y" "spec_op kh room en n Acquire x out y" "spec_op kh room en n Give_Back x out y"

text \<open>A cache as the specification sees it.\<close>

definition cache_view ::
  "('h, 'rt, 'cl) cache_env \<Rightarrow> ('h \<Rightarrow> nat \<Rightarrow> (nat \<times> nat) set \<Rightarrow> bool) \<Rightarrow> bool \<Rightarrow> nat
    \<Rightarrow> ('h, 'rt, 'cl) response_cache \<Rightarrow> nat \<times> ('rt, 'cl) cached list \<Rightarrow> bool" where
  "cache_view env R en n c v \<longleftrightarrow>
     represents env R c (snd v) \<and> refresh_slots c = fst v \<and> enabled c = en \<and> length (pool (state c)) = n"

lemma view_shape: "cache_view env R en n c (p, cs) \<Longrightarrow> same_shape c c' \<Longrightarrow> represents env R c' cs' \<Longrightarrow>
    cache_view env R en n c' (p, cs')"
  by (simp add: cache_view_def same_shape_def)

lemma simulate_get:
  assumes spec: "heap_spec (heap_impl env) R" and v: "cache_view env R en n c (p, cs)"
  shows "\<exists>out c' v'. run_op env (Get now k) c = Some (out, c') \<and> cache_view env R en n c' v' \<and>
    spec_op (key_hash env) (always_fits (heap_impl env) R n) en n (Get now k) (p, cs) out v'"
proof (cases "enabled c \<and> length (fst k) \<le> 255")
  case True
  have rep: "represents env R c cs" "enabled c = en" using v by (simp_all add: cache_view_def)
  from get_refines [OF spec rep(1), of k now] True obtain c' where
    c': "get_with_flags env now k c = Some (fst (spec_get now k cs), c')"
    "represents env R c' (snd (spec_get now k cs))" "same_shape c c'" by blast
  note v' = view_shape [OF v c'(3,2)]
  show ?thesis
  proof (cases "fst (spec_get now k cs)")
    case None
    then have "spec_get now k cs = (None, snd (spec_get now k cs))" by (metis prod.collapse)
    then show ?thesis using None c'(1) v' True rep(2) by (auto simp: run_op_def intro: spec_op.get_miss)
  next
    case (Some a)
    then obtain w r s where wrs: "fst (spec_get now k cs) = Some (w, r, s)" by (cases a) auto
    then have "spec_get now k cs = (Some (w, r, s), snd (spec_get now k cs))" by (metis prod.collapse)
    then show ?thesis using wrs c'(1) v' True rep(2) by (auto simp: run_op_def intro: spec_op.get_hit)
  qed
next
  case False
  then have "run_op env (Get now k) c = Some (Done, c)" by (auto simp: run_op_def get_with_flags_def)
  moreover have "spec_op (key_hash env) (always_fits (heap_impl env) R n) en n (Get now k) (p, cs) Done (p, cs)"
    using False v by (intro spec_op.get_off) (simp add: cache_view_def)
  ultimately show ?thesis using v by blast
qed

lemma simulate_insert:
  fixes t1 t2 t3 :: instant and ttl :: u32 and wire request :: bytes
  assumes spec: "heap_spec (heap_impl env) R" and v: "cache_view env R en n c (p, cs)" and k: "fst k \<noteq> []"
  defines "op \<equiv> Insert t1 t2 t3 k ttl wire request"
  shows "\<exists>out c' v'. run_op env op c = Some (out, c') \<and> cache_view env R en n c' v' \<and>
    spec_op (key_hash env) (always_fits (heap_impl env) R n) en n op (p, cs) out v'"
proof (cases "cacheable c k wire request")
  case True
  have rep: "represents env R c cs" using v by (simp add: cache_view_def)
  have "0 < length (fst k) + length wire + length request" using k by simp
  from insert_refines [OF spec rep True this, of t1 t2 t3 ttl] obtain c' cs' where
    c': "insert_with_flags env t1 t2 t3 k ttl wire request c = Some c'" "represents env R c' cs'" "same_shape c c'"
    "cs' = [] \<and> \<not> always_fits (heap_impl env) R (length (pool (state c))) (length (fst k) + length wire + length request) \<or>
     (\<exists>m. cs' = spec_new t1 t2 t3 k ttl wire request cs # take m (without k cs))" by blast
  have st: "en \<and> stores n k op" using True v by (simp add: stores_def op_def cacheable_def cache_view_def)
  have "spec_op (key_hash env) (always_fits (heap_impl env) R n) en n op (p, cs) Done (p, cs')"
    using c'(4) spec_op.insert_full [OF st [unfolded op_def], where kh = "key_hash env" and room = "always_fits (heap_impl env) R n" and p = p and cs = cs]
      spec_op.insert_new [OF st [unfolded op_def], where kh = "key_hash env" and room = "always_fits (heap_impl env) R n" and p = p and cs = cs]
    v unfolding op_def cache_view_def by (elim disjE exE) simp_all
  then show ?thesis using c'(1) view_shape [OF v c'(3,2)] by (auto simp: run_op_def op_def)
next
  case False
  then have "\<not> (en \<and> stores n k op)" using v by (auto simp: stores_def op_def cacheable_def cache_view_def)
  then have "spec_op (key_hash env) (always_fits (heap_impl env) R n) en n op (p, cs) Done (p, cs)" unfolding op_def by (rule spec_op.insert_off)
  then show ?thesis using v insert_rejects [OF False] by (auto simp: run_op_def op_def)
qed

lemma simulateI:
  "run_op env op c = Some (out, c') \<Longrightarrow> cache_view env R en n c' v' \<Longrightarrow> spec_op (key_hash env) (always_fits (heap_impl env) R n) en n op v out v' \<Longrightarrow>
    \<exists>out c' v'. run_op env op c = Some (out, c') \<and> cache_view env R en n c' v' \<and>
      spec_op (key_hash env) (always_fits (heap_impl env) R n) en n op v out v'"
  by blast

lemma run_op_simulates:
  assumes spec: "heap_spec (heap_impl env) R" and v: "cache_view env R en n c v" and ok: "op_ok op"
  shows "\<exists>out c' v'. run_op env op c = Some (out, c') \<and> cache_view env R en n c' v' \<and>
    spec_op (key_hash env) (always_fits (heap_impl env) R n) en n op v out v'"
proof -
  obtain p cs where pcs: "v = (p, cs)" by (cases v)
  have rep: "represents env R c cs" and p: "refresh_slots c = p" "enabled c = en"
    using v by (simp_all add: cache_view_def pcs)
  show ?thesis
  proof (cases op)
    case (Get now k)
    then show ?thesis using simulate_get [OF spec v [unfolded pcs]] pcs by simp
  next
    case (Insert t1 t2 t3 k ttl wire request)
    then show ?thesis using simulate_insert [OF spec v [unfolded pcs]] pcs ok by (simp add: op_ok_def)
  next
    case (Release now k)
    from release_refines [OF rep, of now k] obtain c' where
      c': "release_refresh_claim env now k c = Some c'"
      "represents env R c' (spec_release now (key_hash env k) k cs)" "same_shape c c'" by blast
    from c'(1) have "run_op env op c = Some (Done, c')" by (simp add: run_op_def Release)
    from this view_shape [OF v [unfolded pcs] c'(3,2)] show ?thesis
      unfolding Release pcs by (rule simulateI) (rule spec_op.release)
  next
    case (Candidates now)
    from refresh_candidates_refines [OF rep, of now] obtain c' where
      c': "refresh_candidates now c = Some (if enabled c \<and> refresh_slots c \<noteq> 0
          then fst (spec_scan (key_hash env) now (refresh_slots c) REFRESH_SCAN_LIMIT [] cs) else [], c')"
      "represents env R c' (if enabled c \<and> refresh_slots c \<noteq> 0
          then snd (spec_scan (key_hash env) now (refresh_slots c) REFRESH_SCAN_LIMIT [] cs) else cs)"
      "same_shape c c'" by blast
    note v' = view_shape [OF v [unfolded pcs] c'(3,2)]
    from c'(1) have "run_op env op c = Some (Requests (if enabled c \<and> refresh_slots c \<noteq> 0
        then fst (spec_scan (key_hash env) now (refresh_slots c) REFRESH_SCAN_LIMIT [] cs) else []), c')"
      by (simp add: run_op_def Candidates)
    from this v' show ?thesis unfolding Candidates pcs p
      by (rule simulateI) (auto intro: spec_op.candidates spec_op.candidates_off simp: prod_eq_iff)
  next
    case (Sweep now a b)
    from evict_batch_any [OF spec rep, of now a b] obtain c' P where
      c': "evict_expired_batch env now a b c = Some c'" "represents env R c' (filter P cs)"
      "\<forall>x\<in>set cs. \<not> P x \<longrightarrow> c_stale x \<le> now" "same_shape c c'" by blast
    from c'(1) have "run_op env op c = Some (Done, c')" by (simp add: run_op_def Sweep)
    from this view_shape [OF v [unfolded pcs] c'(4,2)] show ?thesis
      unfolding Sweep pcs by (rule simulateI) (rule spec_op.sweep [OF c'(3)])
  next
    case Acquire
    have "cache_view env R en n (snd (try_refresh_permit c)) (p - 1, cs)" "fst (try_refresh_permit c) = (p \<noteq> 0)"
      using v by (auto simp: pcs try_refresh_permit_def cache_view_def represents_def)
    then show ?thesis
      using Acquire pcs spec_op.acquire [of "key_hash env" "always_fits (heap_impl env) R n" en n p cs]
      by (auto simp: run_op_def Let_def case_prod_beta)
  next
    case Give_Back
    have "cache_view env R en n (drop_refresh_permit c) (p + 1, cs)"
      using v by (auto simp: pcs drop_refresh_permit_def cache_view_def represents_def)
    then show ?thesis
      using Give_Back pcs spec_op.give_back [of "key_hash env" "always_fits (heap_impl env) R n" en n p cs] by (auto simp: run_op_def)
  qed
qed

end
