(* ===== verification/Cache_Runs.thy ===== *)
theory Cache_Runs
  imports Cache_Trace
begin

text \<open>
  Consequences of the simulation for whole runs of the cache: what a lookup returns comes from the
  last insertion for its key, and a claim handed out by a lookup is handed out once. The locale
  \<open>answer_cache\<close> states what the query handler relies on of a cache; the model of the cache is an
  instance of it.
\<close>

subsection \<open>Runs of the specification\<close>

inductive spec_run ::
  "(('rt, 'cl) cache_key \<Rightarrow> u64) \<Rightarrow> (nat \<Rightarrow> bool) \<Rightarrow> bool \<Rightarrow> nat \<Rightarrow> ('rt, 'cl) cache_op list \<Rightarrow> nat \<times> ('rt, 'cl) cached list
    \<Rightarrow> outcome list \<Rightarrow> nat \<times> ('rt, 'cl) cached list \<Rightarrow> bool" for kh room en n where
  Nil: "spec_run kh room en n [] v [] v" |
  Cons: "spec_op kh room en n op v out v' \<Longrightarrow> spec_run kh room en n ops v' outs v'' \<Longrightarrow>
    spec_run kh room en n (op # ops) v (out # outs) v''"

inductive_cases spec_run_ConsE: "spec_run kh room en n (op # ops) v outs v''"

lemma run_ops_simulates:
  assumes spec: "heap_spec (heap_impl env) R"
  shows "cache_view env R en n c v \<Longrightarrow> \<forall>op\<in>set ops. op_ok op \<Longrightarrow>
    \<exists>outs c' v'. run_ops env ops c = Some (outs, c') \<and> cache_view env R en n c' v' \<and>
      spec_run (key_hash env) (always_fits (heap_impl env) R n) en n ops v outs v'"
proof (induction ops arbitrary: c v)
  case (Cons op ops)
  from run_op_simulates [OF spec Cons.prems(1), of op] Cons.prems(2) obtain out c1 v1 where
    1: "run_op env op c = Some (out, c1)" "cache_view env R en n c1 v1" "spec_op (key_hash env) (always_fits (heap_impl env) R n) en n op v out v1"
    by auto
  from Cons.IH [OF 1(2)] Cons.prems(2) obtain outs c' v' where
    2: "run_ops env ops c1 = Some (outs, c')" "cache_view env R en n c' v'"
      "spec_run (key_hash env) (always_fits (heap_impl env) R n) en n ops v1 outs v'" by auto
  from 1(3) 2(3) have "spec_run (key_hash env) (always_fits (heap_impl env) R n) en n (op # ops) v (out # outs) v'" by (rule spec_run.Cons)
  then show ?case using 1(1) 2(1,2) by (intro exI [of _ "out # outs"] exI [of _ c'] exI [of _ v']) simp
qed (auto intro: spec_run.Nil)

lemma spec_run_length: "spec_run kh room en n ops v outs v' \<Longrightarrow> length outs = length ops"
  by (induction rule: spec_run.induct) auto

text \<open>An invariant of the steps holds before each step of a run.\<close>

lemma spec_run_step:
  assumes "spec_run kh room en n ops v outs v'" "I [] v" "i < length ops"
    and step: "\<And>past op v out v'. op \<in> set ops \<Longrightarrow> I past v \<Longrightarrow> spec_op kh room en n op v out v' \<Longrightarrow> I (past @ [op]) v'"
  shows "\<exists>x y. I (take i ops) x \<and> spec_op kh room en n (ops ! i) x (outs ! i) y"
proof -
  have "\<exists>x y. I (past @ take i ops) x \<and> spec_op kh room en n (ops ! i) x (outs ! i) y"
    if "spec_run kh room en n ops v outs v'" "I past v" "i < length ops"
      "\<And>past op v out v'. op \<in> set ops \<Longrightarrow> I past v \<Longrightarrow> spec_op kh room en n op v out v' \<Longrightarrow> I (past @ [op]) v'"
    for past i
    using that
  proof (induction arbitrary: past i rule: spec_run.induct)
    case (Cons op v out v' ops outs v'')
    show ?case
    proof (cases i)
      case 0
      then show ?thesis using Cons.hyps(1) Cons.prems(1) by (intro exI [of _ v] exI [of _ v']) simp
    next
      case (Suc j)
      have "I (past @ [op]) v'" using Cons.prems(3) [of op past v out v'] Cons.hyps(1) Cons.prems(1) by simp
      from Cons.IH [OF this, of j] Cons.prems(2,3) show ?thesis by (simp add: Suc)
    qed
  qed simp
  from this [of "[]" i] assms show ?thesis by simp
qed

subsection \<open>Where an answer comes from\<close>

definition last_insert :: "nat \<Rightarrow> ('rt, 'cl) cache_key \<Rightarrow> ('rt, 'cl) cache_op list \<Rightarrow> ('rt, 'cl) cache_op option" where
  "last_insert n k ops = List.find (stores n k) (rev ops)"

definition stems_from :: "nat \<Rightarrow> ('rt, 'cl) cache_op list \<Rightarrow> ('rt, 'cl) cached \<Rightarrow> bool" where
  "stems_from n ops x \<longleftrightarrow> (\<exists>t1 t2 t3 ttl.
     last_insert n (c_key x) ops = Some (Insert t1 t2 t3 (c_key x) ttl (c_wire x) (c_request x)) \<and>
     c_expires x = t1 + secs (unat ttl) \<and> c_stale x = t1 + secs (unat ttl) + SERVE_STALE_WINDOW \<and>
     c_ttl x = secs (unat ttl))"

definition origin :: "('rt, 'cl) cached \<Rightarrow> ('rt, 'cl) cache_key \<times> bytes \<times> bytes \<times> instant \<times> instant \<times> nat" where
  "origin x = (c_key x, c_wire x, c_request x, c_expires x, c_stale x, c_ttl x)"

lemma last_insert_snoc:
  "last_insert n k (ops @ [op]) = (if stores n k op then Some op else last_insert n k ops)"
  by (simp add: last_insert_def)

lemma stems_from_step:
  assumes "\<forall>x\<in>set cs. stems_from n ops x" "origin ` set cs' \<subseteq> origin ` set cs"
    and "\<And>x. x \<in> set cs' \<Longrightarrow> \<not> stores n (c_key x) op"
  shows "\<forall>x\<in>set cs'. stems_from n (ops @ [op]) x"
proof
  fix x assume x: "x \<in> set cs'"
  then obtain y where "y \<in> set cs" "origin x = origin y" using assms(2) by force
  then have "stems_from n ops x" using assms(1) by (auto simp: origin_def stems_from_def)
  then show "stems_from n (ops @ [op]) x"
    using assms(3) [OF x] by (simp add: stems_from_def last_insert_snoc)
qed

lemma find_key_mem: "find_key k cs = Some x \<Longrightarrow> x \<in> set cs \<and> c_key x = k"
  by (auto simp: find_key_def find_Some_iff)

lemma origin_scan: "origin ` set (snd (spec_scan kh now b n reqs cs)) = origin ` set cs"
proof (induction kh now b n reqs cs rule: spec_scan.induct)
  case (3 kh now budget n reqs c cs)
  then show ?case by (auto simp: case_prod_beta Let_def origin_def)
qed auto

lemma origin_get: "origin ` set (snd (spec_get now k cs)) \<subseteq> origin ` set cs"
proof (cases "find_key k cs")
  case (Some x)
  then have "origin (x\<lparr>c_used := now, c_reused := True, c_claimed := (c_claimed x \<or> due now x)\<rparr>) \<in> origin ` set cs"
    using find_key_mem [OF Some] by (auto simp: origin_def image_iff intro: bexI [of _ x])
  then show ?thesis using Some by (auto simp: spec_get_def without_def)
qed (simp add: spec_get_def)

lemma origin_release: "origin ` set (spec_release now h k cs) = origin ` set cs"
proof -
  have "origin (if c_key c = k \<and> c_claimed c then released now h c else c) = origin c" for c
    by (simp add: released_def Let_def origin_def)
  then show ?thesis unfolding spec_release_def set_map image_image by (simp only:)
qed

lemma origin_op:
  assumes "spec_op kh room en n op (p, cs) out (p', cs')" "\<And>k. \<not> stores n k op"
  shows "origin ` set cs' \<subseteq> origin ` set cs"
  using assms
proof (cases rule: spec_op.cases)
  case (get_miss k now)
  then show ?thesis using origin_get [of now k cs] by simp
next
  case (get_hit k now w r s)
  then show ?thesis using origin_get [of now k cs] by simp
next
  case (candidates now reqs)
  then show ?thesis using origin_scan [of kh now p REFRESH_SCAN_LIMIT "[]" cs] by simp
qed (auto simp: origin_release)

lemma stores_insert:
  assumes "stores n k op"
  obtains t1 t2 t3 ttl wire request where "op = Insert t1 t2 t3 k ttl wire request"
  using assms by (cases op) (simp_all add: stores_def)

lemma stems_from_op:
  assumes op: "spec_op kh room True n op v out v'" and v: "\<forall>x\<in>set (snd v). stems_from n past x"
  shows "\<forall>x\<in>set (snd v'). stems_from n (past @ [op]) x"
proof -
  obtain p cs p' cs' where pcs: "v = (p, cs)" "v' = (p', cs')" by (cases v, cases v')
  show ?thesis
  proof (cases "\<exists>k. stores n k op")
    case True
    then obtain k where st: "stores n k op" by (rule exE)
    from stores_insert [OF this] obtain t1 t2 t3 ttl wire request where
      i: "op = Insert t1 t2 t3 k ttl wire request" .
    have other: "stems_from n (past @ [op]) x" if "x \<in> set (without k cs)" for x
      using that v by (auto simp: stems_from_def last_insert_snoc without_def pcs i stores_def)
    have new: "stems_from n (past @ [op]) (spec_new t1 t2 t3 k ttl wire request cs)"
      using st by (auto simp: stems_from_def last_insert_snoc spec_new_def i)
    have "cs' = [] \<or> (\<exists>m. cs' = spec_new t1 t2 t3 k ttl wire request cs # take m (without k cs))"
      using op st unfolding i pcs by (auto elim: spec_opE)
    then show ?thesis using other [OF in_set_takeD] new by (auto simp: pcs)
  next
    case False
    then have no: "\<not> stores n k op" for k by blast
    show ?thesis
      using stems_from_step [of cs n past cs' op] v origin_op [OF op [unfolded pcs] no] no by (simp add: pcs)
  qed
qed

text \<open>What a lookup returns for an answer inserted at \<open>t\<close> with lifetime \<open>ttl\<close>.\<close>

definition answer_at :: "instant \<Rightarrow> instant \<Rightarrow> u32 \<Rightarrow> bytes \<Rightarrow> bytes" where
  "answer_at now t ttl wire =
     snd (age_ttls wire (of_nat (min ((now - t) div 10 ^ 9) (unat ttl))) (t + secs (unat ttl) \<le> now))"

lemma served_answer_at:
  assumes "c_wire x = wire" "c_expires x = t + secs (unat ttl)" "c_ttl x = secs (unat ttl)"
  shows "served now x = answer_at now t ttl wire"
proof -
  have "unat ttl \<le> 2 ^ 32 - 1" using unsigned_less [of ttl, where 'a = nat] by simp
  moreover have "secs (unat ttl) - (t + secs (unat ttl) - now) = min (now - t) (secs (unat ttl))" by simp
  moreover have "min (now - t) (secs (unat ttl)) div 10 ^ 9 = min ((now - t) div 10 ^ 9) (unat ttl)"
  proof (cases "now - t \<le> secs (unat ttl)")
    case True
    then have "(now - t) div 10 ^ 9 \<le> unat ttl" by simp
    then show ?thesis using True by simp
  next
    case False
    then have "unat ttl \<le> (now - t) div 10 ^ 9" by simp
    then show ?thesis using False by simp
  qed
  ultimately show ?thesis unfolding served_def answer_at_def assms by (simp add: min.assoc)
qed

lemma spec_hit:
  assumes "spec_get now k cs = (Some (w, r, s), cs')"
  obtains x where "x \<in> set cs" "find_key k cs = Some x" "c_key x = k" "now < c_stale x" "w = served now x"
    "r = due now x" "s = (c_expires x \<le> now)"
    "cs' = x\<lparr>c_used := now, c_reused := True, c_claimed := (c_claimed x \<or> due now x)\<rparr> # without k cs"
  using assms find_key_mem [of k cs] by (auto simp: spec_get_def split: option.splits if_splits)

subsection \<open>Refresh claims\<close>

text \<open>Once an answer is claimed for a refresh it stays claimed until the claim is released or a new
  answer is stored.\<close>

definition all_claimed :: "('rt, 'cl) cache_key \<Rightarrow> ('rt, 'cl) cached list \<Rightarrow> bool" where
  "all_claimed k cs \<longleftrightarrow> (\<forall>x\<in>set cs. c_key x = k \<longrightarrow> c_claimed x)"

definition keeps_claim :: "('rt, 'cl) cache_key \<Rightarrow> ('rt, 'cl) cache_op \<Rightarrow> bool" where
  "keeps_claim k op \<longleftrightarrow>
     (case op of Insert _ _ _ k' _ _ _ \<Rightarrow> k' \<noteq> k | Release _ k' \<Rightarrow> k' \<noteq> k | _ \<Rightarrow> True)"

lemma all_claimed_scan: "all_claimed k cs \<Longrightarrow> all_claimed k (snd (spec_scan kh now b n reqs cs))"
proof (induction kh now b n reqs cs rule: spec_scan.induct)
  case (3 kh now budget n reqs c cs)
  then show ?case by (auto simp: case_prod_beta Let_def all_claimed_def)
qed auto

lemma all_claimed_get:
  assumes "all_claimed k cs" shows "all_claimed k (snd (spec_get now k' cs))"
  using assms find_key_mem [of k' cs]
  by (auto simp: spec_get_def all_claimed_def without_def split: option.splits)

lemma all_claimed_op:
  assumes "spec_op kh room en n op (p, cs) out (p', cs')" "keeps_claim k op" "all_claimed k cs"
  shows "all_claimed k cs'"
  using assms
proof (cases rule: spec_op.cases)
  case (get_miss k' now)
  then show ?thesis using all_claimed_get [OF assms(3), of now k'] by simp
next
  case (get_hit k' now w r s)
  then show ?thesis using all_claimed_get [OF assms(3), of now k'] by simp
next
  case (candidates now reqs)
  then show ?thesis using all_claimed_scan [OF assms(3), of kh now p REFRESH_SCAN_LIMIT "[]"] by simp
next
  case (insert_new k' t1 t2 t3 ttl wire request m)
  then show ?thesis using assms(2,3)
    by (auto simp: all_claimed_def keeps_claim_def spec_new_def without_def dest: in_set_takeD)
next
  case (release now k')
  then show ?thesis using assms(2,3) by (auto simp: all_claimed_def keeps_claim_def spec_release_def released_def Let_def)
qed (auto simp: all_claimed_def)

lemma claimed_hit:
  assumes "spec_get now k cs = (Some (w, r, s), cs')"
  shows "all_claimed k cs \<Longrightarrow> \<not> r" "r \<Longrightarrow> all_claimed k cs'"
  using assms by (auto elim!: spec_hit simp: all_claimed_def due_def without_def)

subsection \<open>What the query handler relies on\<close>

lemma find_key_without: "k' \<noteq> k \<Longrightarrow> find_key k' (without k cs) = find_key k' cs"
  by (induction cs) (auto simp: find_key_def without_def)

lemma find_key_take: "find_key k (take m cs) = None \<or> find_key k (take m cs) = find_key k cs"
proof (induction cs arbitrary: m)
  case (Cons x cs)
  then show ?case by (cases m) (auto simp: find_key_def)
qed (simp add: find_key_def)

text \<open>
  A cache of answers: \<open>rep s cs\<close> says that \<open>cs\<close> is the content of the cache \<open>s\<close>, \<open>admits\<close> which keys it can
  hold, \<open>fits\<close> which answers and \<open>sure\<close> which of them are never refused. A lookup follows \<open>spec_get\<close>;
  storing an answer that fits puts it in front of what it keeps of the other answers; only an answer
  that is not sure to fit may leave nothing.
\<close>

locale answer_cache =
  fixes rep :: "'s \<Rightarrow> ('rt, 'cl) cached list \<Rightarrow> bool"
    and look :: "instant \<Rightarrow> ('rt, 'cl) cache_key \<Rightarrow> 's \<Rightarrow> ((bytes \<times> bool \<times> bool) option \<times> 's) option"
    and store :: "instant \<Rightarrow> ('rt, 'cl) cache_key \<Rightarrow> u32 \<Rightarrow> bytes \<Rightarrow> bytes \<Rightarrow> 's \<Rightarrow> 's option"
    and admits :: "('rt, 'cl) cache_key \<Rightarrow> 's \<Rightarrow> bool"
    and fits :: "('rt, 'cl) cache_key \<Rightarrow> bytes \<Rightarrow> bytes \<Rightarrow> 's \<Rightarrow> bool"
    and sure :: "('rt, 'cl) cache_key \<Rightarrow> bytes \<Rightarrow> bytes \<Rightarrow> 's \<Rightarrow> bool"
  assumes look_law: "rep s cs \<Longrightarrow> admits k s \<Longrightarrow>
      \<exists>s'. look now k s = Some (fst (spec_get now k cs), s') \<and> rep s' (snd (spec_get now k cs))"
    and store_law: "rep s cs \<Longrightarrow> fits k wire request s \<Longrightarrow>
      \<exists>s' cs'. store t k ttl wire request s = Some s' \<and> rep s' cs' \<and> (\<forall>k'. admits k' s' = admits k' s) \<and>
        (cs' = [] \<and> \<not> sure k wire request s \<or> (\<exists>m. cs' = spec_new t t t k ttl wire request cs # take m (without k cs)))"
    and fits_admits: "fits k wire request s \<Longrightarrow> admits k s"
begin

lemma look_after_store:
  assumes rep: "rep s cs" and fits: "fits k wire request s" and now: "now < t + secs (unat ttl) + SERVE_STALE_WINDOW"
  shows "\<exists>s1 r s2. store t k ttl wire request s = Some s1 \<and> look now k s1 = Some (r, s2) \<and>
    (r = None \<and> \<not> sure k wire request s \<or> (\<exists>refresh. r = Some (answer_at now t ttl wire, refresh, t + secs (unat ttl) \<le> now)))"
proof -
  let ?x = "spec_new t t t k ttl wire request cs"
  from store_law [OF rep fits] obtain s1 cs1 where
    s1: "store t k ttl wire request s = Some s1" "rep s1 cs1" "admits k s1"
      "cs1 = [] \<and> \<not> sure k wire request s \<or> (\<exists>m. cs1 = ?x # take m (without k cs))"
    using fits_admits [OF fits] by metis
  from look_law [OF s1(2,3)] obtain s2 where s2: "look now k s1 = Some (fst (spec_get now k cs1), s2)" by blast
  have x: "c_key ?x = k" "c_wire ?x = wire" "c_expires ?x = t + secs (unat ttl)" "c_ttl ?x = secs (unat ttl)"
    "c_stale ?x = t + secs (unat ttl) + SERVE_STALE_WINDOW" by (simp_all add: spec_new_def)
  have "fst (spec_get now k cs1) = None \<and> \<not> sure k wire request s \<or>
      (\<exists>refresh. fst (spec_get now k cs1) = Some (answer_at now t ttl wire, refresh, t + secs (unat ttl) \<le> now))"
    using s1(4) now x served_answer_at [OF x(2,3,4), of now]
    by (auto simp: spec_get_def find_key_def)
  then show ?thesis using s1(1) s2 by blast
qed

lemma look_other_after_store:
  assumes rep: "rep s cs" and fits: "fits k wire request s" and k': "k' \<noteq> k" "admits k' s"
  shows "\<exists>s1 r s2 r0 s0. store t k ttl wire request s = Some s1 \<and> look now k' s1 = Some (r, s2) \<and>
    look now k' s = Some (r0, s0) \<and> (r = None \<or> r = r0)"
proof -
  let ?x = "spec_new t t t k ttl wire request cs"
  from store_law [OF rep fits] obtain s1 cs1 where
    s1: "store t k ttl wire request s = Some s1" "rep s1 cs1" "admits k' s1"
      "cs1 = [] \<and> \<not> sure k wire request s \<or> (\<exists>m. cs1 = ?x # take m (without k cs))"
    using k'(2) by metis
  from look_law [OF s1(2,3)] obtain s2 where s2: "look now k' s1 = Some (fst (spec_get now k' cs1), s2)" by blast
  from look_law [OF rep k'(2)] obtain s0 where s0: "look now k' s = Some (fst (spec_get now k' cs), s0)" by blast
  have "find_key k' (take m (without k cs)) = None \<or> find_key k' (take m (without k cs)) = find_key k' cs" for m
    using find_key_without [OF k'(1)] by (metis find_key_take)
  moreover have "find_key k' (?x # ys) = find_key k' ys" for ys
    using k'(1) by (simp add: spec_new_def find_key_def)
  ultimately have "find_key k' cs1 = None \<or> find_key k' cs1 = find_key k' cs"
    using s1(4) by (elim disjE exE) (simp_all add: find_key_def)
  then have "fst (spec_get now k' cs1) = None \<or> fst (spec_get now k' cs1) = fst (spec_get now k' cs)"
    by (auto simp: spec_get_def split: option.splits)
  then show ?thesis using s1(1) s2 s0 by blast
qed

end

text \<open>The model of the cache is such a cache, for every allocator that keeps its blocks apart.\<close>

type_synonym ('h, 'rt, 'cl) cache_world =
  "('h, 'rt, 'cl) cache_env \<times> ('h \<Rightarrow> nat \<Rightarrow> (nat \<times> nat) set \<Rightarrow> bool) \<times> ('h, 'rt, 'cl) response_cache"

fun world_rep :: "('h, 'rt, 'cl) cache_world \<Rightarrow> ('rt, 'cl) cached list \<Rightarrow> bool" where
  "world_rep (env, R, c) cs \<longleftrightarrow> heap_spec (heap_impl env) R \<and> represents env R c cs"

fun world_look ::
  "instant \<Rightarrow> ('rt, 'cl) cache_key \<Rightarrow> ('h, 'rt, 'cl) cache_world
    \<Rightarrow> ((bytes \<times> bool \<times> bool) option \<times> ('h, 'rt, 'cl) cache_world) option" where
  "world_look now k (env, R, c) = map_option (\<lambda>(r, c'). (r, env, R, c')) (get_with_flags env now k c)"

fun world_store ::
  "instant \<Rightarrow> ('rt, 'cl) cache_key \<Rightarrow> u32 \<Rightarrow> bytes \<Rightarrow> bytes \<Rightarrow> ('h, 'rt, 'cl) cache_world
    \<Rightarrow> ('h, 'rt, 'cl) cache_world option" where
  "world_store t k ttl wire request (env, R, c) =
     map_option (\<lambda>c'. (env, R, c')) (insert_with_flags env t t t k ttl wire request c)"

fun world_admits :: "('rt, 'cl) cache_key \<Rightarrow> ('h, 'rt, 'cl) cache_world \<Rightarrow> bool" where
  "world_admits k (env, R, c) \<longleftrightarrow> enabled c \<and> length (fst k) \<le> 255"

fun world_fits :: "('rt, 'cl) cache_key \<Rightarrow> bytes \<Rightarrow> bytes \<Rightarrow> ('h, 'rt, 'cl) cache_world \<Rightarrow> bool" where
  "world_fits k wire request (env, R, c) \<longleftrightarrow> cacheable c k wire request \<and> fst k \<noteq> []"

fun world_sure :: "('rt, 'cl) cache_key \<Rightarrow> bytes \<Rightarrow> bytes \<Rightarrow> ('h, 'rt, 'cl) cache_world \<Rightarrow> bool" where
  "world_sure k wire request (env, R, c) \<longleftrightarrow>
     always_fits (heap_impl env) R (length (pool (state c))) (length (fst k) + length wire + length request)"

interpretation wc: answer_cache world_rep world_look world_store world_admits world_fits world_sure
proof
  fix s :: "('h, 'rt, 'cl) cache_world" and cs k now
  assume "world_rep s cs" "world_admits k s"
  then show "\<exists>s'. world_look now k s = Some (fst (spec_get now k cs), s') \<and> world_rep s' (snd (spec_get now k cs))"
    using get_refines [of "fst s" "fst (snd s)" "snd (snd s)" cs k now] by (cases s) fastforce
next
  fix s :: "('h, 'rt, 'cl) cache_world" and cs k wire request t ttl
  assume rep: "world_rep s cs" and fits: "world_fits k wire request s"
  obtain env R c where s: "s = (env, R, c)" by (cases s)
  have "0 < length (fst k) + length wire + length request" using fits by (simp add: s)
  from insert_refines [OF _ _ _ this, of env R c cs t t t ttl] rep fits obtain c' cs' where
    "insert_with_flags env t t t k ttl wire request c = Some c'" "represents env R c' cs'" "same_shape c c'"
    "cs' = [] \<and> \<not> world_sure k wire request s \<or> (\<exists>m. cs' = spec_new t t t k ttl wire request cs # take m (without k cs))"
    by (auto simp: s)
  then show "\<exists>s' cs'. world_store t k ttl wire request s = Some s' \<and> world_rep s' cs' \<and>
      (\<forall>k'. world_admits k' s' = world_admits k' s) \<and>
      (cs' = [] \<and> \<not> world_sure k wire request s \<or> (\<exists>m. cs' = spec_new t t t k ttl wire request cs # take m (without k cs)))"
    using rep by (intro exI [of _ "(env, R, c')"] exI [of _ cs']) (simp add: s same_shape_def)
next
  fix k wire request and s :: "('h, 'rt, 'cl) cache_world"
  assume "world_fits k wire request s"
  then show "world_admits k s" by (cases s) (simp add: cacheable_def)
qed

end
