(* ===== verification/Cache_Correct.thy ===== *)
theory Cache_Correct
  imports Cache_Runs Wire_Correct
begin

text \<open>
  The properties of the response cache, stated over its model and an arbitrary allocator that keeps
  its blocks apart. The witnesses run the model on the allocator \<open>first_fit\<close>, which keeps the list of
  its blocks and takes the first gap after a block that is large enough.
\<close>

subsection \<open>A concrete allocator\<close>

definition first_fit_alloc :: "(nat \<times> nat) list \<Rightarrow> bytes \<Rightarrow> nat \<Rightarrow> nat option \<times> (nat \<times> nat) list \<times> bytes" where
  "first_fit_alloc h p n =
     (case List.find (\<lambda>a. a + n \<le> length p \<and> (\<forall>b\<in>set h. apart (a, n) b)) (0 # map (\<lambda>(a, m). a + m) h) of
        None \<Rightarrow> (None, h, p)
      | Some a \<Rightarrow> (Some a, (a, n) # h, p))"

definition first_fit :: "(nat \<times> nat) list heap_ops" where
  "first_fit = \<lparr>heap_new = (\<lambda>p. ([], p)), heap_empty = [], allocate_first_fit = first_fit_alloc,
     deallocate = (\<lambda>h p a n. (removeAll (a, n) h, p))\<rparr>"

definition first_fit_holds :: "(nat \<times> nat) list \<Rightarrow> nat \<Rightarrow> (nat \<times> nat) set \<Rightarrow> bool" where
  "first_fit_holds h len B \<longleftrightarrow> B = set h"

lemma find_sat: "List.find P xs = Some a \<Longrightarrow> P a"
  by (auto simp: find_Some_iff)

lemma first_fit_alloc_cases:
  assumes "first_fit_alloc h p n = (r, h', p')"
  shows "p' = p \<and> (case r of None \<Rightarrow> h' = h
    | Some a \<Rightarrow> h' = (a, n) # h \<and> a + n \<le> length p \<and> (\<forall>b\<in>set h. apart (a, n) b))"
  using assms unfolding first_fit_alloc_def by (cases r) (auto simp del: find.simps split: option.splits dest: find_sat)

lemma first_fit_spec: "heap_spec first_fit first_fit_holds"
  unfolding heap_spec_def first_fit_def first_fit_holds_def
  by (auto dest!: first_fit_alloc_cases simp: same_on_def split: option.splits)

definition demo_env :: "((nat \<times> nat) list, nat, nat) cache_env" where
  "demo_env = \<lparr>key_hash = (\<lambda>k. of_nat (length (fst k))), heap_impl = first_fit\<rparr>"

definition demo_key :: "(nat, nat) cache_key" where
  "demo_key = ([97], 1, 1, 0)"

lemma demo_spec: "heap_spec (heap_impl demo_env) first_fit_holds"
  by (simp add: demo_env_def first_fit_spec)

lemma first_fit_always_fits: "sz \<le> n \<Longrightarrow> always_fits first_fit first_fit_holds n sz"
  by (auto simp: always_fits_def first_fit_def first_fit_holds_def first_fit_alloc_def)

lemma demo_fits: "sz \<le> n \<Longrightarrow> always_fits (heap_impl demo_env) first_fit_holds n sz"
  by (simp add: demo_env_def first_fit_always_fits)

lemma demo_new:
  shows "represents demo_env first_fit_holds (response_cache_new demo_env True 4096) []"
    "enabled (response_cache_new demo_env True 4096)"
    "length (pool (state (response_cache_new demo_env True 4096))) = 4096"
  using new_represents [OF demo_spec, of 4096 True] by simp_all

definition demo_cached :: "(nat, nat) cached" where
  "demo_cached = spec_new 5 5 5 demo_key 60 [1, 2, 3] [4] []"

lemma demo_stored:
  "\<exists>c. represents demo_env first_fit_holds c [demo_cached] \<and> enabled c \<and> refresh_slots c = REFRESH_CONCURRENCY"
proof -
  let ?c = "response_cache_new demo_env True 4096"
  have pre: "cacheable ?c demo_key [1, 2, 3] [4]" "0 < length (fst demo_key) + length [1, 2, 3] + length [4]"
    by (simp_all add: cacheable_def demo_new demo_key_def)
  have fits: "always_fits (heap_impl demo_env) first_fit_holds (length (pool (state ?c)))
      (length (fst demo_key) + length [1 :: u8, 2, 3] + length [4 :: u8])"
    by (intro demo_fits) (simp add: demo_new demo_key_def)
  from insert_refines [OF demo_spec demo_new(1) pre, of 5 5 5 60] fits obtain c1 where
    "represents demo_env first_fit_holds c1 [demo_cached]" "same_shape ?c c1"
    by (auto simp: without_def demo_cached_def)
  then show ?thesis using demo_new(2) by (auto simp: same_shape_def response_cache_new_def Let_def split: prod.splits)
qed

lemma demo_get:
  assumes "represents demo_env first_fit_holds c [x]" "enabled c" "c_key x = demo_key" "now < c_stale x"
  shows "\<exists>c'. get_with_flags demo_env now demo_key c = Some (Some (served now x, due now x, c_expires x \<le> now), c') \<and>
    represents demo_env first_fit_holds c' [x\<lparr>c_used := now, c_reused := True, c_claimed := (c_claimed x \<or> due now x)\<rparr>] \<and>
    enabled c' \<and> refresh_slots c' = refresh_slots c"
proof -
  have "length (fst demo_key) \<le> 255" by (simp add: demo_key_def)
  from get_refines [OF demo_spec assms(1,2) this, of now] show ?thesis
    using assms(2-4) by (auto simp: spec_get_def find_key_def without_def same_shape_def)
qed

lemma demo_cached_sel:
  "c_key demo_cached = demo_key" "c_request demo_cached = [4]" "\<not> c_claimed demo_cached" "c_retry demo_cached = 5"
  "c_expires demo_cached = 5 + secs 60" "c_stale demo_cached = 5 + secs 60 + SERVE_STALE_WINDOW" "c_ttl demo_cached = secs 60"
  by (simp_all add: demo_cached_def spec_new_def)

lemma demo_claimed:
  "\<exists>c cs x. represents demo_env first_fit_holds c cs \<and> find_key demo_key cs = Some x \<and> c_claimed x"
proof -
  obtain c where c: "represents demo_env first_fit_holds c [demo_cached]" "enabled c" using demo_stored by blast
  have "due (5 + secs 60) demo_cached" by (simp add: due_def demo_cached_sel)
  with demo_get [OF c demo_cached_sel(1), of "5 + secs 60"] obtain c' where
    "represents demo_env first_fit_holds c' [demo_cached\<lparr>c_used := 5 + secs 60, c_reused := True, c_claimed := True\<rparr>]"
    by (auto simp: demo_cached_sel)
  moreover have "find_key demo_key [demo_cached\<lparr>c_used := n, c_reused := True, c_claimed := True\<rparr>] =
      Some (demo_cached\<lparr>c_used := n, c_reused := True, c_claimed := True\<rparr>)" for n
    by (simp add: find_key_def demo_cached_sel)
  ultimately show ?thesis by (intro exI conjI) (assumption, assumption, simp)
qed

subsection \<open>Storing and looking up\<close>

lemma world_store_eq: "world_store t k ttl wire request (env, R, c) = Some s \<longleftrightarrow>
    (\<exists>c'. s = (env, R, c') \<and> insert_with_flags env t t t k ttl wire request c = Some c')"
  by auto

lemma world_look_eq: "world_look now k (env, R, c) = Some (r, s) \<longleftrightarrow>
    (\<exists>c'. s = (env, R, c') \<and> get_with_flags env now k c = Some (r, c'))"
  by auto

lemma insert_then_get:
  assumes "heap_spec (heap_impl env) R" "represents env R c cs" "cacheable c k wire request" "fst k \<noteq> []"
    and now: "now < t + secs (unat ttl) + SERVE_STALE_WINDOW"
  shows "\<exists>c1 r c2. insert_with_flags env t t t k ttl wire request c = Some c1 \<and>
    get_with_flags env now k c1 = Some (r, c2) \<and>
    (r = None \<and>
       \<not> always_fits (heap_impl env) R (length (pool (state c))) (length (fst k) + length wire + length request) \<or>
     (\<exists>refresh. r = Some (answer_at now t ttl wire, refresh, t + secs (unat ttl) \<le> now)))"
proof -
  have "world_rep (env, R, c) cs" "world_fits k wire request (env, R, c)"
    using assms by simp_all
  from wc.look_after_store [OF this now] show ?thesis
    unfolding world_store_eq world_sure.simps by (elim exE conjE, hypsubst, unfold world_look_eq) blast
qed

lemma delay_exact:
  fixes h :: u64
  assumes "n \<le> 5"
  shows "unat ((2 ^ n :: u64) * 500 + h mod 500) = 2 ^ n * 500 + unat (h mod 500)"
proof -
  have "unat (h mod 500) < 500" by (simp add: unat_mod)
  moreover have "n \<in> {0, 1, 2, 3, 4, 5}" using assms by auto
  ultimately show ?thesis by (auto simp: unat_word_ariths)
qed

lemma released_backoff:
  "\<exists>f. c_failures (released now h x) = f \<and> 1 \<le> unat f \<and> unat f \<le> 5 \<and>
     c_retry (released now h x) = now + millis (2 ^ unat f * 500 + unat (h mod 500))"
proof -
  define f :: u8 where "f = min (if c_failures x = - 1 then - 1 else c_failures x + 1) 5"
  have "f \<le> 5" by (simp add: f_def)
  then have "unat f \<le> 5" by (simp add: word_le_nat_alt)
  moreover have "f \<noteq> 0" unfolding f_def by (auto simp: min_def eq_neg_iff_add_eq_0)
  then have "1 \<le> unat f" by (simp add: unat_gt_0 Suc_le_eq)
  ultimately show ?thesis
    by (intro exI [of _ f]) (simp add: released_def Let_def f_def [symmetric] delay_exact)
qed

text \<open>The scan for refresh candidates is a filter of the most recently used answers.\<close>

definition claim :: "('rt, 'cl) cached list \<Rightarrow> ('rt, 'cl) cached \<Rightarrow> ('rt, 'cl) cached" where
  "claim D x = (if x \<in> set D then x\<lparr>c_claimed := True\<rparr> else x)"

lemma spec_scan_filter:
  fixes now :: instant and kh :: "('rt, 'cl) cache_key \<Rightarrow> u64"
  assumes "length reqs \<le> b" "distinct cs"
  defines "due_now \<equiv> \<lambda>x. prefetch now (kh (c_key x)) x"
  shows "spec_scan kh now b n reqs cs =
    (reqs @ map c_request (take (b - length reqs) (filter due_now (take n cs))),
     map (claim (take (b - length reqs) (filter due_now (take n cs)))) cs)"
  using assms(1,2)
proof (induction n arbitrary: reqs cs)
  case 0
  then show ?case by (simp add: claim_def map_idI)
next
  case (Suc n)
  show ?case
  proof (cases cs)
    case (Cons c zs)
    let ?D = "\<lambda>reqs. take (b - length reqs) (filter due_now (take n zs))"
    have zs: "distinct zs" "c \<notin> set zs" using Suc.prems Cons by simp_all
    have c: "c \<notin> set (?D rs)" for rs using zs(2) by (auto dest!: in_set_takeD)
    consider "length reqs = b" | "length reqs < b" "due_now c" | "length reqs < b" "\<not> due_now c"
      using Suc.prems(1) by linarith
    then show ?thesis
    proof cases
      case 1
      then show ?thesis by (simp add: Cons claim_def map_idI)
    next
      case 2
      then have D: "take (b - length reqs) (filter due_now (take (Suc n) cs)) = c # ?D (reqs @ [c_request c])"
        using Suc_diff_Suc [of "length reqs" b] by (simp add: Cons flip: Suc_diff_Suc)
      have "map (claim (c # ?D (reqs @ [c_request c]))) zs = map (claim (?D (reqs @ [c_request c]))) zs"
        using zs(2) by (intro map_cong) (auto simp: claim_def)
      then show ?thesis unfolding D using 2 Suc.IH [of "reqs @ [c_request c]" zs] zs(1)
        by (simp add: Cons due_now_def) (simp add: claim_def)
    next
      case 3
      then show ?thesis using Suc.IH [of reqs zs] Suc.prems(1) zs(1) c [of reqs]
        by (simp add: Cons due_now_def) (simp add: claim_def)
    qed
  qed simp
qed

lemma represents_distinct: "represents env R c cs \<Longrightarrow> distinct cs"
  using abs_keys(1) by (fastforce simp: represents_def distinct_map)

lemma find_key_release:
  assumes "find_key k cs = Some x" "c_claimed x"
  shows "find_key k (spec_release now h k cs) = Some (released now h x)"
  using assms
proof (induction cs)
  case (Cons c cs)
  have "c_key (released now h c) = c_key c" by (simp add: released_def Let_def)
  with Cons show ?case by (auto simp: find_key_def spec_release_def split: if_splits)
qed (simp add: find_key_def)

subsection \<open>Properties\<close>

text \<open>
  C5. Every operation of the cache runs without panic from every state that represents a content,
  leads to a state that represents the content the specification gives, and returns what it gives:
  the packed slab, its free list, the open-addressing index, the recency list and the byte pool are
  an implementation of a recency-ordered list of answers with distinct keys.
\<close>

theorem cache_op_refines:
  assumes "heap_spec (heap_impl env) R" "cache_view env R en n c v" "op_ok op"
  shows "\<exists>out c' v'. run_op env op c = Some (out, c') \<and> cache_view env R en n c' v' \<and>
    spec_op (key_hash env) (always_fits (heap_impl env) R n) en n op v out v'"
  by (rule run_op_simulates [OF assms])

theorem cache_op_refines_witness:
  "\<exists>out c' v'. run_op demo_env (Insert 5 5 5 demo_key 60 [1, 2, 3] [4]) (response_cache_new demo_env True 4096) =
      Some (out, c') \<and> cache_view demo_env first_fit_holds True 4096 c' v' \<and>
    spec_op (key_hash demo_env) (always_fits (heap_impl demo_env) first_fit_holds 4096) True 4096 (Insert 5 5 5 demo_key 60 [1, 2, 3] [4]) (REFRESH_CONCURRENCY, []) out v'"
  by (rule cache_op_refines [OF demo_spec])
    (simp_all add: cache_view_def demo_new new_represents(3) [OF demo_spec] op_ok_def demo_key_def)

text \<open>
  C4. No sequence of operations on a new cache panics, and every hit is justified by the sequence: the
  answer is the one of the last accepted insertion for that very key (name, type, class and flags),
  it is not older than its lifetime plus the stale window, it is reported as stale exactly when its
  lifetime is over, and its bytes are those inserted, aged by the whole seconds in the cache.
\<close>

theorem cache_runs_sound:
  assumes spec: "heap_spec (heap_impl env) R" and n: "n \<le> 2 ^ 30" and ok: "\<forall>op\<in>set ops. op_ok op"
  shows "\<exists>outs c'. run_ops env ops (response_cache_new env en n) = Some (outs, c') \<and> length outs = length ops \<and>
    (\<forall>i < length ops. \<forall>now k w r s. ops ! i = Get now k \<longrightarrow> outs ! i = Hit w r s \<longrightarrow>
      (\<exists>t1 t2 t3 ttl wire request. last_insert n k (take i ops) = Some (Insert t1 t2 t3 k ttl wire request) \<and>
         now < t1 + secs (unat ttl) + SERVE_STALE_WINDOW \<and> s = (t1 + secs (unat ttl) \<le> now) \<and>
         w = answer_at now t1 ttl wire))"
proof -
  let ?c = "response_cache_new env en n" and ?en = "en \<and> 64 \<le> n"
  define m where "m = (if en \<and> 64 \<le> n then n else 0)"
  have "cache_view env R ?en m ?c (REFRESH_CONCURRENCY, [])"
    using new_represents [OF spec n, of en] by (simp add: cache_view_def m_def)
  from run_ops_simulates [OF spec this ok, folded m_def] obtain outs c' v' where
    run: "run_ops env ops ?c = Some (outs, c')" "spec_run (key_hash env) (always_fits (heap_impl env) R m) ?en m ops (REFRESH_CONCURRENCY, []) outs v'"
    by blast
  have "\<exists>t1 t2 t3 ttl wire request. last_insert n k (take i ops) = Some (Insert t1 t2 t3 k ttl wire request) \<and>
         now < t1 + secs (unat ttl) + SERVE_STALE_WINDOW \<and> s = (t1 + secs (unat ttl) \<le> now) \<and>
         w = answer_at now t1 ttl wire"
    if i: "i < length ops" "ops ! i = Get now k" "outs ! i = Hit w r s" for i now k w r s
  proof -
    define I where "I = (\<lambda>past (v :: nat \<times> ('b, 'c) cached list). ?en \<longrightarrow> (\<forall>x\<in>set (snd v). stems_from m past x))"
    have "\<exists>x y. I (take i ops) x \<and> spec_op (key_hash env) (always_fits (heap_impl env) R m) ?en m (ops ! i) x (outs ! i) y"
    proof (rule spec_run_step [OF run(2) _ i(1)])
      fix past op out and v v' :: "nat \<times> ('b, 'c) cached list"
      assume "I past v" "spec_op (key_hash env) (always_fits (heap_impl env) R m) ?en m op v out v'"
      then show "I (past @ [op]) v'" using stems_from_op [of "key_hash env" "always_fits (heap_impl env) R m" m op v out v' past] by (auto simp: I_def)
    qed (simp add: I_def)
    then obtain x y where
      xy: "I (take i ops) x" "spec_op (key_hash env) (always_fits (heap_impl env) R m) ?en m (Get now k) x (Hit w r s) y"
      unfolding i by blast
    from xy(2) obtain cs cs' where hit: "?en" "snd x = cs" "spec_get now k cs = (Some (w, r, s), cs')"
      by (auto elim: spec_opE)
    from hit(3) obtain e where e: "e \<in> set cs" "c_key e = k" "now < c_stale e" "w = served now e" "s = (c_expires e \<le> now)"
      by (rule spec_hit) blast
    with xy(1) hit(1,2) have "stems_from n (take i ops) e" by (simp add: I_def m_def)
    with e(2,3) show ?thesis unfolding e(4,5) stems_from_def using served_answer_at by metis
  qed
  then show ?thesis using run spec_run_length [OF run(2)] by blast
qed

theorem cache_runs_sound_witness:
  "\<exists>outs c'. run_ops demo_env [Insert 5 5 5 demo_key 60 [1, 2, 3] [4], Get 9 demo_key]
      (response_cache_new demo_env True 4096) = Some (outs, c') \<and> length outs = 2 \<and>
    (\<forall>w r s. outs ! 1 = Hit w r s \<longrightarrow> \<not> s \<and> w = answer_at 9 5 60 [1, 2, 3])"
proof -
  let ?ops = "[Insert 5 5 5 demo_key 60 [1, 2, 3] [4], Get 9 demo_key]"
  have ok: "\<forall>op\<in>set ?ops. op_ok op" by (simp add: op_ok_def demo_key_def)
  have last: "last_insert 4096 demo_key (take 1 ?ops) = Some (Insert 5 5 5 demo_key 60 [1, 2, 3] [4])"
    by (simp add: last_insert_def stores_def demo_key_def)
  from cache_runs_sound [OF demo_spec _ ok, of 4096 True] obtain outs c' where
    run: "run_ops demo_env ?ops (response_cache_new demo_env True 4096) = Some (outs, c')" "length outs = length ?ops"
    and hits: "\<forall>i < length ?ops. \<forall>now k w r s. ?ops ! i = Get now k \<longrightarrow> outs ! i = Hit w r s \<longrightarrow>
      (\<exists>t1 t2 t3 ttl wire request. last_insert 4096 k (take i ?ops) = Some (Insert t1 t2 t3 k ttl wire request) \<and>
         now < t1 + secs (unat ttl) + SERVE_STALE_WINDOW \<and> s = (t1 + secs (unat ttl) \<le> now) \<and>
         w = answer_at now t1 ttl wire)" by auto
  have "\<not> s \<and> w = answer_at 9 5 60 [1, 2, 3]" if "outs ! 1 = Hit w r s" for w r s
    using hits [rule_format, of 1 9 demo_key w r s] that last by simp
  moreover have "length outs = 2" using run(2) by simp
  ultimately show ?thesis using run(1) by blast
qed

text \<open>
  C13. An answer that fits is found again: after \<open>insert_with_flags\<close> a lookup of the same key within
  the lifetime and the stale window returns the inserted bytes, aged, with the right staleness. Only
  when the allocator cannot place the answer even in an empty pool the lookup returns nothing; it never
  returns an older answer.
\<close>

theorem cache_insert_then_get:
  assumes "heap_spec (heap_impl env) R" "represents env R c cs" "cacheable c k wire request" "fst k \<noteq> []"
    and "now < t + secs (unat ttl) + SERVE_STALE_WINDOW"
  shows "\<exists>c1 r c2. insert_with_flags env t t t k ttl wire request c = Some c1 \<and>
    get_with_flags env now k c1 = Some (r, c2) \<and>
    (if r = None
     then \<not> always_fits (heap_impl env) R (length (pool (state c))) (length (fst k) + length wire + length request)
     else \<exists>refresh. r = Some (answer_at now t ttl wire, refresh, t + secs (unat ttl) \<le> now))"
  using insert_then_get [OF assms] by fastforce

theorem cache_insert_then_get_witness:
  "\<exists>c1 c2 refresh.
    insert_with_flags demo_env 5 5 5 demo_key 60 [1, 2, 3] [4] (response_cache_new demo_env True 4096) = Some c1 \<and>
    get_with_flags demo_env 70000000000 demo_key c1 = Some (Some (answer_at 70000000000 5 60 [1, 2, 3], refresh, True), c2)"
proof -
  let ?c = "response_cache_new demo_env True 4096"
  have pre: "cacheable ?c demo_key [1, 2, 3] [4]" "fst demo_key \<noteq> []"
    "(70000000000 :: nat) < 5 + secs (unat (60 :: u32)) + SERVE_STALE_WINDOW"
    by (simp_all add: cacheable_def demo_new demo_key_def)
  have fits: "always_fits (heap_impl demo_env) first_fit_holds (length (pool (state ?c)))
      (length (fst demo_key) + length [1 :: u8, 2, 3] + length [4 :: u8])"
    by (intro demo_fits) (simp add: demo_new demo_key_def)
  have stale: "5 + secs (unat (60 :: u32)) \<le> 70000000000" by simp
  from cache_insert_then_get [OF demo_spec demo_new(1) pre] obtain c1 r c2 where
    run: "insert_with_flags demo_env 5 5 5 demo_key 60 [1, 2, 3] [4] ?c = Some c1"
      "get_with_flags demo_env 70000000000 demo_key c1 = Some (r, c2)"
    and r: "if r = None
      then \<not> always_fits (heap_impl demo_env) first_fit_holds (length (pool (state ?c)))
        (length (fst demo_key) + length [1 :: u8, 2, 3] + length [4 :: u8])
      else \<exists>refresh. r = Some (answer_at 70000000000 5 60 [1, 2, 3], refresh, 5 + secs (unat (60 :: u32)) \<le> 70000000000)"
    by blast
  from r fits have "r \<noteq> None" by presburger
  with r have "\<exists>refresh. r = Some (answer_at 70000000000 5 60 [1, 2, 3], refresh, 5 + secs (unat (60 :: u32)) \<le> 70000000000)"
    by presburger
  then have "\<exists>refresh. r = Some (answer_at 70000000000 5 60 [1, 2, 3], refresh, True)" using stale by simp
  then show ?thesis using run by blast
qed

text \<open>
  Answers do not interfere: storing an answer changes what a lookup of another key returns only
  by losing it. A lookup never returns bytes stored under a key that differs in name, type, class or
  flags.
\<close>

theorem cache_insert_isolated:
  assumes "heap_spec (heap_impl env) R" "represents env R c cs" "cacheable c k wire request" "fst k \<noteq> []"
    and "k' \<noteq> k" "length (fst k') \<le> 255"
  shows "\<exists>c1 r c2 r0 c0. insert_with_flags env t t t k ttl wire request c = Some c1 \<and>
    get_with_flags env now k' c1 = Some (r, c2) \<and> get_with_flags env now k' c = Some (r0, c0) \<and>
    (r = None \<or> r = r0)"
proof -
  have "world_rep (env, R, c) cs" "world_fits k wire request (env, R, c)" "world_admits k' (env, R, c)"
    using assms by (simp_all add: cacheable_def)
  from wc.look_other_after_store [OF this(1,2) assms(5) this(3), of t ttl now] show ?thesis
    by (auto simp: world_store_eq world_look_eq)
qed

theorem cache_insert_isolated_witness:
  "\<exists>c1 r c2 r0 c0. insert_with_flags demo_env 5 5 5 demo_key 60 [1, 2, 3] [4] (response_cache_new demo_env True 4096) = Some c1 \<and>
    get_with_flags demo_env 9 ([97], 1, 1, 2) c1 = Some (r, c2) \<and>
    get_with_flags demo_env 9 ([97], 1, 1, 2) (response_cache_new demo_env True 4096) = Some (r0, c0) \<and> (r = None \<or> r = r0)"
  by (rule cache_insert_isolated [OF demo_spec demo_new(1)]) (simp_all add: cacheable_def demo_new demo_key_def)

text \<open>
  C30. An answer served after its lifetime carries no lifetime: when a well-formed message is stored and
  looked up after its lifetime but within the stale window, every record but OPT goes out with TTL 0,
  every other byte is as stored, and the lookup reports the answer as stale.
\<close>

theorem cache_serves_stale_with_zero_ttl:
  assumes "heap_spec (heap_impl env) R" "represents env R c cs" "msg_ok qs ans auths adds"
    and "cacheable c k (enc_msg i b2 b3 qs ans auths adds) request" "fst k \<noteq> []"
    and "always_fits (heap_impl env) R (length (pool (state c)))
      (length (fst k) + length (enc_msg i b2 b3 qs ans auths adds) + length request)"
    and "t + secs (unat ttl) \<le> now" "now < t + secs (unat ttl) + SERVE_STALE_WINDOW"
  shows "\<exists>c1 c2 refresh. insert_with_flags env t t t k ttl (enc_msg i b2 b3 qs ans auths adds) request c = Some c1 \<and>
    get_with_flags env now k c1 =
      Some (Some (enc_msg i b2 b3 qs (map (age_rr 0 True) ans) (map (age_rr 0 True) auths) (map (age_rr 0 True) adds),
        refresh, True), c2)"
proof -
  have age: "age_rr e True = age_rr 0 True" for e by (rule ext) (simp add: age_rr_def aged_ttl_def)
  have "answer_at now t ttl (enc_msg i b2 b3 qs ans auths adds) =
      enc_msg i b2 b3 qs (map (age_rr 0 True) ans) (map (age_rr 0 True) auths) (map (age_rr 0 True) adds)"
    unfolding answer_at_def age_ttls_enc_msg [OF assms(3)] using assms(7) by (simp, metis age)
  with insert_then_get [OF assms(1,2,4,5,8)] assms(6,7) show ?thesis by fastforce
qed

theorem cache_serves_stale_with_zero_ttl_witness:
  "\<exists>c1 c2 refresh. insert_with_flags demo_env 5 5 5 demo_key 60 (enc_msg 1 0x80 0x80 [(enc_name [[97]], 1, 1)]
      [\<lparr>rr_name = [0xc0, 12], rr_type = 1, rr_class = 1, rr_ttl = 60, rr_data = [1, 1, 1, 1]\<rparr>] [] []) [4]
      (response_cache_new demo_env True 4096) = Some c1 \<and>
    get_with_flags demo_env 70000000000 demo_key c1 =
      Some (Some (enc_msg 1 0x80 0x80 [(enc_name [[97]], 1, 1)]
      [\<lparr>rr_name = [0xc0, 12], rr_type = 1, rr_class = 1, rr_ttl = 0, rr_data = [1, 1, 1, 1]\<rparr>] [] [], refresh, True), c2)"
proof -
  let ?r = "\<lparr>rr_name = [0xc0, 12], rr_type = 1, rr_class = 1, rr_ttl = 60, rr_data = [1, 1, 1, 1]\<rparr>"
  let ?w = "enc_msg 1 0x80 0x80 [(enc_name [[97]], 1, 1)] [?r] [] []"
  have w: "length ?w = 35" by code_simp
  have r: "map (age_rr 0 True) [?r] =
      [\<lparr>rr_name = [0xc0, 12], rr_type = 1, rr_class = 1, rr_ttl = 0, rr_data = [1, 1, 1, 1]\<rparr>]"
    by (simp add: age_rr_def is_opt_def aged_ttl_def)
  have ok: "msg_ok [(enc_name [[97]], 1, 1)] [?r] [] []" by (simp add: msg_ok_def rr_ok_def)
  show ?thesis
    using cache_serves_stale_with_zero_ttl [OF demo_spec demo_new(1) ok, where k = demo_key and i = 1 and ?b2.0 = "0x80" and ?b3.0 = "0x80"
        and request = "[4]" and t = 5 and ttl = 60 and now = 70000000000]
      demo_fits [of 37] demo_new(2,3) w
    unfolding r by (simp add: cacheable_def demo_key_def)
qed

text \<open>
  C29. A refresh is handed out once: after a lookup told its caller to refresh an answer, no later
  lookup of that key does so, whatever operations come in between, until the claim is released or
  an answer is stored under the key. No duplicate refreshes run for one answer.
\<close>

theorem refresh_claim_exclusive:
  assumes spec: "heap_spec (heap_impl env) R" and rep: "represents env R c cs"
    and ops: "\<forall>op\<in>set ops. op_ok op \<and> keeps_claim k op"
  shows "\<exists>out outs c'. run_ops env (Get now k # ops) c = Some (out # outs, c') \<and>
    (\<forall>w s. out = Hit w True s \<longrightarrow> (\<forall>i < length ops. \<forall>t w' s'. ops ! i = Get t k \<longrightarrow> outs ! i \<noteq> Hit w' True s'))"
proof -
  let ?n = "length (pool (state c))"
  have ok: "op_ok (Get now k)" by (simp add: op_ok_def)
  have "cache_view env R (enabled c) ?n c (refresh_slots c, cs)" using rep by (simp add: cache_view_def)
  from run_ops_simulates [OF spec this, of "Get now k # ops"] ops ok obtain outs0 c' v' where
    run: "run_ops env (Get now k # ops) c = Some (outs0, c')"
    and "spec_run (key_hash env) (always_fits (heap_impl env) R ?n) (enabled c) ?n (Get now k # ops) (refresh_slots c, cs) outs0 v'"
    by auto
  from this(2) obtain out v1 outs where outs: "outs0 = out # outs"
    and first: "spec_op (key_hash env) (always_fits (heap_impl env) R ?n) (enabled c) ?n (Get now k) (refresh_slots c, cs) out v1"
    and rest: "spec_run (key_hash env) (always_fits (heap_impl env) R ?n) (enabled c) ?n ops v1 outs v'"
    by (elim spec_run_ConsE) blast
  have "outs ! i \<noteq> Hit w' True s'"
    if hit: "out = Hit w True s" and i: "i < length ops" "ops ! i = Get t k" for w s i t w' s'
  proof
    assume o: "outs ! i = Hit w' True s'"
    have start: "all_claimed k (snd v1)" using first hit by (auto elim!: spec_opE dest: claimed_hit(2))
    from spec_run_step [where I = "\<lambda>_ v. all_claimed k (snd v)", OF rest start i(1)] ops all_claimed_op
    obtain x y where "all_claimed k (snd x)"
      "spec_op (key_hash env) (always_fits (heap_impl env) R ?n) (enabled c) ?n (Get t k) x (Hit w' True s') y"
      unfolding i(2) o by (metis prod.collapse)
    then show False by (auto elim!: spec_opE dest: claimed_hit(1))
  qed
  then show ?thesis using run outs by blast
qed

theorem refresh_claim_exclusive_witness:
  "\<exists>c w s outs c'. run_ops demo_env [Get (5 + secs 60) demo_key, Sweep (6 + secs 60) 0 64, Get (7 + secs 60) demo_key] c =
      Some (Hit w True s # outs, c') \<and> (\<forall>w' s'. outs ! 1 \<noteq> Hit w' True s')"
proof -
  let ?ops = "[Sweep (6 + secs 60) 0 64, Get (7 + secs 60) demo_key]"
  obtain c where c: "represents demo_env first_fit_holds c [demo_cached]" "enabled c" using demo_stored by blast
  have "\<forall>op\<in>set ?ops. op_ok op \<and> keeps_claim demo_key op"
    by (simp add: op_ok_def keeps_claim_def)
  from refresh_claim_exclusive [OF demo_spec c(1) this, of "5 + secs 60"] obtain out outs c' where
    run: "run_ops demo_env (Get (5 + secs 60) demo_key # ?ops) c = Some (out # outs, c')"
    and once: "\<forall>w s. out = Hit w True s \<longrightarrow> (\<forall>i < length ?ops. \<forall>t w' s'. ?ops ! i = Get t demo_key \<longrightarrow> outs ! i \<noteq> Hit w' True s')"
    by blast
  have "due (5 + secs 60) demo_cached" by (simp add: due_def demo_cached_sel)
  with demo_get [OF c demo_cached_sel(1), of "5 + secs 60"] obtain w s c1 where
    "get_with_flags demo_env (5 + secs 60) demo_key c = Some (Some (w, True, s), c1)" by (auto simp: demo_cached_sel)
  then have "run_op demo_env (Get (5 + secs 60) demo_key) c = Some (Hit w True s, c1)" by (simp add: run_op_def)
  with run have out: "out = Hit w True s" by (auto simp: bind_eq_Some_conv)
  have "outs ! 1 \<noteq> Hit w' True s'" for w' s'
    using once [rule_format, OF out, of 1 "7 + secs 60"] by simp
  then show ?thesis using run out by blast
qed

text \<open>
  A failed refresh backs off: releasing the claim on an answer makes it claimable again, counts
  the failure, and keeps every lookup from asking for another refresh for at least one second; the
  wait doubles with each failure up to the fifth and never reaches 16.5 seconds.
\<close>

theorem refresh_backoff_bounds:
  assumes rep: "represents env R c cs" and x: "find_key k cs = Some x" "c_claimed x"
  shows "\<exists>c' cs' x'. release_refresh_claim env now k c = Some c' \<and> represents env R c' cs' \<and>
    find_key k cs' = Some x' \<and> \<not> c_claimed x' \<and> c_wire x' = c_wire x \<and>
    1 \<le> unat (c_failures x') \<and> unat (c_failures x') \<le> 5 \<and>
    now + millis (2 ^ unat (c_failures x') * 500) \<le> c_retry x' \<and>
    c_retry x' < now + millis (2 ^ unat (c_failures x') * 500 + 500) \<and>
    (\<forall>t < now + millis 1000. \<not> due t x')"
proof -
  let ?h = "key_hash env k"
  from release_refines [OF rep, of now k] obtain c' where
    c': "release_refresh_claim env now k c = Some c'" "represents env R c' (spec_release now ?h k cs)" by blast
  have k: "c_key x = k" using find_key_mem [OF x(1)] by simp
  have "find_key k (spec_release now ?h k cs) = Some (released now ?h x)"
    by (rule find_key_release [OF x])
  moreover obtain f where f: "c_failures (released now ?h x) = f" "1 \<le> unat f" "unat f \<le> 5"
    "c_retry (released now ?h x) = now + millis (2 ^ unat f * 500 + unat (?h mod 500))"
    using released_backoff by blast
  moreover have "unat (?h mod 500) < 500" by (simp add: unat_mod)
  moreover have "(2 :: nat) \<le> 2 ^ unat f" using f(2) by (cases "unat f") auto
  ultimately show ?thesis
    using c' by (intro exI [of _ c'] exI [of _ "spec_release now ?h k cs"] exI [of _ "released now ?h x"])
      (simp add: due_def, simp add: released_def Let_def)
qed

theorem refresh_backoff_bounds_witness:
  "\<exists>c c' cs' x'. release_refresh_claim demo_env 7 demo_key c = Some c' \<and>
    represents demo_env first_fit_holds c' cs' \<and> find_key demo_key cs' = Some x' \<and> \<not> c_claimed x' \<and>
    (\<forall>t < 7 + millis 1000. \<not> due t x')"
proof -
  from demo_claimed obtain c cs x where
    "represents demo_env first_fit_holds c cs" "find_key demo_key cs = Some x" "c_claimed x" by blast
  from refresh_backoff_bounds [OF this, of 7] show ?thesis by blast
qed

text \<open>
  C20. A sweep removes exactly what can no longer be served: the batches of \<open>sweep_expired\<close>, each under
  its own lock, together remove all the answers whose stale window is over and no other, and keep
  the recency order of the rest.
\<close>

theorem sweep_removes_exactly_expired:
  assumes "heap_spec (heap_impl env) R" "represents env R c cs"
  shows "\<exists>c'. foldM (sweep_batch env now (length (entries (state c)))) (sweep_starts (length (entries (state c)))) c = Some c' \<and>
    represents env R c' (filter (\<lambda>x. now < c_stale x) cs)"
  by (rule sweep_refines [OF assms])

theorem sweep_removes_exactly_expired_witness:
  "\<exists>c c' cs. cs \<noteq> [] \<and> represents demo_env first_fit_holds c cs \<and>
    foldM (sweep_batch demo_env 0 (length (entries (state c)))) (sweep_starts (length (entries (state c)))) c = Some c' \<and>
    represents demo_env first_fit_holds c' (filter (\<lambda>x. 0 < c_stale x) cs)"
proof -
  from demo_claimed obtain c cs x where
    c: "represents demo_env first_fit_holds c cs" "find_key demo_key cs = Some x" by blast
  then have "cs \<noteq> []" by (auto simp: find_key_def)
  with sweep_removes_exactly_expired [OF demo_spec c(1), of 0] c(1) show ?thesis by blast
qed

text \<open>
  C39. The background refresh takes what is due and no more: among the 1024 most recently used answers
  \<open>refresh_candidates\<close> picks, in their order and up to the number of free permits, those with a stored
  request that were looked up since they were stored and in the last five minutes, are not claimed, are
  not in their back-off, can still be served, and have left at most 5 to 10 percent of their lifetime.
  It returns their requests, claims exactly them, and changes nothing else; a cache that is switched
  off returns none.
\<close>

theorem refresh_candidates_exact:
  assumes "represents env R c cs"
  shows "let due_now = (\<lambda>x. c_request x \<noteq> [] \<and> c_reused x \<and> now - c_used x < secs 300 \<and> \<not> c_claimed x \<and> c_retry x \<le> now \<and>
      now < c_stale x \<and> c_expires x - now \<le> c_ttl x * (5 + unat (key_hash env (c_key x)) mod 6) div 100);
      picked = take (if enabled c then refresh_slots c else 0) (filter due_now (take 1024 cs))
    in \<exists>c'. refresh_candidates now c = Some (map c_request picked, c') \<and>
      represents env R c' (map (\<lambda>x. if x \<in> set picked then x\<lparr>c_claimed := True\<rparr> else x) cs)"
proof -
  define picked where "picked = take (if enabled c then refresh_slots c else 0)
    (filter (\<lambda>x. prefetch now (key_hash env (c_key x)) x) (take REFRESH_SCAN_LIMIT cs))"
  have "\<exists>c'. refresh_candidates now c = Some (map c_request picked, c') \<and> represents env R c' (map (claim picked) cs)"
  proof (cases "enabled c \<and> refresh_slots c \<noteq> 0")
    case True
    have "spec_scan (key_hash env) now (refresh_slots c) REFRESH_SCAN_LIMIT [] cs = (map c_request picked, map (claim picked) cs)"
      using spec_scan_filter [OF _ represents_distinct [OF assms], of "[]" "refresh_slots c" "key_hash env" now REFRESH_SCAN_LIMIT] True
      by (simp add: picked_def)
    then show ?thesis using True refresh_candidates_refines [OF assms, of now] by auto
  next
    case False
    then have "picked = []" by (auto simp: picked_def)
    then show ?thesis using False refresh_candidates_refines [OF assms, of now] by (auto simp: claim_def map_idI)
  qed
  moreover have "(\<lambda>x. prefetch now (key_hash env (c_key x)) x) =
      (\<lambda>x. c_request x \<noteq> [] \<and> c_reused x \<and> now - c_used x < secs 300 \<and> \<not> c_claimed x \<and> c_retry x \<le> now \<and>
        now < c_stale x \<and> c_expires x - now \<le> c_ttl x * (5 + unat (key_hash env (c_key x)) mod 6) div 100)"
    by (auto simp: prefetch_def fun_eq_iff)
  ultimately show ?thesis unfolding Let_def picked_def claim_def [abs_def] by (simp only:)
qed

theorem refresh_candidates_exact_witness:
  "\<exists>c c' cs'. refresh_candidates (5 + secs 57) c = Some ([[4]], c') \<and> represents demo_env first_fit_holds c' cs' \<and>
    list_all c_claimed cs' \<and> cs' \<noteq> []"
proof -
  obtain c0 where c0: "represents demo_env first_fit_holds c0 [demo_cached]" "enabled c0" "refresh_slots c0 = REFRESH_CONCURRENCY"
    using demo_stored by blast
  have "\<not> due 9 demo_cached" by (simp add: due_def demo_cached_sel)
  with demo_get [OF c0(1,2) demo_cached_sel(1), of 9] c0(3) obtain c where
    c: "represents demo_env first_fit_holds c [demo_cached\<lparr>c_used := 9, c_reused := True, c_claimed := False\<rparr>]"
    "enabled c" "refresh_slots c = REFRESH_CONCURRENCY" by (auto simp: demo_cached_sel)
  from refresh_candidates_exact [OF c(1), of "5 + secs 57"] c(2,3) obtain c' where
    "refresh_candidates (5 + secs 57) c = Some ([[4]], c')"
    "represents demo_env first_fit_holds c' [demo_cached\<lparr>c_used := 9, c_reused := True, c_claimed := True\<rparr>]"
    by (auto simp: demo_cached_sel)
  then show ?thesis
    by (intro exI [of _ c] exI [of _ c'] exI [of _ "[demo_cached\<lparr>c_used := 9, c_reused := True, c_claimed := True\<rparr>]"]) simp
qed

end
