(* ===== verification/Handler.thy ===== *)
theory Handler
  imports Cache Config Blocklist
begin

text \<open>
  The query handler (\<open>dns/handler.rs\<close>) and the state its tasks share (\<open>state.rs\<close>). A task of the
  handler runs without interruption up to its only suspension, the wait for the shared upstream
  fetch. \<open>resolve\<close> is the part before the suspension, \<open>fetch_from_upstream\<close> what the leading task does
  once the upstream has answered, \<open>resolve_miss\<close> the part after it. Clock reads and the result of
  the upstream are arguments. \<open>None\<close> stands for a panic, of the cache or of the domain index.
\<close>

subsection \<open>Structured messages of \<open>hickory_proto\<close>\<close>

text \<open>
  \<open>Message::from_vec\<close> is a parameter. The handler reads the response code, the TTLs of the answers
  and, of the authority records, the TTL and the MINIMUM field if the record is an SOA.
\<close>

datatype response_code = No_Error | NX_Domain | Other_Code

record dns_record =
  rec_ttl :: u32
  soa_minimum :: "u32 option"

record message =
  response_code :: response_code
  answers :: "dns_record list"
  authorities :: "dns_record list"

subsection \<open>Shared state\<close>

record ('h, 'rt, 'cl) services =
  cache_env_of :: "('h, 'rt, 'cl) cache_env"
  codec :: "('rt, 'cl) rr_codec"
  name_hash :: "bytes \<Rightarrow> u64"
  from_vec :: "bytes \<Rightarrow> message option"

record ('h, 'rt, 'cl) app_state =
  app_hosts :: "bytes \<Rightarrow> static_host option"
  app_blocklist :: domain_index
  app_cache :: "('h, 'rt, 'cl) response_cache"
  app_block_mode :: block_mode
  app_sinkhole_ip :: ipv4
  app_sinkhole_ttl :: u32

subsection \<open>Cache keys\<close>

definition cache_flags :: "('rt, 'cl) parsed_query \<Rightarrow> u8" where
  "cache_flags q = of_bool (dnssec_ok q) OR push_bit 1 (of_bool (checking_disabled q))"

definition query_key :: "('rt, 'cl) parsed_query \<Rightarrow> bytes \<Rightarrow> ('rt, 'cl) cache_key" where
  "query_key q name = (name, qtype q, qclass q, cache_flags q)"

definition parse_request ::
  "('h, 'rt, 'cl) services \<Rightarrow> bytes \<Rightarrow> (('rt, 'cl) parsed_query \<times> bytes) option" where
  "parse_request sv raw =
     map_option (\<lambda>(q, buf). (q, take (name_len q) buf)) (parse_query (codec sv) raw (replicate MAX_NAME_LEN 0))"

subsection \<open>Lifetime of an upstream answer\<close>

definition negative_ttl :: "message \<Rightarrow> u32 option" where
  "negative_ttl m =
     (let is_negative = (response_code m = NX_Domain \<or> (response_code m = No_Error \<and> answers m = []))
      in if \<not> is_negative then None
         else find_map (\<lambda>r. map_option (min (rec_ttl r)) (soa_minimum r)) (authorities m))"

fun min_ttl :: "dns_record list \<Rightarrow> u32 option" where
  "min_ttl [] = None" |
  "min_ttl (r # rs) = Some (case min_ttl rs of None \<Rightarrow> rec_ttl r | Some t \<Rightarrow> min (rec_ttl r) t)"

definition response_ttl :: "('h, 'rt, 'cl) services \<Rightarrow> bytes \<Rightarrow> u32 option" where
  "response_ttl sv wire = do {
     m \<leftarrow> from_vec sv wire;
     ttl \<leftarrow> (case min_ttl (answers m) of Some t \<Rightarrow> Some t | None \<Rightarrow> negative_ttl m);
     if 0 < ttl then Some ttl else None
   }"

subsection \<open>After the upstream has answered\<close>

definition servfail :: "('h, 'rt, 'cl) services \<Rightarrow> bytes \<Rightarrow> bytes" where
  "servfail sv request =
     (case parse_request sv request of
        None \<Rightarrow> bare_error request RCODE_SERVFAIL
      | Some (q, _) \<Rightarrow> synthesize (codec sv) request q RCODE_SERVFAIL None)"

text \<open>\<open>t1\<close>, \<open>t2\<close>, \<open>t3\<close> are the clock reads of the insertion, \<open>t1\<close> the one of a release.\<close>

definition fetch_from_upstream ::
  "('h, 'rt, 'cl) services \<Rightarrow> instant \<Rightarrow> instant \<Rightarrow> instant \<Rightarrow> bytes \<Rightarrow> ('rt, 'cl) cache_key \<Rightarrow> 'e + bytes
    \<Rightarrow> ('h, 'rt, 'cl) response_cache \<Rightarrow> (bytes \<times> ('h, 'rt, 'cl) response_cache) option" where
  "fetch_from_upstream sv t1 t2 t3 request k result c =
     (case result of
        Inr wire \<Rightarrow>
          (case response_ttl sv wire of
             Some ttl \<Rightarrow> map_option (Pair wire) (insert_with_flags (cache_env_of sv) t1 t2 t3 k ttl wire request c)
           | None \<Rightarrow> map_option (Pair wire) (release_refresh_claim (cache_env_of sv) t1 k c))
      | Inl _ \<Rightarrow> map_option (Pair (servfail sv request)) (release_refresh_claim (cache_env_of sv) t1 k c))"

subsection \<open>Background refreshes\<close>

text \<open>
  A refresh task: the request it sends and the key it stores the answer under. It holds a refresh
  permit until it ends.
\<close>

record ('rt, 'cl) refresh_task =
  task_request :: bytes
  task_key :: "('rt, 'cl) cache_key"

definition spawn_refresh ::
  "('h, 'rt, 'cl) services \<Rightarrow> instant \<Rightarrow> bytes \<Rightarrow> ('h, 'rt, 'cl) app_state
    \<Rightarrow> (('rt, 'cl) refresh_task option \<times> ('h, 'rt, 'cl) app_state) option" where
  "spawn_refresh sv now raw st =
     (case parse_request sv raw of
        None \<Rightarrow> Some (None, st)
      | Some (q, name) \<Rightarrow> do {
          let k = query_key q name;
          let (permit, c) = try_refresh_permit (app_cache st);
          refused \<leftarrow> (if \<not> permit then Some True else contains_bytes (name_hash sv) (app_blocklist st) name);
          if refused
          then do {
            c \<leftarrow> release_refresh_claim (cache_env_of sv) now k c;
            Some (None, st\<lparr>app_cache := (if permit then drop_refresh_permit c else c)\<rparr>)
          }
          else Some (Some \<lparr>task_request = raw, task_key = k\<rparr>, st\<lparr>app_cache := c\<rparr>)
        })"

text \<open>The end of a refresh task, after the shared fetch.\<close>

definition finish_refresh ::
  "('h, 'rt, 'cl) services \<Rightarrow> instant \<Rightarrow> ('rt, 'cl) refresh_task \<Rightarrow> ('h, 'rt, 'cl) response_cache
    \<Rightarrow> ('h, 'rt, 'cl) response_cache option" where
  "finish_refresh sv now t c =
     map_option drop_refresh_permit (release_refresh_claim (cache_env_of sv) now (task_key t) c)"

text \<open>One round of the refresh loop: every candidate is handed to \<open>spawn_refresh\<close>.\<close>

fun spawn_all ::
  "('h, 'rt, 'cl) services \<Rightarrow> instant \<Rightarrow> bytes list \<Rightarrow> ('h, 'rt, 'cl) app_state
    \<Rightarrow> (('rt, 'cl) refresh_task list \<times> ('h, 'rt, 'cl) app_state) option" where
  "spawn_all sv now [] st = Some ([], st)" |
  "spawn_all sv now (r # rs) st = do {
     (t, st) \<leftarrow> spawn_refresh sv now r st;
     (ts, st) \<leftarrow> spawn_all sv now rs st;
     Some ((case t of None \<Rightarrow> ts | Some t \<Rightarrow> t # ts), st)
   }"

definition refresh_round ::
  "('h, 'rt, 'cl) services \<Rightarrow> instant \<Rightarrow> ('h, 'rt, 'cl) app_state
    \<Rightarrow> (('rt, 'cl) refresh_task list \<times> ('h, 'rt, 'cl) app_state) option" where
  "refresh_round sv now st = do {
     (rs, c) \<leftarrow> refresh_candidates now (app_cache st);
     spawn_all sv now rs (st\<lparr>app_cache := c\<rparr>)
   }"

subsection \<open>Resolution\<close>

datatype path = Static | Fresh | Stale | Blocked | Miss | Malformed

text \<open>A query is answered at once or waits for the shared fetch for its key. The paths are those the
  handler logs, and \<open>Malformed\<close> for a message it cannot parse.\<close>

datatype ('rt, 'cl) progress = Reply bytes path | Forward "('rt, 'cl) cache_key"

definition block_answer ::
  "('h, 'rt, 'cl) services \<Rightarrow> bytes \<Rightarrow> ('rt, 'cl) parsed_query \<Rightarrow> ('h, 'rt, 'cl) app_state \<Rightarrow> bytes" where
  "block_answer sv raw q st =
     (case app_block_mode st of
        Nxdomain \<Rightarrow> synthesize (codec sv) raw q RCODE_NXDOMAIN None
      | Sinkhole \<Rightarrow>
          synthesize (codec sv) raw q RCODE_NOERROR
            (if qtype q = rtype_A (codec sv) then Some (app_sinkhole_ip st, app_sinkhole_ttl st) else None))"

definition resolve ::
  "('h, 'rt, 'cl) services \<Rightarrow> instant \<Rightarrow> instant \<Rightarrow> bytes \<Rightarrow> ('rt, 'cl) parsed_query \<Rightarrow> bytes \<Rightarrow> ('h, 'rt, 'cl) app_state
    \<Rightarrow> (('rt, 'cl) progress \<times> ('rt, 'cl) refresh_task option \<times> ('h, 'rt, 'cl) app_state) option" where
  "resolve sv t1 t2 raw q name st =
     (case (if utf8_valid name then app_hosts st name else None) of
        Some host \<Rightarrow>
          Some (Reply (synthesize (codec sv) raw q RCODE_NOERROR
                  (if qtype q = rtype_A (codec sv) then Some (host_ip host, host_ttl host) else None)) Static,
                None, st)
      | None \<Rightarrow> do {
          (hit, c) \<leftarrow> get_with_flags (cache_env_of sv) t1 (query_key q name) (app_cache st);
          let st = st\<lparr>app_cache := c\<rparr>;
          (case hit of
             Some (cached, should_refresh, stale) \<Rightarrow> do {
               (task, st) \<leftarrow> (if should_refresh then spawn_refresh sv t2 raw st else Some (None, st));
               Some (Reply (set_id cached (pq_id q)) (if stale then Stale else Fresh), task, st)
             }
           | None \<Rightarrow> do {
               blocked \<leftarrow> contains_bytes (name_hash sv) (app_blocklist st) name;
               Some (if blocked then Reply (block_answer sv raw q st) Blocked else Forward (query_key q name),
                     None, st)
             })
        })"

definition resolve_miss :: "('rt, 'cl) parsed_query \<Rightarrow> bytes \<Rightarrow> bytes" where
  "resolve_miss q fetched = set_id fetched (pq_id q)"

definition handle_query ::
  "('h, 'rt, 'cl) services \<Rightarrow> instant \<Rightarrow> instant \<Rightarrow> bytes \<Rightarrow> ('h, 'rt, 'cl) app_state
    \<Rightarrow> (('rt, 'cl) progress \<times> ('rt, 'cl) refresh_task option \<times> ('h, 'rt, 'cl) app_state) option" where
  "handle_query sv t1 t2 raw st =
     (case parse_request sv raw of
        None \<Rightarrow> Some (Reply (bare_error raw RCODE_FORMERR) Malformed, None, st)
      | Some (q, name) \<Rightarrow> resolve sv t1 t2 raw q name st)"

end
