(* ===== verification/Inflight.thy ===== *)
theory Inflight
  imports Prelude Names
begin

text \<open>
  The registry of running upstream fetches (\<open>dns/inflight.rs\<close>). Identical queries that miss the cache
  share a cell; the first task to reach the empty cell runs the fetch, the others wait for it.
  \<open>flight_step\<close> is one step of one task, \<open>None\<close> if the task cannot make it; a schedule is a list of such
  steps and covers every interleaving, tasks that are dropped while they wait included. Having the
  result and removing the entry are two steps, as for tasks on several threads; on the one thread of
  the program no other task runs between them, so a run of the program is a schedule, but not every
  schedule is a run. The payload of a cell, the bytes of an answer, is a type variable.
\<close>

subsection \<open>State\<close>

text \<open>\<open>OnceCell\<close>: not initialized, being initialized by a task, or initialized.\<close>

datatype 'b cell = Unset | Running nat | Ready 'b

text \<open>
  Where a task is in \<open>dedup_with_flags\<close>: waiting on its cell, running the fetch, about to remove the
  entry, or done. A name too long for the registry is fetched directly.
\<close>

datatype ('k, 'b) phase = Waiting 'k nat | Fetching 'k nat | Got 'k 'b | Done 'k 'b | Direct

record ('k, 'b) registry =
  flying :: "'k \<Rightarrow> nat option"
  cells :: "'b cell list"
  phases :: "nat \<Rightarrow> ('k, 'b) phase option"

definition registry_new :: "('k, 'b) registry" where
  "registry_new = \<lparr>flying = Map.empty, cells = [], phases = Map.empty\<rparr>"

subsection \<open>Operations\<close>

definition flight_key :: "bytes \<times> 'rt \<times> 'cl \<times> u8 \<Rightarrow> ('rt \<times> 'cl \<times> u8 \<times> inline_name) option" where
  "flight_key k =
     (case k of (name, rt, cl, flags) \<Rightarrow> map_option (\<lambda>n. (rt, cl, flags, n)) (inline_from_bytes name))"

definition cell_for :: "'k \<Rightarrow> ('k, 'b) registry \<Rightarrow> nat \<times> ('k, 'b) registry" where
  "cell_for k r =
     (case flying r k of
        Some c \<Rightarrow> (c, r)
      | None \<Rightarrow> (length (cells r), r\<lparr>flying := (flying r)(k \<mapsto> length (cells r)), cells := cells r @ [Unset]\<rparr>))"

definition remove_flight :: "'k \<Rightarrow> ('k, 'b) registry \<Rightarrow> ('k, 'b) registry" where
  "remove_flight k r = r\<lparr>flying := (flying r)(k := None)\<rparr>"

definition set_phase :: "nat \<Rightarrow> ('k, 'b) phase option \<Rightarrow> ('k, 'b) registry \<Rightarrow> ('k, 'b) registry" where
  "set_phase t p r = r\<lparr>phases := (phases r)(t := p)\<rparr>"

definition set_cell :: "nat \<Rightarrow> 'b cell \<Rightarrow> ('k, 'b) registry \<Rightarrow> ('k, 'b) registry" where
  "set_cell c v r = r\<lparr>cells := (cells r)[c := v]\<rparr>"

subsection \<open>Steps of the tasks\<close>

datatype ('k, 'b) flight_event =
    Join nat "'k option"   \<comment> \<open>a task enters with its key, or without one\<close>
  | Lead nat               \<comment> \<open>starts the fetch\<close>
  | Finish nat 'b          \<comment> \<open>its fetch is over\<close>
  | Follow nat             \<comment> \<open>finds the cell initialized\<close>
  | Leave nat              \<comment> \<open>removes the entry and returns\<close>
  | Drop nat               \<comment> \<open>is dropped while it waits or fetches\<close>

fun flight_step :: "('k, 'b) flight_event \<Rightarrow> ('k, 'b) registry \<Rightarrow> ('k, 'b) registry option" where
  "flight_step (Join t k) r =
     (if phases r t \<noteq> None then None
      else case k of
        None \<Rightarrow> Some (set_phase t (Some Direct) r)
      | Some k \<Rightarrow> (let (c, r) = cell_for k r in Some (set_phase t (Some (Waiting k c)) r)))" |
  "flight_step (Lead t) r =
     (case phases r t of
        Some (Waiting k c) \<Rightarrow>
          if cells r ! c = Unset then Some (set_phase t (Some (Fetching k c)) (set_cell c (Running t) r)) else None
      | _ \<Rightarrow> None)" |
  "flight_step (Finish t w) r =
     (case phases r t of
        Some (Fetching k c) \<Rightarrow> Some (set_phase t (Some (Got k w)) (set_cell c (Ready w) r))
      | Some Direct \<Rightarrow> Some (set_phase t None r)
      | _ \<Rightarrow> None)" |
  "flight_step (Follow t) r =
     (case phases r t of
        Some (Waiting k c) \<Rightarrow>
          (case cells r ! c of Ready w \<Rightarrow> Some (set_phase t (Some (Got k w)) r) | _ \<Rightarrow> None)
      | _ \<Rightarrow> None)" |
  "flight_step (Leave t) r =
     (case phases r t of
        Some (Got k w) \<Rightarrow> Some (set_phase t (Some (Done k w)) (remove_flight k r))
      | _ \<Rightarrow> None)" |
  "flight_step (Drop t) r =
     (case phases r t of
        Some (Waiting k c) \<Rightarrow> Some (set_phase t None r)
      | Some (Fetching k c) \<Rightarrow> Some (set_phase t None (set_cell c Unset r))
      | Some Direct \<Rightarrow> Some (set_phase t None r)
      | _ \<Rightarrow> None)"

fun flight_run :: "('k, 'b) flight_event list \<Rightarrow> ('k, 'b) registry \<Rightarrow> ('k, 'b) registry option" where
  "flight_run [] r = Some r" |
  "flight_run (e # es) r = Option.bind (flight_step e r) (flight_run es)"

subsection \<open>The invariant\<close>

text \<open>
  \<open>kf\<close> gives the key of a cell. Every cell belongs to one key, is run by at most one task, and what it
  holds, like what a task has got from it, satisfies \<open>P\<close> for its key.
\<close>

definition keyed :: "('k \<Rightarrow> 'b \<Rightarrow> bool) \<Rightarrow> (nat \<Rightarrow> 'k) \<Rightarrow> ('k, 'b) registry \<Rightarrow> bool" where
  "keyed P kf r \<longleftrightarrow>
     (\<forall>k c. flying r k = Some c \<longrightarrow> c < length (cells r) \<and> kf c = k) \<and>
     (\<forall>t k c. phases r t = Some (Waiting k c) \<longrightarrow> c < length (cells r) \<and> kf c = k) \<and>
     (\<forall>t k c. phases r t = Some (Fetching k c) \<longrightarrow> c < length (cells r) \<and> kf c = k \<and> cells r ! c = Running t) \<and>
     (\<forall>t c. c < length (cells r) \<longrightarrow> cells r ! c = Running t \<longrightarrow> phases r t = Some (Fetching (kf c) c)) \<and>
     (\<forall>c w. c < length (cells r) \<longrightarrow> cells r ! c = Ready w \<longrightarrow> P (kf c) w) \<and>
     (\<forall>t k w. phases r t = Some (Got k w) \<or> phases r t = Some (Done k w) \<longrightarrow> P k w)"

definition flight_inv :: "('k \<Rightarrow> 'b \<Rightarrow> bool) \<Rightarrow> ('k, 'b) registry \<Rightarrow> bool" where
  "flight_inv P r \<longleftrightarrow> (\<exists>kf. keyed P kf r)"

lemma flight_inv_new: "flight_inv P registry_new"
  by (simp add: flight_inv_def keyed_def registry_new_def)

lemma keyedI:
  assumes "\<And>k c. flying r k = Some c \<Longrightarrow> c < length (cells r) \<and> kf c = k"
    and "\<And>t k c. phases r t = Some (Waiting k c) \<Longrightarrow> c < length (cells r) \<and> kf c = k"
    and "\<And>t k c. phases r t = Some (Fetching k c) \<Longrightarrow> c < length (cells r) \<and> kf c = k \<and> cells r ! c = Running t"
    and "\<And>t c. c < length (cells r) \<Longrightarrow> cells r ! c = Running t \<Longrightarrow> phases r t = Some (Fetching (kf c) c)"
    and "\<And>c w. c < length (cells r) \<Longrightarrow> cells r ! c = Ready w \<Longrightarrow> P (kf c) w"
    and "\<And>t k w. phases r t = Some (Got k w) \<or> phases r t = Some (Done k w) \<Longrightarrow> P k w"
  shows "keyed P kf r"
  using assms unfolding keyed_def by blast

lemma keyedD:
  assumes "keyed P kf r"
  shows "flying r k = Some c \<Longrightarrow> c < length (cells r) \<and> kf c = k"
    and "phases r t = Some (Waiting k c) \<Longrightarrow> c < length (cells r) \<and> kf c = k"
    and "phases r t = Some (Fetching k c) \<Longrightarrow> c < length (cells r) \<and> kf c = k \<and> cells r ! c = Running t"
    and "c < length (cells r) \<Longrightarrow> cells r ! c = Running t \<Longrightarrow> phases r t = Some (Fetching (kf c) c)"
    and "c < length (cells r) \<Longrightarrow> cells r ! c = Ready w \<Longrightarrow> P (kf c) w"
    and "phases r t = Some (Got k w) \<or> phases r t = Some (Done k w) \<Longrightarrow> P k w"
  using assms unfolding keyed_def by blast+

lemma keyed_cell_for:
  assumes inv: "keyed P kf r" and c: "cell_for k r = (c, r')"
  shows "\<exists>kf'. keyed P kf' r' \<and> c < length (cells r') \<and> kf' c = k \<and> phases r' = phases r"
proof (cases "flying r k")
  case None
  then have r': "c = length (cells r)" "r' = r\<lparr>flying := (flying r)(k \<mapsto> length (cells r)), cells := cells r @ [Unset]\<rparr>"
    using c by (auto simp: cell_for_def)
  note D = keyedD [OF inv]
  have "keyed P (kf(length (cells r) := k)) r'"
  proof (rule keyedI)
    fix k' c' assume "flying r' k' = Some c'"
    then show "c' < length (cells r') \<and> (kf(length (cells r) := k)) c' = k'"
      using D(1) [of k' c'] by (auto simp: r' split: if_splits)
  next
    fix t k' c' assume "phases r' t = Some (Waiting k' c')"
    then show "c' < length (cells r') \<and> (kf(length (cells r) := k)) c' = k'" using D(2) [of t k' c'] by (auto simp: r')
  next
    fix t k' c' assume "phases r' t = Some (Fetching k' c')"
    then show "c' < length (cells r') \<and> (kf(length (cells r) := k)) c' = k' \<and> cells r' ! c' = Running t"
      using D(3) [of t k' c'] by (auto simp: r' nth_append)
  next
    fix t c' assume "c' < length (cells r')" "cells r' ! c' = Running t"
    then show "phases r' t = Some (Fetching ((kf(length (cells r) := k)) c') c')"
      using D(4) [of c' t] by (auto simp: r' nth_append split: if_splits)
  next
    fix c' w assume "c' < length (cells r')" "cells r' ! c' = Ready w"
    then show "P ((kf(length (cells r) := k)) c') w" using D(5) [of c' w] by (auto simp: r' nth_append split: if_splits)
  next
    fix t k' w assume "phases r' t = Some (Got k' w) \<or> phases r' t = Some (Done k' w)"
    then show "P k' w" using D(6) [of t k' w] by (simp add: r')
  qed
  then show ?thesis unfolding r'(1) by (intro exI [of _ "kf(length (cells r) := k)"]) (simp add: r')
next
  case (Some c')
  then show ?thesis using c inv keyedD(1) [OF inv Some] by (auto simp: cell_for_def)
qed

lemma keyed_phase:
  assumes inv: "keyed P kf r" and old: "\<And>k c. phases r t \<noteq> Some (Fetching k c)"
    and p: "case p of
      Some (Waiting k c) \<Rightarrow> c < length (cells r) \<and> kf c = k | Some (Fetching k c) \<Rightarrow> False
    | Some (Got k w) \<Rightarrow> P k w | Some (Done k w) \<Rightarrow> P k w | _ \<Rightarrow> True"
  shows "keyed P kf (set_phase t p r)"
proof (rule keyedI)
  note D = keyedD [OF inv]
  show "c < length (cells (set_phase t p r)) \<and> kf c = k" if "flying (set_phase t p r) k = Some c" for k c
    using that D(1) by (simp add: set_phase_def)
  show "c < length (cells (set_phase t p r)) \<and> kf c = k" if "phases (set_phase t p r) t' = Some (Waiting k c)" for t' k c
    using that D(2) [of t' k c] p by (auto simp: set_phase_def split: if_splits)
  show "c < length (cells (set_phase t p r)) \<and> kf c = k \<and> cells (set_phase t p r) ! c = Running t'"
    if "phases (set_phase t p r) t' = Some (Fetching k c)" for t' k c
    using that D(3) [of t' k c] p by (auto simp: set_phase_def split: if_splits)
  show "phases (set_phase t p r) t' = Some (Fetching (kf c) c)"
    if "c < length (cells (set_phase t p r))" "cells (set_phase t p r) ! c = Running t'" for t' c
    using that D(4) [of c t'] old [of "kf c" c] by (auto simp: set_phase_def)
  show "P (kf c) w" if "c < length (cells (set_phase t p r))" "cells (set_phase t p r) ! c = Ready w" for c w
    using that D(5) by (simp add: set_phase_def)
  show "P k w" if "phases (set_phase t p r) t' = Some (Got k w) \<or> phases (set_phase t p r) t' = Some (Done k w)" for t' k w
    using that D(6) [of t' k w] p by (auto simp: set_phase_def split: if_splits)
qed

text \<open>A task starts, completes or abandons the fetch of its cell.\<close>

lemma keyed_fetch:
  assumes inv: "keyed P kf r" and c: "c < length (cells r)" "kf c = k"
    and old: "phases r t = Some (Waiting k c) \<and> cells r ! c = Unset \<or> phases r t = Some (Fetching k c)"
    and new: "v = Running t \<and> p = Some (Fetching k c) \<or> v = Unset \<and> p = None \<or>
      (\<exists>w. v = Ready w \<and> p = Some (Got k w) \<and> P k w)"
  shows "keyed P kf (set_phase t p (set_cell c v r))" (is "keyed P kf ?r")
proof (rule keyedI)
  note D = keyedD [OF inv]
  have t: "c' = c" if "phases r t = Some (Fetching k' c')" for k' c' using that old by auto
  have only: "t' = t" if "phases r t' = Some (Fetching k' c)" for t' k'
    using D(3) [OF that] D(3) [of t k c] old by auto
  show "c' < length (cells ?r) \<and> kf c' = k'" if "flying ?r k' = Some c'" for k' c'
    using that D(1) by (simp add: set_phase_def set_cell_def)
  show "c' < length (cells ?r) \<and> kf c' = k'" if "phases ?r t' = Some (Waiting k' c')" for t' k' c'
    using that D(2) [of t' k' c'] new by (auto simp: set_phase_def set_cell_def split: if_splits)
  show "c' < length (cells ?r) \<and> kf c' = k' \<and> cells ?r ! c' = Running t'"
    if "phases ?r t' = Some (Fetching k' c')" for t' k' c'
    using that D(3) [of t' k' c'] new c only [of t' k']
    by (auto simp: set_phase_def set_cell_def nth_list_update split: if_splits)
  show "phases ?r t' = Some (Fetching (kf c') c')"
    if "c' < length (cells ?r)" "cells ?r ! c' = Running t'" for t' c'
    using that D(4) [of c' t'] new c t [of "kf c'" c']
    by (auto simp: set_phase_def set_cell_def nth_list_update split: if_splits)
  show "P (kf c') w" if "c' < length (cells ?r)" "cells ?r ! c' = Ready w" for c' w
    using that D(5) [of c' w] new c by (auto simp: set_phase_def set_cell_def nth_list_update split: if_splits)
  show "P k' w" if "phases ?r t' = Some (Got k' w) \<or> phases ?r t' = Some (Done k' w)" for t' k' w
    using that D(6) [of t' k' w] new by (auto simp: set_phase_def set_cell_def split: if_splits)
qed

lemma keyed_remove:
  assumes inv: "keyed P kf r" shows "keyed P kf (remove_flight k r)"
proof (rule keyedI)
  note D = keyedD [OF inv]
  show "c < length (cells (remove_flight k r)) \<and> kf c = k'" if "flying (remove_flight k r) k' = Some c" for k' c
    using that D(1) [of k' c] by (auto simp: remove_flight_def split: if_splits)
  show "c < length (cells (remove_flight k r)) \<and> kf c = k'" if "phases (remove_flight k r) t = Some (Waiting k' c)" for t k' c
    using that D(2) by (simp add: remove_flight_def)
  show "c < length (cells (remove_flight k r)) \<and> kf c = k' \<and> cells (remove_flight k r) ! c = Running t"
    if "phases (remove_flight k r) t = Some (Fetching k' c)" for t k' c
    using that D(3) [of t k' c] by (simp add: remove_flight_def)
  show "phases (remove_flight k r) t = Some (Fetching (kf c) c)"
    if "c < length (cells (remove_flight k r))" "cells (remove_flight k r) ! c = Running t" for t c
    using that D(4) [of c t] by (simp add: remove_flight_def)
  show "P (kf c) w" if "c < length (cells (remove_flight k r))" "cells (remove_flight k r) ! c = Ready w" for c w
    using that D(5) [of c w] by (simp add: remove_flight_def)
  show "P k' w" if "phases (remove_flight k r) t = Some (Got k' w) \<or> phases (remove_flight k r) t = Some (Done k' w)"
    for t k' w
    using that D(6) [of t k' w] by (simp add: remove_flight_def)
qed

lemma flight_step_inv:
  assumes inv: "flight_inv P r" and step: "flight_step e r = Some r'"
    and fin: "\<And>t w k c. e = Finish t w \<Longrightarrow> phases r t = Some (Fetching k c) \<Longrightarrow> P k w"
  shows "flight_inv P r'"
proof -
  obtain kf where kf: "keyed P kf r" using inv by (auto simp: flight_inv_def)
  show ?thesis
  proof (cases e)
    case (Join t ko)
    show ?thesis
    proof (cases ko)
      case None
      then show ?thesis using keyed_phase [OF kf, of t "Some Direct"] step Join
        by (auto simp: flight_inv_def split: if_splits)
    next
      case (Some k)
      obtain c r1 where c: "cell_for k r = (c, r1)" by (cases "cell_for k r")
      from keyed_cell_for [OF kf c] obtain kf' where
        "keyed P kf' r1" "c < length (cells r1)" "kf' c = k" "phases r1 = phases r" by blast
      then show ?thesis using keyed_phase [of P kf' r1 t "Some (Waiting k c)"] step Join Some c
        by (auto simp: flight_inv_def split: if_splits)
    qed
  next
    case (Lead t)
    then obtain k c where *: "phases r t = Some (Waiting k c)" "cells r ! c = Unset"
      "r' = set_phase t (Some (Fetching k c)) (set_cell c (Running t) r)"
      using step by (auto split: option.splits phase.splits if_splits)
    then show ?thesis using keyed_fetch [OF kf] keyedD(2) [OF kf *(1)] unfolding flight_inv_def by blast
  next
    case (Finish t w)
    then consider (fetch) k c where "phases r t = Some (Fetching k c)" "r' = set_phase t (Some (Got k w)) (set_cell c (Ready w) r)"
      | (direct) "phases r t = Some Direct" "r' = set_phase t None r"
      using step by (auto split: option.splits phase.splits)
    then show ?thesis
    proof cases
      case fetch
      then show ?thesis
        using keyed_fetch [OF kf] keyedD(3) [OF kf fetch(1)] fin [OF Finish fetch(1)] unfolding flight_inv_def by blast
    next
      case direct
      then show ?thesis using keyed_phase [OF kf, of t None] by (auto simp: flight_inv_def)
    qed
  next
    case (Follow t)
    then show ?thesis
    proof -
      from Follow step obtain k c w where w: "phases r t = Some (Waiting k c)" "cells r ! c = Ready w"
        "r' = set_phase t (Some (Got k w)) r"
        by (auto split: option.splits phase.splits cell.splits)
      then have "P k w" using kf unfolding keyed_def by blast
      then show ?thesis using keyed_phase [OF kf, of t "Some (Got k w)"] w by (auto simp: flight_inv_def)
    qed
  next
    case (Leave t)
    then obtain k w where w: "phases r t = Some (Got k w)" "r' = set_phase t (Some (Done k w)) (remove_flight k r)"
      using step by (auto split: option.splits phase.splits)
    then have "P k w" using kf unfolding keyed_def by blast
    then show ?thesis using keyed_phase [OF keyed_remove [OF kf], where t = t and p = "Some (Done k w)"] w
      by (auto simp: flight_inv_def remove_flight_def)
  next
    case (Drop t)
    then consider (fetch) k c where "phases r t = Some (Fetching k c)" "r' = set_phase t None (set_cell c Unset r)"
      | (other) "\<And>k c. phases r t \<noteq> Some (Fetching k c)" "r' = set_phase t None r"
      using step by (auto split: option.splits phase.splits)
    then show ?thesis
    proof cases
      case fetch
      then show ?thesis using keyed_fetch [OF kf] keyedD(3) [OF kf fetch(1)] unfolding flight_inv_def by blast
    next
      case other
      then show ?thesis using keyed_phase [OF kf, of t None] by (auto simp: flight_inv_def)
    qed
  qed
qed

subsection \<open>Runs\<close>

lemma flight_key_eq:
  assumes "length (fst k) \<le> 255"
  shows "flight_key k = flight_key k' \<longleftrightarrow> k = k'"
proof -
  obtain n where n: "inline_from_bytes (fst k) = Some n" using assms by (simp add: inline_from_bytes_def)
  have "fst k = fst k'" if "inline_from_bytes (fst k') = Some n"
    using inline_as_bytes_from_bytes [OF that] inline_as_bytes_from_bytes [OF n] by simp
  then show ?thesis using n by (auto simp: flight_key_def map_option_case split: prod.splits option.splits)
qed

text \<open>The fetches that were completed, with their keys.\<close>

fun completed :: "('k, 'b) flight_event list \<Rightarrow> ('k, 'b) registry \<Rightarrow> ('k \<times> 'b) list" where
  "completed [] r = []" |
  "completed (e # es) r =
     (case e of
        Finish t w \<Rightarrow> (case phases r t of Some (Fetching k c) \<Rightarrow> [(k, w)] | _ \<Rightarrow> [])
      | _ \<Rightarrow> []) @ (case flight_step e r of None \<Rightarrow> [] | Some r \<Rightarrow> completed es r)"

lemma flight_inv_mono:
  assumes "flight_inv P r" and Q: "\<And>k w. P k w \<Longrightarrow> Q k w"
  shows "flight_inv Q r"
proof -
  from assms(1) obtain kf where inv: "keyed P kf r" by (auto simp: flight_inv_def)
  have "keyed Q kf r" using keyedD(1-4) [OF inv] keyedD(5,6) [OF inv, THEN Q] by (rule keyedI)
  then show ?thesis by (auto simp: flight_inv_def)
qed

lemma flight_run_inv:
  "flight_inv (\<lambda>k w. (k, w) \<in> L) r \<Longrightarrow> flight_run es r = Some r' \<Longrightarrow>
   flight_inv (\<lambda>k w. (k, w) \<in> L \<union> set (completed es r)) r'"
proof (induction es arbitrary: L r)
  case (Cons e es)
  from Cons.prems(2) obtain r1 where r1: "flight_step e r = Some r1" "flight_run es r1 = Some r'"
    by (auto simp: bind_eq_Some_conv)
  let ?L = "L \<union> {(k, w) | k w t c. e = Finish t w \<and> phases r t = Some (Fetching k c)}"
  have "flight_inv (\<lambda>k w. (k, w) \<in> ?L) r" by (rule flight_inv_mono [OF Cons.prems(1)]) simp
  then have "flight_inv (\<lambda>k w. (k, w) \<in> ?L) r1" by (rule flight_step_inv [OF _ r1(1)]) auto
  from Cons.IH [OF this r1(2)] show ?case
    by (rule flight_inv_mono) (use r1(1) in \<open>auto split: flight_event.splits\<close>)
qed simp

lemma flight_reachable:
  assumes "flight_run es registry_new = Some r"
  shows "flight_inv (\<lambda>k w. (k, w) \<in> set (completed es registry_new)) r"
proof -
  have "flight_inv (\<lambda>k w. (k, w) \<in> {}) registry_new" by (rule flight_inv_new)
  from flight_run_inv [OF this assms] show ?thesis by simp
qed

subsection \<open>Properties\<close>

text \<open>
  C8. Whatever the interleaving, a task gets the bytes of a completed fetch for its own key, never
  those of another name, type, class or flags.
\<close>

theorem dedup_returns_own_fetch:
  assumes "flight_run es registry_new = Some r" "phases r t = Some (Done k w)"
  shows "(k, w) \<in> set (completed es registry_new)"
  using flight_reachable [OF assms(1)] assms(2) unfolding flight_inv_def by (blast dest: keyedD(6))

theorem dedup_returns_own_fetch_witness:
  "(7 :: nat, 99 :: nat) \<in> set (completed
     [Join 0 (Some 7), Join 1 (Some 7), Lead 0, Finish 0 99, Leave 0, Follow 1, Leave 1] registry_new)"
  by (rule dedup_returns_own_fetch [where t = 1 and r = "the (flight_run
      [Join 0 (Some 7), Join 1 (Some 7), Lead 0, Finish 0 99, Leave 0, Follow 1, Leave 1] registry_new)"])
    (simp_all add: registry_new_def cell_for_def set_phase_def set_cell_def remove_flight_def)

text \<open>
  C35. The tasks that share a cell share one fetch: while a task fetches, no other task of its cell
  is fetching or can start to, and all of them have the same key.
\<close>

theorem dedup_one_fetch_per_cell:
  assumes "flight_run es registry_new = Some r" "phases r t = Some (Fetching k c)" "t' \<noteq> t"
    and "phases r t' = Some (Waiting k' c) \<or> phases r t' = Some (Fetching k' c)"
  shows "k' = k \<and> phases r t' = Some (Waiting k' c) \<and> flight_step (Lead t') r = None"
proof -
  obtain P kf where inv: "keyed P kf r" using flight_reachable [OF assms(1)] by (auto simp: flight_inv_def)
  have c: "kf c = k" "cells r ! c = Running t" using keyedD(3) [OF inv assms(2)] by simp_all
  then have "phases r t' \<noteq> Some (Fetching k' c)" using keyedD(3) [OF inv, of t' k' c] assms(3) by auto
  with assms(4) have w: "phases r t' = Some (Waiting k' c)" by blast
  then show ?thesis using keyedD(2) [OF inv w] c by simp
qed

theorem dedup_one_fetch_per_cell_witness:
  "\<exists>r :: (nat, nat) registry. flight_run [Join 0 (Some 7), Join 1 (Some 7), Lead 0] registry_new = Some r \<and>
     phases r 0 = Some (Fetching 7 0) \<and> flight_step (Lead 1) r = None"
proof -
  obtain r :: "(nat, nat) registry" where
    r: "flight_run [Join 0 (Some 7), Join 1 (Some 7), Lead 0] registry_new = Some r"
      "phases r 0 = Some (Fetching 7 0)" "phases r 1 = Some (Waiting 7 0)"
    by (simp add: registry_new_def cell_for_def set_phase_def set_cell_def)
  then show ?thesis using dedup_one_fetch_per_cell [OF r(1,2), of 1 7] by auto
qed

text \<open>
  No task waits forever if the fetches end: from every reachable state there is a continuation
  that brings a waiting task to its result, also when the task that ran the fetch was dropped.
\<close>

theorem dedup_waiter_can_finish:
  assumes "flight_run es registry_new = Some r" "phases r t = Some (Waiting k c)"
  shows "\<exists>es' r' w'. flight_run es' r = Some r' \<and> phases r' t = Some (Done k w')"
proof -
  obtain P kf where inv: "keyed P kf r" using flight_reachable [OF assms(1)] by (auto simp: flight_inv_def)
  have c: "c < length (cells r)" using keyedD(2) [OF inv assms(2)] by simp
  let ?goal = "\<lambda>es'. case flight_run es' r of Some r' \<Rightarrow> (\<exists>w. phases r' t = Some (Done k w)) | None \<Rightarrow> False"
  have "?goal [Lead t, Finish t w, Leave t]" if "cells r ! c = Unset" for w
    using assms(2) that by (simp add: set_phase_def set_cell_def remove_flight_def)
  moreover have "?goal [Follow t, Leave t]" if "cells r ! c = Ready w" for w
    using assms(2) that by (simp add: set_phase_def set_cell_def remove_flight_def)
  moreover have "?goal [Finish t' w, Follow t, Leave t]" if "cells r ! c = Running t'" for t' w
    using keyedD(4) [OF inv c that] assms(2) c
    by (cases "t = t'") (simp_all add: set_phase_def set_cell_def remove_flight_def)
  ultimately have "\<exists>es'. ?goal es'" by (cases "cells r ! c") blast+
  then obtain es' where "?goal es'" ..
  then show ?thesis by (cases "flight_run es' r") auto
qed

theorem dedup_waiter_can_finish_witness:
  "\<exists>(r :: (nat, nat) registry) es' r' w'.
     flight_run [Join 0 (Some 7), Join 1 (Some 7), Lead 0, Drop 0] registry_new = Some r \<and>
     flight_run es' r = Some r' \<and> phases r' 1 = Some (Done 7 w')"
proof -
  obtain r :: "(nat, nat) registry" where
    r: "flight_run [Join 0 (Some 7), Join 1 (Some 7), Lead 0, Drop 0] registry_new = Some r"
      "phases r 1 = Some (Waiting 7 0)"
    by (simp add: registry_new_def cell_for_def set_phase_def set_cell_def)
  then show ?thesis using dedup_waiter_can_finish [OF r] by blast
qed

text \<open>
  Coalescing is not complete: \<open>remove\<close> removes whatever cell is registered under the key. When a task
  wakes up with its result while a newer query is fetching the same key, it removes the cell of that
  query, and the next identical query starts a second fetch beside the one that is running.
\<close>

lemma late_leave_splits_fetches:
  assumes "flight_run es registry_new = Some r" "phases r t = Some (Waiting k c)" "cells r ! c = Ready w"
    and "phases r u = Some (Fetching k c')" "phases r v = None"
  shows "\<exists>r' c''. flight_run [Follow t, Leave t, Join v (Some k), Lead v] r = Some r' \<and>
    phases r' u = Some (Fetching k c') \<and> phases r' v = Some (Fetching k c'') \<and> c'' \<noteq> c'"
proof -
  have "c' < length (cells r)" using flight_reachable [OF assms(1)] assms(4) unfolding flight_inv_def keyed_def by blast
  moreover have "t \<noteq> u" "t \<noteq> v" "u \<noteq> v" using assms(2,4,5) by auto
  ultimately show ?thesis using assms
    by (simp add: cell_for_def set_phase_def set_cell_def remove_flight_def)
qed

lemma late_leave_run:
  "\<exists>r :: (nat, nat) registry. flight_run
     [Join 0 (Some 7), Lead 0, Join 1 (Some 7), Finish 0 99, Leave 0, Join 2 (Some 7), Lead 2] registry_new = Some r \<and>
     phases r 1 = Some (Waiting 7 0) \<and> cells r ! 0 = Ready 99 \<and> phases r 2 = Some (Fetching 7 1)"
  by (simp add: registry_new_def cell_for_def set_phase_def set_cell_def remove_flight_def)

end
