(* ===== verification/Dot_Connection.thy ===== *)
theory Dot_Connection
  imports Wire
begin

text \<open>
  One pipelined DNS-over-TLS connection to an upstream (\<open>DotConnection\<close> of \<open>dns/upstream.rs\<close>): the
  tasks that send queries over it, its reader and its writer. \<open>dot_step\<close> is one step of one of them
  under the locks the code takes, so a list of steps is a schedule and covers every interleaving;
  in particular \<open>fail\<close> is two steps, marking the connection dead and draining the pending queries,
  and other tasks may run in between. Bytes on the network, clock reads and random numbers are
  arguments of the steps.
\<close>

subsection \<open>State\<close>

datatype dot_failure = Connection string | Protocol string

type_synonym dot_reply = "dot_failure + bytes"

text \<open>The sender of a reply is the task that waits for it.\<close>

record pending_query =
  reply_to :: nat
  expected_question :: question_key

record dot_connection =
  writes :: "bytes list"
  pending :: "(u16 \<times> pending_query) list"
  capacity :: nat
  conn_last_used :: u64
  dead :: bool
  closed :: bool

abbreviation (input) MAX_DOT_IN_FLIGHT :: nat where "MAX_DOT_IN_FLIGHT \<equiv> 256"

definition dot_connection_start :: "u64 \<Rightarrow> dot_connection" where
  "dot_connection_start now =
     \<lparr>writes = [], pending = [], capacity = MAX_DOT_IN_FLIGHT, conn_last_used = now, dead = False, closed = False\<rparr>"

subsection \<open>Operations\<close>

definition try_reserve :: "dot_connection \<Rightarrow> dot_connection option" where
  "try_reserve c = (if 0 < capacity c then Some (c\<lparr>capacity := capacity c - 1\<rparr>) else None)"

text \<open>Dropping a permit, also when a pending query that owns one is removed.\<close>

definition release_permits :: "nat \<Rightarrow> dot_connection \<Rightarrow> dot_connection" where
  "release_permits n c = c\<lparr>capacity := capacity c + n\<rparr>"

definition was_idle_for :: "u64 \<Rightarrow> nat \<Rightarrow> dot_connection \<Rightarrow> bool" where
  "was_idle_for now ms c \<longleftrightarrow> ms \<le> unat now - unat (conn_last_used c)"

definition next_available_id :: "u16 \<Rightarrow> (u16 \<times> 'a) list \<Rightarrow> u16 option" where
  "next_available_id start ps =
     List.find (\<lambda>i. i \<notin> fst ` set ps) (map of_nat ([unat start..<2 ^ 16] @ [0..<unat start]))"

text \<open>
  The part of \<open>query\<close> under the lock: choose an ID, build the frame, register the query. The result
  is the ID and the frame, an early error, or \<open>None\<close> when no ID is free.
\<close>

definition register_query ::
  "nat \<Rightarrow> bytes \<Rightarrow> u16 \<Rightarrow> dot_connection \<Rightarrow> ((dot_failure + u16 \<times> bytes) \<times> dot_connection) option" where
  "register_query t query start c =
     (if dead c then Some (Inl (Connection ''DoT connection closed''), c)
      else do {
        i \<leftarrow> next_available_id start (pending c);
        let outgoing = set_id query i;
        Some (if 2 ^ 16 \<le> length outgoing then (Inl (Protocol ''query too large for DoT framing''), c)
              else case question_key_from_wire outgoing of
                None \<Rightarrow> (Inl (Protocol ''query has no valid question''), c)
              | Some k \<Rightarrow>
                  (Inr (i, be16 (of_nat (length outgoing)) @ outgoing),
                   c\<lparr>pending := (i, \<lparr>reply_to = t, expected_question = k\<rparr>) # pending c\<rparr>))
      })"

text \<open>\<open>fail\<close>: the swap of the flag decides who drains.\<close>

definition mark_dead :: "dot_connection \<Rightarrow> bool \<times> dot_connection" where
  "mark_dead c = (\<not> dead c, c\<lparr>dead := True, closed := True\<rparr>)"

definition drain_pending :: "dot_failure \<Rightarrow> dot_connection \<Rightarrow> (nat \<times> dot_reply) list \<times> dot_connection" where
  "drain_pending err c =
     (map (\<lambda>(_, p). (reply_to p, Inl err)) (pending c),
      release_permits (length (pending c)) (c\<lparr>pending := []\<rparr>))"

definition remove_pending :: "u16 \<Rightarrow> dot_connection \<Rightarrow> pending_query option \<times> dot_connection" where
  "remove_pending i c =
     (case map_of (pending c) i of
        None \<Rightarrow> (None, c)
      | Some p \<Rightarrow> (Some p, release_permits 1 (c\<lparr>pending := filter (\<lambda>(j, _). j \<noteq> i) (pending c)\<rparr>)))"

text \<open>
  What the reader does with a frame: the reply it sends and the failure it ends with, if any. The
  reads of the length (two bytes) and of the body are arguments: their bytes, an error, or for the
  body a timeout. The messages leave out the ID the code prints.
\<close>

datatype read = Bytes bytes | Read_error string | Timed_out

definition read_frame :: "string + bytes \<Rightarrow> read \<Rightarrow> dot_failure + bytes" where
  "read_frame len body =
     (case len of
        Inr l \<Rightarrow>
          if u16_of_be (l ! 0) (l ! 1) = 0 then Inl (Protocol ''empty DoT response'')
          else (case body of
             Bytes w \<Rightarrow> Inr w
           | Read_error e \<Rightarrow> Inl (Connection (''failed to read DoT response: '' @ e))
           | Timed_out \<Rightarrow> Inl (Connection ''timed out reading DoT response''))
      | Inl e \<Rightarrow> Inl (Connection (''failed to read DoT response length: '' @ e)))"

definition dot_receive ::
  "bytes \<Rightarrow> dot_connection \<Rightarrow> (nat \<times> dot_reply) list \<times> dot_failure option \<times> dot_connection" where
  "dot_receive wire c =
     (case get_range wire 0 2 of
        None \<Rightarrow> ([], Some (Protocol ''short DoT response''), c)
      | Some b \<Rightarrow>
          (case remove_pending (u16_of_be (b ! 0) (b ! 1)) c of
             (Some p, c) \<Rightarrow>
               if (case get wire 2 of Some flags \<Rightarrow> flags AND 0x80 \<noteq> 0 | None \<Rightarrow> False) \<and>
                  question_key_matches (expected_question p) wire
               then ([(reply_to p, Inr wire)], None, c)
               else ([(reply_to p, Inl (Protocol ''DoT response question mismatch''))],
                     Some (Connection ''DoT connection closed after response question mismatch''), c)
           | (None, c) \<Rightarrow> ([], Some (Protocol ''unexpected DoT response ID''), c)))"

subsection \<open>Steps\<close>

text \<open>
  Where a task is in \<open>query\<close>: it holds a permit, has passed the first check, has registered its query
  under an ID but not sent the frame, waits for the reply, was dropped while waiting, or has
  returned early. \<open>Panicked\<close> is the panic of \<open>next_available_id\<close>.
\<close>

datatype stage =
  Reserved | Entered | Unsent u16 bytes | Awaiting u16 | Gone u16 | Returned dot_failure | Panicked

datatype reader = Reading | Failing dot_failure | Stopped

record dot_world =
  conn :: dot_connection
  tasks :: "nat \<Rightarrow> (bytes \<times> stage) option"
  answered :: "(nat \<times> dot_reply) list"
  draining :: "dot_failure list"
  writer_up :: bool
  reader_at :: reader

definition dot_world_new :: "u64 \<Rightarrow> dot_world" where
  "dot_world_new now =
     \<lparr>conn = dot_connection_start now, tasks = Map.empty, answered = [], draining = [], writer_up = True,
      reader_at = Reading\<rparr>"

datatype dot_event =
    Reserve nat bytes | Enter nat u64 | Register nat u16 | Send nat | Abandon nat | Guard nat
  | Receive "string + bytes" read | Reader_fails | Reader_stops | Drain | Write_fails string | Writer_stops
  | Kill dot_failure

definition dot_fail :: "dot_failure \<Rightarrow> dot_world \<Rightarrow> dot_world" where
  "dot_fail err w =
     (let (first, c) = mark_dead (conn w)
      in w\<lparr>conn := c, draining := (if first then draining w @ [err] else draining w)\<rparr>)"

definition set_stage :: "nat \<Rightarrow> (bytes \<times> stage) option \<Rightarrow> dot_world \<Rightarrow> dot_world" where
  "set_stage t x w = w\<lparr>tasks := (tasks w)(t := x)\<rparr>"

definition is_gone :: "(bytes \<times> stage) option \<Rightarrow> bool" where
  "is_gone x \<longleftrightarrow> (case x of Some (_, Gone _) \<Rightarrow> True | _ \<Rightarrow> False)"

fun dot_step :: "dot_event \<Rightarrow> dot_world \<Rightarrow> dot_world option" where
  "dot_step (Reserve t query) w =
     (if tasks w t \<noteq> None then None
      else map_option (\<lambda>c. set_stage t (Some (query, Reserved)) (w\<lparr>conn := c\<rparr>)) (try_reserve (conn w)))" |
  "dot_step (Enter t now) w =
     (case tasks w t of
        Some (q, Reserved) \<Rightarrow>
          Some (if dead (conn w)
            then set_stage t (Some (q, Returned (Connection ''DoT connection closed'')))
              (w\<lparr>conn := release_permits 1 (conn w)\<rparr>)
            else set_stage t (Some (q, Entered)) (w\<lparr>conn := conn w\<lparr>conn_last_used := now\<rparr>\<rparr>))
      | _ \<Rightarrow> None)" |
  "dot_step (Register t start) w =
     (case tasks w t of
        Some (q, Entered) \<Rightarrow>
          Some (case register_query t q start (conn w) of
             None \<Rightarrow> set_stage t (Some (q, Panicked)) w
           | Some (Inl err, c) \<Rightarrow> set_stage t (Some (q, Returned err)) (w\<lparr>conn := release_permits 1 c\<rparr>)
           | Some (Inr (i, frame), c) \<Rightarrow> set_stage t (Some (q, Unsent i frame)) (w\<lparr>conn := c\<rparr>))
      | _ \<Rightarrow> None)" |
  "dot_step (Send t) w =
     (case tasks w t of
        Some (q, Unsent i frame) \<Rightarrow>
          (let w' = set_stage t (Some (q, Awaiting i)) w
           in Some (if writer_up w then w'\<lparr>conn := conn w\<lparr>writes := writes (conn w) @ [frame]\<rparr>\<rparr>
                    else dot_fail (Connection ''DoT writer stopped'') w'))
      | _ \<Rightarrow> None)" |
  "dot_step (Abandon t) w =
     (case tasks w t of
        Some (q, Reserved) \<Rightarrow> Some (set_stage t None (w\<lparr>conn := release_permits 1 (conn w)\<rparr>))
      | Some (q, Awaiting i) \<Rightarrow> Some (set_stage t (Some (q, Gone i)) w)
      | _ \<Rightarrow> None)" |
  "dot_step (Guard t) w =
     (case tasks w t of
        Some (_, Gone i) \<Rightarrow>
          (case map_of (pending (conn w)) i of
             Some p \<Rightarrow>
               if is_gone (tasks w (reply_to p))
               then Some (dot_fail (Connection ''DoT connection closed after an abandoned query timed out'') w)
               else Some w
           | None \<Rightarrow> Some w)
      | _ \<Rightarrow> None)" |
  "dot_step (Receive len body) w =
     (if reader_at w \<noteq> Reading then None
      else case read_frame len body of
        Inl err \<Rightarrow> Some (w\<lparr>reader_at := Failing err\<rparr>)
      | Inr wire \<Rightarrow>
          (let (sent, err, c) = dot_receive wire (conn w)
           in Some (w\<lparr>conn := c, answered := answered w @ sent,
                     reader_at := (case err of None \<Rightarrow> Reading | Some e \<Rightarrow> Failing e)\<rparr>)))" |
  "dot_step Reader_fails w =
     (case reader_at w of Failing err \<Rightarrow> Some (dot_fail err (w\<lparr>reader_at := Stopped\<rparr>)) | _ \<Rightarrow> None)" |
  "dot_step Reader_stops w = (if closed (conn w) then Some (w\<lparr>reader_at := Stopped\<rparr>) else None)" |
  "dot_step Drain w =
     (case draining w of
        [] \<Rightarrow> None
      | err # errs \<Rightarrow>
          (let (sent, c) = drain_pending err (conn w)
           in Some (w\<lparr>conn := c, answered := answered w @ sent, draining := errs\<rparr>)))" |
  "dot_step (Write_fails e) w =
     (if writer_up w
      then Some (dot_fail (Connection (''failed to write DoT query: '' @ e)) (w\<lparr>writer_up := False\<rparr>))
      else None)" |
  "dot_step Writer_stops w = (if closed (conn w) then Some (w\<lparr>writer_up := False\<rparr>) else None)" |
  "dot_step (Kill err) w = Some (dot_fail err w)"

fun dot_run :: "dot_event list \<Rightarrow> dot_world \<Rightarrow> dot_world option" where
  "dot_run [] w = Some w" |
  "dot_run (e # es) w = Option.bind (dot_step e w) (dot_run es)"

end
