(* ===== verification/Upstream.thy ===== *)
theory Upstream
  imports Wire Config Dot_Connection
begin

text \<open>
  The upstream resolvers (\<open>dns/upstream.rs\<close>): one attempt over DNS-over-HTTPS or DNS-over-TLS with its
  retry and its checks of the response, and the three strategies that spread a query over several
  upstreams. What the network does is an argument: the results of the HTTP requests, of the attempts on
  connections, and for the strategies when each attempt ends and in which order.
\<close>

subsection \<open>Errors\<close>

text \<open>\<open>reqwest::Error\<close>: the classification the retry reads.\<close>

record http_error =
  is_timeout :: bool
  is_connect :: bool
  is_request :: bool
  is_body :: bool

datatype upstream_error =
    Doh_failed http_error | Doh_retry_failed http_error | No_question | Id_mismatch | Not_a_response | Question_mismatch
  | Not_connected | Dot_failed dot_failure
  | Timed_out_querying bytes | No_upstreams | All_hedged_failed | All_hedged_timed_out

subsection \<open>One attempt over HTTPS\<close>

definition is_retryable :: "http_error \<Rightarrow> bool" where
  "is_retryable e \<longleftrightarrow> \<not> is_timeout e \<and> (is_connect e \<or> is_request e \<or> is_body e)"

text \<open>\<open>send n wire\<close> is the result of the \<open>n\<close>-th request of this attempt.\<close>

definition query_doh :: "(nat \<Rightarrow> bytes \<Rightarrow> http_error + bytes) \<Rightarrow> bytes \<Rightarrow> upstream_error + bytes" where
  "query_doh send wire =
     (case send 0 wire of
        Inr resp \<Rightarrow> Inr resp
      | Inl e \<Rightarrow>
          if is_retryable e
          then (case send 1 wire of Inr resp \<Rightarrow> Inr resp | Inl e \<Rightarrow> Inl (Doh_retry_failed e))
          else Inl (Doh_failed e))"

definition resolve_doh ::
  "(nat \<Rightarrow> bytes \<Rightarrow> http_error + bytes) \<Rightarrow> u16 \<Rightarrow> bytes \<Rightarrow> upstream_error + bytes" where
  "resolve_doh send expected_id query =
     (let outgoing = set_id query expected_id
      in case question_key_from_wire outgoing of
           None \<Rightarrow> Inl No_question
         | Some expected \<Rightarrow>
             and_then (query_doh send outgoing) (\<lambda>response.
               if map_option (\<lambda>b. u16_of_be (b ! 0) (b ! 1)) (get_range response 0 2) \<noteq> Some expected_id
               then Inl Id_mismatch
               else if \<not> (case get response 2 of Some flags \<Rightarrow> flags AND 0x80 \<noteq> 0 | None \<Rightarrow> False)
               then Inl Not_a_response
               else if \<not> question_key_matches expected response then Inl Question_mismatch
               else Inr response))"

subsection \<open>One attempt over TLS\<close>

text \<open>
  The loop of \<open>query_wire\<close>, over the outcomes of its rounds: no connection, or the reply of the query
  on the connection it got. \<open>None\<close> when the loop goes on after the last given outcome.
\<close>

fun query_wire_loop :: "bool \<Rightarrow> (upstream_error + dot_reply) list \<Rightarrow> (upstream_error + bytes) option" where
  "query_wire_loop retried [] = None" |
  "query_wire_loop retried (a # as) =
     (case a of
        Inl e \<Rightarrow> Some (Inl e)
      | Inr (Inr response) \<Rightarrow> Some (Inr response)
      | Inr (Inl (Connection m)) \<Rightarrow> if \<not> retried then query_wire_loop True as else Some (Inl (Dot_failed (Connection m)))
      | Inr (Inl (Protocol m)) \<Rightarrow> Some (Inl (Dot_failed (Protocol m))))"

subsection \<open>Strategies\<close>

abbreviation (input) UPSTREAM_TIMEOUT :: nat where "UPSTREAM_TIMEOUT \<equiv> 5 * 10 ^ 9"

text \<open>
  An attempt at an upstream: its label, how long it takes if it ends at all, and its result. With a
  time limit an attempt that has not ended by then times out.
\<close>

record attempt =
  att_label :: bytes
  att_time :: "nat option"
  att_result :: "upstream_error + bytes"

definition within :: "nat \<Rightarrow> attempt \<Rightarrow> bool" where
  "within limit a \<longleftrightarrow> (case att_time a of None \<Rightarrow> False | Some d \<Rightarrow> d \<le> limit)"

fun sequential_loop ::
  "nat \<Rightarrow> nat \<Rightarrow> attempt list \<Rightarrow> upstream_error option \<Rightarrow> (upstream_error + bytes) \<times> nat" where
  "sequential_loop deadline now [] last_err =
     (Inl (case last_err of None \<Rightarrow> No_upstreams | Some e \<Rightarrow> e), now)" |
  "sequential_loop deadline now (a # as) last_err =
     (let remaining = deadline - now
      in if remaining = 0 then (Inl (Timed_out_querying (att_label a)), now)
         else if within remaining a
         then (case att_result a of
                 Inr response \<Rightarrow> (Inr response, now + the (att_time a))
               | Inl e \<Rightarrow> sequential_loop deadline (now + the (att_time a)) as (Some e))
         else sequential_loop deadline (now + remaining) as (Some (Timed_out_querying (att_label a))))"

text \<open>The result and the time at which it is there.\<close>

definition resolve_sequential :: "nat \<Rightarrow> attempt list \<Rightarrow> (upstream_error + bytes) \<times> nat" where
  "resolve_sequential now as = sequential_loop (now + UPSTREAM_TIMEOUT) now as None"

text \<open>
  The hedged strategy: the attempts in flight, the next upstream to try and the last error. What
  happens next is an event: an attempt in flight ends, the hedge delay is over, or the time limit of
  the whole query.
\<close>

record hedge =
  active :: "nat list"
  next_up :: nat
  last_err :: "upstream_error option"

datatype hedge_event = Ended nat | Delay_over | Expired

text \<open>
  A round of the loop has two parts: starting an attempt if none is in flight, and waiting. Each
  returns, goes on, is not possible with the given event, or panics.
\<close>

datatype 'a round = Return "upstream_error + bytes" | Continue 'a | Impossible | Panic

definition hedge_push :: "nat \<Rightarrow> hedge \<Rightarrow> hedge round" where
  "hedge_push n s =
     (if next_up s < n then Continue (s\<lparr>active := active s @ [next_up s], next_up := next_up s + 1\<rparr>) else Panic)"

definition hedge_fill :: "nat \<Rightarrow> hedge \<Rightarrow> hedge round" where
  "hedge_fill n s =
     (if active s = []
      then if next_up s = n then Return (Inl (case last_err s of None \<Rightarrow> All_hedged_failed | Some e \<Rightarrow> e))
           else hedge_push n s
      else Continue s)"

definition hedge_wait :: "(nat \<Rightarrow> upstream_error + bytes) \<Rightarrow> nat \<Rightarrow> hedge_event \<Rightarrow> hedge \<Rightarrow> hedge round" where
  "hedge_wait results n ev s =
     (if active s = [] then Panic
      else case ev of
        Expired \<Rightarrow> Return (Inl All_hedged_timed_out)
      | Ended i \<Rightarrow>
          if i \<notin> set (active s) then Impossible
          else (case results i of
                  Inr response \<Rightarrow> Return (Inr response)
                | Inl e \<Rightarrow>
                    (let s = s\<lparr>active := remove1 i (active s), last_err := Some e\<rparr>
                     in if next_up s = n then Continue s else hedge_push n s))
      | Delay_over \<Rightarrow> if next_up s = n then Impossible else hedge_push n s)"

fun hedge_loop :: "(nat \<Rightarrow> upstream_error + bytes) \<Rightarrow> nat \<Rightarrow> hedge_event list \<Rightarrow> hedge \<Rightarrow> hedge round" where
  "hedge_loop results n [] s = hedge_fill n s" |
  "hedge_loop results n (ev # evs) s =
     (case hedge_fill n s of
        Continue s \<Rightarrow> (case hedge_wait results n ev s of Continue s \<Rightarrow> hedge_loop results n evs s | r \<Rightarrow> r)
      | r \<Rightarrow> r)"

definition resolve_hedged :: "(nat \<Rightarrow> upstream_error + bytes) \<Rightarrow> nat \<Rightarrow> hedge_event list \<Rightarrow> hedge round" where
  "resolve_hedged results n evs =
     (if n = 0 then Return (Inl No_upstreams)
      else hedge_loop results n evs \<lparr>active = [], next_up = 0, last_err = None\<rparr>)"

text \<open>
  The racing strategy: all attempts start at once, each with its own time limit, and \<open>select_ok\<close> takes
  the first success, or the last error when all have failed. \<open>order\<close> lists the attempts in the order
  in which they end; \<open>None\<close> when the race is not decided after them.
\<close>

definition race_result :: "attempt \<Rightarrow> upstream_error + bytes" where
  "race_result a = (if within UPSTREAM_TIMEOUT a then att_result a else Inl (Timed_out_querying (att_label a)))"

fun select_ok :: "(nat \<Rightarrow> upstream_error + bytes) \<Rightarrow> nat list \<Rightarrow> nat list \<Rightarrow> (upstream_error + bytes) option" where
  "select_ok results running [] = None" |
  "select_ok results running (i # order) =
     (if i \<notin> set running then None
      else case results i of
        Inr response \<Rightarrow> Some (Inr response)
      | Inl e \<Rightarrow>
          (let running = remove1 i running
           in if running = [] then Some (Inl e) else select_ok results running order))"

definition resolve_race :: "attempt list \<Rightarrow> nat list \<Rightarrow> (upstream_error + bytes) option" where
  "resolve_race as order =
     (if as = [] then Some (Inl No_upstreams)
      else select_ok (\<lambda>i. race_result (as ! i)) [0..<length as] order)"

text \<open>\<open>resolve_wire\<close>: the result of the strategy with the ID of the query.\<close>

definition resolve_wire :: "bytes \<Rightarrow> upstream_error + bytes \<Rightarrow> upstream_error + bytes" where
  "resolve_wire query result =
     (let original_id = (case get_range query 0 2 of None \<Rightarrow> 0 | Some b \<Rightarrow> u16_of_be (b ! 0) (b ! 1))
      in and_then result (\<lambda>response. Inr (set_id response original_id)))"

end
