(* ===== verification/Resolver.thy ===== *)
theory Resolver
  imports Handler Inflight Upstream
begin

text \<open>
  The resolver as a whole: the tasks of the query handler and of the background refresh
  (\<open>dns/handler.rs\<close>) over the state they share, the cache, the block list and the registry of running
  fetches. The runtime has one thread, so a task runs alone from one suspension to the next; each
  such stretch is a step, and a list of events is one interleaving of the tasks. The listeners, the
  timers, the network and the publication of a new block list appear as events.
\<close>

subsection \<open>State\<close>

text \<open>A task that waits for a fetch: for a client, or for the refresh of a cached answer.\<close>

datatype ('rt, 'cl) job =
    Client bytes "('rt, 'cl) parsed_query" "('rt, 'cl) cache_key"
  | Refresher "('rt, 'cl) refresh_task"

fun job_request :: "('rt, 'cl) job \<Rightarrow> bytes" where
  "job_request (Client raw q k) = raw" |
  "job_request (Refresher t) = task_request t"

fun job_key :: "('rt, 'cl) job \<Rightarrow> ('rt, 'cl) cache_key" where
  "job_key (Client raw q k) = k" |
  "job_key (Refresher t) = task_key t"

type_synonym ('rt, 'cl) flight_id = "'rt \<times> 'cl \<times> u8 \<times> inline_name"

record ('h, 'rt, 'cl) resolver =
  app :: "('h, 'rt, 'cl) app_state"
  flights :: "(('rt, 'cl) flight_id, bytes) registry"
  jobs :: "nat \<Rightarrow> ('rt, 'cl) job option"
  next_job :: nat
  replies :: "(bytes \<times> bytes \<times> path) list"

definition resolver_new :: "('h, 'rt, 'cl) app_state \<Rightarrow> ('h, 'rt, 'cl) resolver" where
  "resolver_new st = \<lparr>app = st, flights = registry_new, jobs = Map.empty, next_job = 0, replies = []\<rparr>"

definition set_cache :: "('h, 'rt, 'cl) response_cache \<Rightarrow> ('h, 'rt, 'cl) resolver \<Rightarrow> ('h, 'rt, 'cl) resolver" where
  "set_cache c s = s\<lparr>app := (app s)\<lparr>app_cache := c\<rparr>\<rparr>"

subsection \<open>Steps\<close>

datatype event =
    Arrive instant instant bytes        \<comment> \<open>a listener hands a message to the handler\<close>
  | Enter nat                           \<comment> \<open>the task of a refresh starts\<close>
  | Begin nat                           \<comment> \<open>a task asks the upstreams\<close>
  | Fetched nat bytes instant instant instant "upstream_error + bytes"   \<comment> \<open>their result for the request\<close>
  | Observe nat                         \<comment> \<open>a waiting task finds the result of another one\<close>
  | Depart nat instant                  \<comment> \<open>a task with a result ends\<close>
  | Abandon nat                         \<comment> \<open>the connection of a waiting client is closed\<close>
  | Tick instant                        \<comment> \<open>a round of the refresh loop\<close>
  | Expire instant nat nat              \<comment> \<open>a batch of the sweep of the cache\<close>
  | Publish domain_index                \<comment> \<open>a new block list\<close>

text \<open>
  A new task, and its first step, in which it enters the registry with the key of its query. A query
  of a client does both at once, the task of a refresh is started later by the runtime.
\<close>

definition spawn :: "('rt, 'cl) job \<Rightarrow> ('h, 'rt, 'cl) resolver \<Rightarrow> ('h, 'rt, 'cl) resolver" where
  "spawn j s = s\<lparr>jobs := (jobs s)(next_job s \<mapsto> j), next_job := next_job s + 1\<rparr>"

definition join :: "nat \<Rightarrow> ('h, 'rt, 'cl) resolver \<Rightarrow> ('h, 'rt, 'cl) resolver option" where
  "join t s =
     (case jobs s t of
        None \<Rightarrow> None
      | Some j \<Rightarrow> map_option (\<lambda>f. s\<lparr>flights := f\<rparr>) (flight_step (Join t (flight_key (job_key j))) (flights s)))"

text \<open>A task that has its result: the client gets its reply, a refresh gives back its permit.\<close>

definition complete ::
  "('h, 'rt, 'cl) services \<Rightarrow> instant \<Rightarrow> nat \<Rightarrow> bytes \<Rightarrow> ('h, 'rt, 'cl) resolver \<Rightarrow> ('h, 'rt, 'cl) resolver option" where
  "complete sv now t w s =
     (let s' = s\<lparr>jobs := (jobs s)(t := None)\<rparr>
      in case jobs s t of
           None \<Rightarrow> Some s
         | Some (Client raw q k) \<Rightarrow> Some (s'\<lparr>replies := (raw, resolve_miss q w, Miss) # replies s\<rparr>)
         | Some (Refresher task) \<Rightarrow>
             map_option (\<lambda>c. set_cache c s') (finish_refresh sv now task (app_cache (app s))))"

definition arrive ::
  "('h, 'rt, 'cl) services \<Rightarrow> instant \<Rightarrow> instant \<Rightarrow> bytes \<Rightarrow> ('h, 'rt, 'cl) resolver
    \<Rightarrow> ('h, 'rt, 'cl) resolver option" where
  "arrive sv t1 t2 raw s = do {
     (r, task, st) \<leftarrow> handle_query sv t1 t2 raw (app s);
     let s = (case task of None \<Rightarrow> s\<lparr>app := st\<rparr> | Some task \<Rightarrow> spawn (Refresher task) (s\<lparr>app := st\<rparr>));
     (case r of
        Reply w path \<Rightarrow> Some (s\<lparr>replies := (raw, w, path) # replies s\<rparr>)
      | Forward k \<Rightarrow> 
          (case parse_request sv raw of
             None \<Rightarrow> Some s
           | Some (q, _) \<Rightarrow> join (next_job s) (spawn (Client raw q k) s)))
   }"

definition fetched ::
  "('h, 'rt, 'cl) services \<Rightarrow> nat \<Rightarrow> instant \<Rightarrow> instant \<Rightarrow> instant \<Rightarrow> upstream_error + bytes \<Rightarrow> ('h, 'rt, 'cl) resolver
    \<Rightarrow> ('h, 'rt, 'cl) resolver option" where
  "fetched sv t t1 t2 t3 result s =
     (case jobs s t of
        None \<Rightarrow> Some s
      | Some j \<Rightarrow> do {
          (w, c) \<leftarrow> fetch_from_upstream sv t1 t2 t3 (job_request j) (job_key j) result (app_cache (app s));
          f \<leftarrow> flight_step (Finish t w) (flights s);
          let s' = set_cache c s\<lparr>flights := f\<rparr>;
          (if phases (flights s) t = Some Direct then complete sv t3 t w s' else Some s')
        })"

text \<open>What the registry does in a step of a task, and which events are possible.\<close>

fun resolver_step ::
  "('h, 'rt, 'cl) services \<Rightarrow> event \<Rightarrow> ('h, 'rt, 'cl) resolver \<Rightarrow> ('h, 'rt, 'cl) resolver option" where
  "resolver_step sv (Arrive t1 t2 raw) s = arrive sv t1 t2 raw s" |
  "resolver_step sv (Enter t) s = join t s" |
  "resolver_step sv (Begin t) s = map_option (\<lambda>f. s\<lparr>flights := f\<rparr>) (flight_step (Lead t) (flights s))" |
  "resolver_step sv (Fetched t request t1 t2 t3 result) s = fetched sv t t1 t2 t3 result s" |
  "resolver_step sv (Observe t) s = map_option (\<lambda>f. s\<lparr>flights := f\<rparr>) (flight_step (Follow t) (flights s))" |
  "resolver_step sv (Depart t now) s =
     (case phases (flights s) t of
        Some (Got k w) \<Rightarrow> do {
          f \<leftarrow> flight_step (Leave t) (flights s);
          complete sv now t w (s\<lparr>flights := f\<rparr>)
        }
      | _ \<Rightarrow> None)" |
  "resolver_step sv (Abandon t) s =
     map_option (\<lambda>f. s\<lparr>flights := f, jobs := (jobs s)(t := None)\<rparr>) (flight_step (Drop t) (flights s))" |
  "resolver_step sv (Tick now) s = do {
     (ts, st) \<leftarrow> refresh_round sv now (app s);
     Some (fold (\<lambda>task. spawn (Refresher task)) ts (s\<lparr>app := st\<rparr>))
   }" |
  "resolver_step sv (Expire now a b) s =
     map_option (\<lambda>c. set_cache c s) (evict_expired_batch (cache_env_of sv) now a b (app_cache (app s)))" |
  "resolver_step sv (Publish x) s = Some (s\<lparr>app := (app s)\<lparr>app_blocklist := x\<rparr>\<rparr>)"

fun possible :: "event \<Rightarrow> ('h, 'rt, 'cl) resolver \<Rightarrow> bool" where
  "possible (Enter t) s = (phases (flights s) t = None \<and> jobs s t \<noteq> None)" |
  "possible (Begin t) s = (flight_step (Lead t) (flights s) \<noteq> None)" |
  "possible (Fetched t request t1 t2 t3 result) s =
     ((case phases (flights s) t of Some (Fetching k c) \<Rightarrow> True | Some Direct \<Rightarrow> True | _ \<Rightarrow> False) \<and>
      (case jobs s t of None \<Rightarrow> False | Some j \<Rightarrow> job_request j = request))" |
  "possible (Observe t) s = (flight_step (Follow t) (flights s) \<noteq> None)" |
  "possible (Depart t now) s = (case phases (flights s) t of Some (Got k w) \<Rightarrow> True | _ \<Rightarrow> False)" |
  "possible (Abandon t) s =
     (flight_step (Drop t) (flights s) \<noteq> None \<and> (case jobs s t of Some (Client raw q k) \<Rightarrow> True | _ \<Rightarrow> False))" |
  "possible e s = True"

text \<open>A run stops with \<open>None\<close> at an event that is not possible, or at a panic.\<close>

fun resolver_run ::
  "('h, 'rt, 'cl) services \<Rightarrow> event list \<Rightarrow> ('h, 'rt, 'cl) resolver \<Rightarrow> ('h, 'rt, 'cl) resolver option" where
  "resolver_run sv [] s = Some s" |
  "resolver_run sv (e # es) s = (if possible e s then Option.bind (resolver_step sv e s) (resolver_run sv es) else None)"

end
