(* ===== verification/Dot_Correct.thy ===== *)
theory Dot_Correct
  imports Dot_Connection
begin

text \<open>
  The invariant of a pipelined connection and what it gives: IDs never run out, every reply goes to
  the query it answers, and no query is left behind on a dead connection.
\<close>

subsection \<open>Free IDs\<close>

lemma next_available_id_free:
  assumes "next_available_id start ps = Some i"
  shows "i \<notin> fst ` set ps"
  using assms by (auto simp: next_available_id_def find_Some_iff)

lemma next_available_id_exists:
  assumes "length ps < 2 ^ 16"
  shows "\<exists>i. next_available_id start ps = Some i"
proof (rule ccontr)
  let ?ids = "map of_nat ([unat start..<2 ^ 16] @ [0..<unat start]) :: u16 list"
  assume "\<not> ?thesis"
  then have "List.find (\<lambda>i. i \<notin> fst ` set ps) ?ids = None" by (simp add: next_available_id_def)
  then have all: "i \<in> fst ` set ps" if "i \<in> set ?ids" for i using that by (simp only: find_None_iff) blast
  have none: "of_nat n \<in> fst ` set ps" if "n < 2 ^ 16" for n
    using that by (intro all) (cases "n < unat start"; auto)
  have "(UNIV :: u16 set) \<subseteq> fst ` set ps"
  proof
    fix i :: u16
    show "i \<in> fst ` set ps" using none [of "unat i"] unsigned_less [of i, where 'a = nat] by simp
  qed
  then have "card (UNIV :: u16 set) \<le> card (fst ` set ps)" by (simp add: card_mono)
  also have "\<dots> \<le> card (set ps)" by (simp add: card_image_le)
  also have "\<dots> \<le> length ps" by (rule card_length)
  finally show False using assms by (simp add: card_word)
qed

subsection \<open>The invariant\<close>

fun stage_id :: "stage \<Rightarrow> u16 option" where
  "stage_id (Unsent i _) = Some i" |
  "stage_id (Awaiting i) = Some i" |
  "stage_id (Gone i) = Some i" |
  "stage_id _ = None"

definition holds_permit :: "(bytes \<times> stage) option \<Rightarrow> bool" where
  "holds_permit x \<longleftrightarrow> (case x of Some (_, Reserved) \<Rightarrow> True | Some (_, Entered) \<Rightarrow> True | _ \<Rightarrow> False)"

text \<open>A reply to the query \<open>q\<close> sent under the ID \<open>i\<close>: its ID, its QR bit and its question are right.\<close>

definition answers_query :: "bytes \<Rightarrow> u16 \<Rightarrow> bytes \<Rightarrow> bool" where
  "answers_query q i wire \<longleftrightarrow>
     (\<exists>k. question_key_from_wire (set_id q i) = Some k \<and> question_key_matches k wire) \<and>
     2 \<le> length wire \<and> u16_of_be (wire ! 0) (wire ! 1) = i \<and> 2 < length wire \<and> wire ! 2 AND 0x80 \<noteq> 0"

definition permits_ok :: "nat \<Rightarrow> nat \<Rightarrow> (nat \<Rightarrow> (bytes \<times> stage) option) \<Rightarrow> bool" where
  "permits_ok cap n ts \<longleftrightarrow>
     finite {t. holds_permit (ts t)} \<and> cap + n + card {t. holds_permit (ts t)} = MAX_DOT_IN_FLIGHT"

definition registered :: "(nat \<Rightarrow> (bytes \<times> stage) option) \<Rightarrow> nat \<Rightarrow> bytes \<Rightarrow> u16 \<Rightarrow> bool" where
  "registered ts t q i \<longleftrightarrow> (\<exists>st. ts t = Some (q, st) \<and> stage_id st = Some i)"

definition pending_ok ::
  "(u16 \<times> pending_query) list \<Rightarrow> (nat \<Rightarrow> (bytes \<times> stage) option) \<Rightarrow> (nat \<times> dot_reply) list \<Rightarrow> bool" where
  "pending_ok ps ts ans \<longleftrightarrow>
     distinct (map fst ps) \<and>
     (\<forall>(i, p)\<in>set ps. reply_to p \<notin> fst ` set ans \<and>
        (\<exists>q. registered ts (reply_to p) q i \<and> question_key_from_wire (set_id q i) = Some (expected_question p)))"

definition answered_ok :: "(nat \<times> dot_reply) list \<Rightarrow> (nat \<Rightarrow> (bytes \<times> stage) option) \<Rightarrow> bool" where
  "answered_ok ans ts \<longleftrightarrow>
     distinct (map fst ans) \<and>
     (\<forall>(t, r)\<in>set ans. \<exists>q i. registered ts t q i \<and> (\<forall>wire. r = Inr wire \<longrightarrow> answers_query q i wire))"

definition registered_ok ::
  "(nat \<Rightarrow> (bytes \<times> stage) option) \<Rightarrow> (u16 \<times> pending_query) list \<Rightarrow> (nat \<times> dot_reply) list \<Rightarrow> bool" where
  "registered_ok ts ps ans \<longleftrightarrow>
     (\<forall>t q i. registered ts t q i \<longrightarrow> t \<in> reply_to ` snd ` set ps \<or> t \<in> fst ` set ans)"

definition dead_ok :: "bool \<Rightarrow> dot_failure list \<Rightarrow> (u16 \<times> pending_query) list \<Rightarrow> bool" where
  "dead_ok d drn ps \<longleftrightarrow> (drn \<noteq> [] \<longrightarrow> d) \<and> (d \<and> drn = [] \<longrightarrow> ps = [])"

definition no_panic :: "(nat \<Rightarrow> (bytes \<times> stage) option) \<Rightarrow> bool" where
  "no_panic ts \<longleftrightarrow> (\<forall>t q. ts t \<noteq> Some (q, Panicked))"

definition dot_inv :: "dot_world \<Rightarrow> bool" where
  "dot_inv w \<longleftrightarrow>
     permits_ok (capacity (conn w)) (length (pending (conn w))) (tasks w) \<and>
     pending_ok (pending (conn w)) (tasks w) (answered w) \<and> answered_ok (answered w) (tasks w) \<and>
     registered_ok (tasks w) (pending (conn w)) (answered w) \<and>
     dead_ok (dead (conn w)) (draining w) (pending (conn w)) \<and> no_panic (tasks w)"

lemma dot_inv_new: "dot_inv (dot_world_new now)"
  by (simp add: dot_inv_def dot_world_new_def dot_connection_start_def permits_ok_def pending_ok_def answered_ok_def
      registered_ok_def dead_ok_def no_panic_def holds_permit_def registered_def)

lemma pending_okI:
  assumes "distinct (map fst ps)"
    and "\<And>i p. (i, p) \<in> set ps \<Longrightarrow> reply_to p \<notin> fst ` set ans"
    and "\<And>i p. (i, p) \<in> set ps \<Longrightarrow>
      \<exists>q. registered ts (reply_to p) q i \<and> question_key_from_wire (set_id q i) = Some (expected_question p)"
  shows "pending_ok ps ts ans"
  using assms unfolding pending_ok_def by blast

lemma pending_okD:
  assumes "pending_ok ps ts ans"
  shows "distinct (map fst ps)" "(i, p) \<in> set ps \<Longrightarrow> reply_to p \<notin> fst ` set ans"
    "(i, p) \<in> set ps \<Longrightarrow>
      \<exists>q. registered ts (reply_to p) q i \<and> question_key_from_wire (set_id q i) = Some (expected_question p)"
  using assms unfolding pending_ok_def by auto

lemma answered_okI:
  assumes "distinct (map fst ans)"
    and "\<And>t r. (t, r) \<in> set ans \<Longrightarrow> \<exists>q i. registered ts t q i \<and> (\<forall>wire. r = Inr wire \<longrightarrow> answers_query q i wire)"
  shows "answered_ok ans ts"
  using assms unfolding answered_ok_def by auto

lemma answered_okD:
  assumes "answered_ok ans ts"
  shows "distinct (map fst ans)"
    "(t, r) \<in> set ans \<Longrightarrow> \<exists>q i. registered ts t q i \<and> (\<forall>wire. r = Inr wire \<longrightarrow> answers_query q i wire)"
  using assms unfolding answered_ok_def by auto

lemma registered_okD:
  "registered_ok ts ps ans \<Longrightarrow> registered ts t q i \<Longrightarrow> t \<in> reply_to ` snd ` set ps \<or> t \<in> fst ` set ans"
  unfolding registered_ok_def by blast

lemma registered_unique: "registered ts t q i \<Longrightarrow> registered ts t q' i' \<Longrightarrow> q' = q \<and> i' = i"
  by (auto simp: registered_def)

lemma pending_replies_distinct:
  assumes ok: "pending_ok ps ts ans"
  shows "distinct (map (reply_to \<circ> snd) ps)"
proof -
  note D = pending_okD [OF ok]
  have "inj_on (reply_to \<circ> snd) (set ps)"
  proof (rule inj_onI)
    fix x y assume x: "x \<in> set ps" and y: "y \<in> set ps" and eq: "(reply_to \<circ> snd) x = (reply_to \<circ> snd) y"
    from D(3) [of "fst x" "snd x"] x obtain q where "registered ts (reply_to (snd x)) q (fst x)" by auto
    moreover from D(3) [of "fst y" "snd y"] y obtain q' where "registered ts (reply_to (snd y)) q' (fst y)" by auto
    ultimately have "fst x = fst y" using eq registered_unique by fastforce
    then show "x = y" using D(1) x y by (meson distinct_map inj_onD)
  qed
  then show ?thesis using D(1) by (simp add: distinct_map)
qed

subsection \<open>How the parts depend on the tasks\<close>

lemma registered_cong:
  assumes "\<And>u q i. registered ts' u q i = registered ts u q i"
  shows "pending_ok ps ts' ans = pending_ok ps ts ans" "answered_ok ans ts' = answered_ok ans ts"
    "registered_ok ts' ps ans = registered_ok ts ps ans"
  using assms by (simp_all add: pending_ok_def answered_ok_def registered_ok_def)

lemma pending_ok_add:
  assumes ok: "pending_ok ps ts ans" and i: "i \<notin> fst ` set ps" and k: "question_key_from_wire (set_id q i) = Some k"
    and keep: "\<And>u q j. registered ts u q j \<Longrightarrow> registered ts' u q j"
    and new: "registered ts' t q i" and t: "t \<notin> fst ` set ans"
  shows "pending_ok ((i, \<lparr>reply_to = t, expected_question = k\<rparr>) # ps) ts' ans" (is "pending_ok (?x # ps) ts' ans")
proof (rule pending_okI)
  note D = pending_okD [OF ok]
  show "distinct (map fst (?x # ps))" using D(1) i by simp
  show "reply_to p \<notin> fst ` set ans" if "(j, p) \<in> set (?x # ps)" for j p
  proof (cases "(j, p) = ?x")
    case True
    then show ?thesis using t by simp
  next
    case False
    then have "(j, p) \<in> set ps" using that by auto
    then show ?thesis by (rule D(2))
  qed
  show "\<exists>q. registered ts' (reply_to p) q j \<and> question_key_from_wire (set_id q j) = Some (expected_question p)"
    if "(j, p) \<in> set (?x # ps)" for j p
  proof (cases "(j, p) = ?x")
    case True
    then show ?thesis using new k by auto
  next
    case False
    then show ?thesis using that D(3) [of j p] keep by auto
  qed
qed

lemma answered_ok_mono:
  assumes "answered_ok ans ts" "\<And>u q j. registered ts u q j \<Longrightarrow> registered ts' u q j"
  shows "answered_ok ans ts'"
proof (rule answered_okI [OF answered_okD(1) [OF assms(1)]])
  fix t r assume "(t, r) \<in> set ans"
  from answered_okD(2) [OF assms(1) this] obtain q i where
    "registered ts t q i" "\<forall>wire. r = Inr wire \<longrightarrow> answers_query q i wire" by blast
  then show "\<exists>q i. registered ts' t q i \<and> (\<forall>wire. r = Inr wire \<longrightarrow> answers_query q i wire)"
    using assms(2) by blast
qed

lemma registered_upd:
  assumes "stage_id st = stage_id st'" "ts t = Some (q, st)"
  shows "registered (ts(t \<mapsto> (q, st'))) u q' i = registered ts u q' i"
  using assms by (auto simp: registered_def)

lemma registered_out:
  assumes "\<And>q i. \<not> registered ts t q i" "case x of None \<Rightarrow> True | Some (q, st) \<Rightarrow> stage_id st = None"
  shows "registered (ts(t := x)) u q' i = registered ts u q' i"
  using assms by (auto simp: registered_def split: option.splits)

lemma holders_upd:
  "{u. holds_permit ((ts(t := x)) u)} =
     (if holds_permit x then insert t {u. holds_permit (ts u)} else {u. holds_permit (ts u)} - {t})"
  by auto

lemma permits_same:
  assumes "permits_ok cap n ts" "holds_permit x = holds_permit (ts t)"
  shows "permits_ok cap n (ts(t := x))"
proof -
  have "{u. holds_permit ((ts(t := x)) u)} = {u. holds_permit (ts u)}" using assms(2) by auto
  then show ?thesis using assms(1) by (simp add: permits_ok_def)
qed

lemma permits_take:
  assumes "permits_ok cap n ts" "0 < cap" "\<not> holds_permit (ts t)" "holds_permit x"
  shows "permits_ok (cap - 1) n (ts(t := x))"
  using assms unfolding permits_ok_def holders_upd by (auto simp: card_insert_if)

lemma permits_give:
  assumes "permits_ok cap n ts" "holds_permit (ts t)" "\<not> holds_permit x" "cap' + n' = cap + n + 1"
  shows "permits_ok cap' n' (ts(t := x))"
proof -
  have "0 < card {u. holds_permit (ts u)}" using assms(1,2) by (auto simp: permits_ok_def card_gt_0_iff)
  then show ?thesis using assms unfolding permits_ok_def holders_upd by (auto simp: card_Diff_singleton_if)
qed

subsection \<open>Every step keeps the invariant\<close>

lemma dot_invI:
  assumes "permits_ok (capacity (conn w)) (length (pending (conn w))) (tasks w)"
    "pending_ok (pending (conn w)) (tasks w) (answered w)" "answered_ok (answered w) (tasks w)"
    "registered_ok (tasks w) (pending (conn w)) (answered w)"
    "dead_ok (dead (conn w)) (draining w) (pending (conn w))" "no_panic (tasks w)"
  shows "dot_inv w"
  using assms by (simp add: dot_inv_def)

lemma dot_invD:
  assumes "dot_inv w"
  shows "permits_ok (capacity (conn w)) (length (pending (conn w))) (tasks w)"
    "pending_ok (pending (conn w)) (tasks w) (answered w)" "answered_ok (answered w) (tasks w)"
    "registered_ok (tasks w) (pending (conn w)) (answered w)"
    "dead_ok (dead (conn w)) (draining w) (pending (conn w))" "no_panic (tasks w)"
  using assms by (simp_all add: dot_inv_def)

lemma fail_inv: "dot_inv w \<Longrightarrow> dot_inv (dot_fail err w)"
  by (auto simp: dot_inv_def dot_fail_def mark_dead_def dead_ok_def Let_def)

text \<open>A step that changes the place of one task, without registering a query, and perhaps permits.\<close>

lemma stage_inv:
  assumes inv: "dot_inv w" and reg: "\<And>u q i. registered ((tasks w)(t := x)) u q i = registered (tasks w) u q i"
    and perm: "permits_ok cap (length (pending (conn w))) ((tasks w)(t := x))"
    and x: "\<And>q. x \<noteq> Some (q, Panicked)"
    and w': "tasks w' = (tasks w)(t := x)" "pending (conn w') = pending (conn w)" "capacity (conn w') = cap"
      "dead (conn w') = dead (conn w)" "draining w' = draining w" "answered w' = answered w"
  shows "dot_inv w'"
proof (rule dot_invI)
  note D = dot_invD [OF inv]
  show "no_panic (tasks w')" using D(6) x by (simp add: no_panic_def w')
qed (use dot_invD [OF inv] perm registered_cong [OF reg] in \<open>simp_all add: w'\<close>)

lemma register_inv:
  assumes inv: "dot_inv w" and t: "tasks w t = Some (q, Entered)"
    and i: "i \<notin> fst ` set (pending (conn w))" and k: "question_key_from_wire (set_id q i) = Some k"
    and alive: "\<not> dead (conn w)"
  shows "dot_inv (set_stage t (Some (q, Unsent i frame))
    (w\<lparr>conn := conn w\<lparr>pending := (i, \<lparr>reply_to = t, expected_question = k\<rparr>) # pending (conn w)\<rparr>\<rparr>))" (is "dot_inv ?w")
proof (rule dot_invI)
  note D = dot_invD [OF inv]
  let ?ts = "(tasks w)(t \<mapsto> (q, Unsent i frame))"
  have fresh: "\<not> registered (tasks w) t q' j" for q' j using t by (simp add: registered_def)
  then have keep: "registered ?ts u q' j" if "registered (tasks w) u q' j" for u q' j
    using that by (auto simp: registered_def)
  have new: "registered ?ts t q i" by (simp add: registered_def)
  have old: "registered (tasks w) u q' j \<or> u = t" if "registered ?ts u q' j" for u q' j
    using that by (auto simp: registered_def split: if_splits)
  have tn: "t \<notin> fst ` set (answered w)" using D(3) fresh by (auto simp: answered_ok_def)
  show "permits_ok (capacity (conn ?w)) (length (pending (conn ?w))) (tasks ?w)"
    using permits_give [OF D(1), of t "Some (q, Unsent i frame)" "capacity (conn w)"] t
    by (simp add: set_stage_def holds_permit_def)
  show "pending_ok (pending (conn ?w)) (tasks ?w) (answered ?w)"
    using pending_ok_add [OF D(2) i k keep new tn] by (simp add: set_stage_def)
  show "answered_ok (answered ?w) (tasks ?w)"
    using answered_ok_mono [OF D(3) keep] by (simp add: set_stage_def)
  show "registered_ok (tasks ?w) (pending (conn ?w)) (answered ?w)"
    unfolding registered_ok_def
  proof (intro allI impI)
    fix u q' j assume "registered (tasks ?w) u q' j"
    then consider "registered (tasks w) u q' j" | "u = t" using old by (auto simp: set_stage_def)
    then show "u \<in> reply_to ` snd ` set (pending (conn ?w)) \<or> u \<in> fst ` set (answered ?w)"
    proof cases
      case 1
      then show ?thesis using registered_okD [OF D(4)] by (simp add: set_stage_def)
    qed (simp add: set_stage_def)
  qed
  show "dead_ok (dead (conn ?w)) (draining ?w) (pending (conn ?w))"
    using D(5) alive by (simp add: dead_ok_def set_stage_def)
  show "no_panic (tasks ?w)" using D(6) by (simp add: no_panic_def set_stage_def)
qed

lemma filter_key:
  assumes "distinct (map fst ps)" "(i, p) \<in> set ps"
  shows "filter (\<lambda>x. fst x = i) ps = [(i, p)]"
  using assms
proof (induction ps)
  case (Cons x ps)
  show ?case
  proof (cases "x = (i, p)")
    case True
    then have "filter (\<lambda>x. fst x = i) ps = []" using Cons.prems(1) by (auto simp: filter_empty_conv image_iff)
    then show ?thesis using True by simp
  next
    case False
    then have mem: "(i, p) \<in> set ps" using Cons.prems(2) by auto
    then have "i \<in> fst ` set ps" by (rule image_eqI [rotated]) simp
    then have "fst x \<noteq> i" using Cons.prems(1) by auto
    then show ?thesis using Cons.IH Cons.prems(1) mem by simp
  qed
qed simp

text \<open>Pending queries leave the table with their replies: one when its answer arrives, all when the
  table is drained.\<close>

lemma answer_inv:
  assumes inv: "dot_inv w"
    and good: "\<And>i p q wire. (i, p) \<in> set (pending (conn w)) \<Longrightarrow> \<not> P (i, p) \<Longrightarrow> r (i, p) = Inr wire \<Longrightarrow>
      question_key_from_wire (set_id q i) = Some (expected_question p) \<Longrightarrow> answers_query q i wire"
    and dead: "dead_ok (dead (conn w')) (draining w') (filter P (pending (conn w)))"
    and w': "tasks w' = tasks w" "pending (conn w') = filter P (pending (conn w))"
      "answered w' = answered w @ map (\<lambda>x. (reply_to (snd x), r x)) (filter (\<lambda>x. \<not> P x) (pending (conn w)))"
      "capacity (conn w') = capacity (conn w) + length (filter (\<lambda>x. \<not> P x) (pending (conn w)))"
  shows "dot_inv w'"
proof (rule dot_invI)
  let ?ps = "pending (conn w)" and ?ts = "tasks w" and ?gone = "filter (\<lambda>x. \<not> P x) (pending (conn w))"
  note D = dot_invD [OF inv] and PD = pending_okD [OF dot_invD(2) [OF inv]]
  have dist: "distinct (map (reply_to \<circ> snd) ?ps)" by (rule pending_replies_distinct [OF D(2)])
  have sent: "fst ` set (answered w') = fst ` set (answered w) \<union> (reply_to \<circ> snd) ` set ?gone"
    by (simp add: w' image_Un image_image comp_def)
  have "length ?ps = length (filter P ?ps) + length ?gone" by (metis sum_length_filter_compl)
  then show "permits_ok (capacity (conn w')) (length (pending (conn w'))) (tasks w')"
    using D(1) by (simp add: permits_ok_def w')
  show "pending_ok (pending (conn w')) (tasks w') (answered w')"
  proof (rule pending_okI)
    show "distinct (map fst (pending (conn w')))" using PD(1) by (simp add: w' distinct_map_filter)
    fix i p assume ip: "(i, p) \<in> set (pending (conn w'))"
    then have "(i, p) \<in> set ?ps" "P (i, p)" by (auto simp: w')
    then have "(reply_to \<circ> snd) (i, p) \<notin> (reply_to \<circ> snd) ` set ?gone"
      using dist inj_on_image_mem_iff [of "reply_to \<circ> snd" "set ?ps" "(i, p)" "set ?gone"] by (auto simp: distinct_map)
    then have "reply_to p \<notin> (reply_to \<circ> snd) ` set ?gone" by simp
    then show "reply_to p \<notin> fst ` set (answered w')" using PD(2) [OF \<open>(i, p) \<in> set ?ps\<close>] by (simp add: sent)
    show "\<exists>q. registered (tasks w') (reply_to p) q i \<and> question_key_from_wire (set_id q i) = Some (expected_question p)"
      using PD(3) [OF \<open>(i, p) \<in> set ?ps\<close>] by (simp add: w')
  qed
  show "answered_ok (answered w') (tasks w')"
  proof (rule answered_okI)
    have "distinct (map (reply_to \<circ> snd) ?gone)" using dist by (rule distinct_map_filter)
    moreover have "(reply_to \<circ> snd) ` set ?gone \<inter> fst ` set (answered w) = {}"
    proof -
      have "t \<notin> fst ` set (answered w)" if t: "t \<in> (reply_to \<circ> snd) ` set ?gone" for t
      proof -
        from t obtain i p where "(i, p) \<in> set ?ps" "t = reply_to p" by auto
        then show ?thesis using PD(2) by simp
      qed
      then show ?thesis by blast
    qed
    ultimately show "distinct (map fst (answered w'))"
      using answered_okD(1) [OF D(3)] by (simp add: w' comp_def Int_commute)
    fix t v assume "(t, v) \<in> set (answered w')"
    then consider "(t, v) \<in> set (answered w)" | i p where "(i, p) \<in> set ?ps" "\<not> P (i, p)" "t = reply_to p" "v = r (i, p)"
      by (auto simp: w')
    then show "\<exists>q i. registered (tasks w') t q i \<and> (\<forall>wire. v = Inr wire \<longrightarrow> answers_query q i wire)"
    proof cases
      case 1
      then show ?thesis using answered_okD(2) [OF D(3)] by (simp add: w')
    next
      case 2
      then show ?thesis using PD(3) [OF 2(1)] good [OF 2(1,2)] unfolding w'(1) by metis
    qed
  qed
  show "registered_ok (tasks w') (pending (conn w')) (answered w')"
    unfolding registered_ok_def
  proof (intro allI impI)
    fix t q i assume "registered (tasks w') t q i"
    then consider x where "x \<in> set ?ps" "t = reply_to (snd x)" | "t \<in> fst ` set (answered w)"
      using registered_okD [OF D(4), of t q i] by (auto simp: w'(1))
    then show "t \<in> reply_to ` snd ` set (pending (conn w')) \<or> t \<in> fst ` set (answered w')"
      unfolding sent w'(2) by cases auto
  qed
  show "dead_ok (dead (conn w')) (draining w') (pending (conn w'))" using dead by (simp add: w')
  show "no_panic (tasks w')" using D(6) by (simp add: w')
qed

lemma receive_inv:
  assumes inv: "dot_inv w" and rc: "dot_receive wire (conn w) = (sent, err, c)"
    and w': "tasks w' = tasks w" "conn w' = c" "answered w' = answered w @ sent" "draining w' = draining w"
  shows "dot_inv w'"
proof -
  let ?ps = "pending (conn w)"
  have same: "dot_inv w'" if "sent = []" "c = conn w"
    using inv that w' by (simp add: dot_inv_def)
  show ?thesis
  proof (cases "get_range wire 0 2")
    case None
    then show ?thesis using same rc by (simp add: dot_receive_def)
  next
    case (Some b)
    then have b: "2 \<le> length wire" "b = take 2 wire" by (auto simp: get_range_def split: if_splits)
    then have nth: "b ! 0 = wire ! 0" "b ! 1 = wire ! 1" by simp_all
    define i where "i = u16_of_be (wire ! 0) (wire ! 1)"
    show ?thesis
    proof (cases "map_of ?ps i")
      case None
      then show ?thesis using same rc Some nth by (simp add: dot_receive_def remove_pending_def i_def)
    next
      case p: (Some p)
      have mem: "(i, p) \<in> set ?ps" using map_of_SomeD [OF p] .
      have dist: "distinct (map fst ?ps)" using pending_okD(1) [OF dot_invD(2) [OF inv]] .
      have gone: "filter (\<lambda>x. \<not> fst x \<noteq> i) ?ps = [(i, p)]" using filter_key [OF dist mem] by simp
      define ok where "ok \<longleftrightarrow> (case get wire 2 of Some flags \<Rightarrow> flags AND 0x80 \<noteq> 0 | None \<Rightarrow> False) \<and>
        question_key_matches (expected_question p) wire"
      define r :: "u16 \<times> pending_query \<Rightarrow> dot_reply" where
        "r = (\<lambda>_. if ok then Inr wire else Inl (Protocol ''DoT response question mismatch''))"
      have keep: "filter (\<lambda>(j, _). j \<noteq> i) ?ps = filter (\<lambda>x. fst x \<noteq> i) ?ps" by (intro filter_cong) auto
      have id: "u16_of_be (b ! 0) (b ! 1) = i" by (simp only: i_def nth)
      have rm: "remove_pending i (conn w) = (Some p, release_permits 1 (conn w\<lparr>pending := filter (\<lambda>x. fst x \<noteq> i) ?ps\<rparr>))"
        using p keep by (simp add: remove_pending_def)
      have res: "sent = [(reply_to p, r (i, p))]"
        "c = release_permits 1 (conn w\<lparr>pending := filter (\<lambda>x. fst x \<noteq> i) ?ps\<rparr>)"
        using rc unfolding dot_receive_def Some option.case id rm prod.case
        by (auto simp: r_def ok_def split: if_splits)
      show ?thesis
      proof (rule answer_inv [OF inv, where P = "\<lambda>x. fst x \<noteq> i" and r = r])
        fix j p' q w2 assume "(j, p') \<in> set ?ps" "\<not> fst (j, p') \<noteq> i" "r (j, p') = Inr w2"
          "question_key_from_wire (set_id q j) = Some (expected_question p')"
        moreover from this have "p' = p" using dist mem
          by (auto dest: eq_key_imp_eq_value)
        ultimately show "answers_query q j w2"
          using b unfolding answers_query_def r_def ok_def
          by (auto simp: i_def get_def split: if_splits option.splits)
      qed (use dot_invD(5) [OF inv] gone res in \<open>simp_all add: w' release_permits_def dead_ok_def\<close>)
    qed
  qed
qed

lemma drain_inv:
  assumes inv: "dot_inv w" and dr: "draining w = err # errs" and d: "drain_pending err (conn w) = (sent, c)"
  shows "dot_inv (w\<lparr>conn := c, answered := answered w @ sent, draining := errs\<rparr>)"
proof (rule answer_inv [OF inv, where P = "\<lambda>_. False" and r = "\<lambda>_. Inl err"])
qed (use d dot_invD(5) [OF inv] dr in
  \<open>auto simp: drain_pending_def release_permits_def dead_ok_def case_prod_beta\<close>)

lemma dot_step_inv:
  assumes inv: "dot_inv w" and step: "dot_step e w = Some w'"
  shows "dot_inv w'"
proof -
  note D = dot_invD [OF inv]
  have same: "dot_inv (w\<lparr>reader_at := x\<rparr>)" "dot_inv (w\<lparr>writer_up := y\<rparr>)" for x y
    using inv by (simp_all add: dot_inv_def)
  show ?thesis
  proof (cases e)
    case (Reserve t query)
    then have t: "tasks w t = None" "0 < capacity (conn w)"
      and w': "w' = set_stage t (Some (query, Reserved)) (w\<lparr>conn := conn w\<lparr>capacity := capacity (conn w) - 1\<rparr>\<rparr>)"
      using step by (cases "tasks w t", simp_all add: try_reserve_def split: if_splits)
    show ?thesis
      by (rule stage_inv [OF inv, of t "Some (query, Reserved)" "capacity (conn w) - 1"])
        (use t permits_take [OF D(1), of t "Some (query, Reserved)"] in
          \<open>simp_all add: w' set_stage_def registered_def holds_permit_def\<close>)
  next
    case (Enter t now)
    then obtain q where t: "tasks w t = Some (q, Reserved)" using step by (auto split: option.splits stage.splits)
    show ?thesis
    proof (cases "dead (conn w)")
      case True
      let ?x = "Some (q, Returned (Connection ''DoT connection closed''))"
      have w': "w' = set_stage t ?x (w\<lparr>conn := release_permits 1 (conn w)\<rparr>)" using True step Enter t by simp
      show ?thesis
        by (rule stage_inv [OF inv, of t ?x "capacity (conn w) + 1"])
          (use t permits_give [OF D(1), of t ?x "capacity (conn w) + 1"] in
            \<open>simp_all add: w' set_stage_def registered_def holds_permit_def release_permits_def\<close>)
    next
      case False
      let ?x = "Some (q, Entered)"
      have w': "w' = set_stage t ?x (w\<lparr>conn := conn w\<lparr>conn_last_used := now\<rparr>\<rparr>)" using False step Enter t by simp
      show ?thesis
        by (rule stage_inv [OF inv, of t ?x "capacity (conn w)"])
          (use t permits_same [OF D(1), of ?x t] in \<open>simp_all add: w' set_stage_def registered_def holds_permit_def\<close>)
    qed
  next
    case (Register t start)
    then obtain q where t: "tasks w t = Some (q, Entered)" using step by (auto split: option.splits stage.splits)
    have early: "dot_inv (set_stage t (Some (q, Returned err)) (w\<lparr>conn := release_permits 1 (conn w)\<rparr>))" for err
      by (rule stage_inv [OF inv, of t "Some (q, Returned err)" "capacity (conn w) + 1"])
        (use t permits_give [OF D(1), of t "Some (q, Returned err)" "capacity (conn w) + 1"] in
          \<open>simp_all add: set_stage_def registered_def holds_permit_def release_permits_def\<close>)
    have "length (pending (conn w)) < 2 ^ 16" using D(1) by (simp add: permits_ok_def)
    from next_available_id_exists [OF this] obtain i where i: "next_available_id start (pending (conn w)) = Some i" by blast
    show ?thesis
      using step Register t i early register_inv [OF inv t next_available_id_free [OF i]]
      by (auto simp: register_query_def Let_def split: if_splits option.splits)
  next
    case (Send t)
    then obtain q i frame where t: "tasks w t = Some (q, Unsent i frame)" using step by (auto split: option.splits stage.splits)
    let ?x = "Some (q, Awaiting i)"
    have st: "dot_inv w2" if "tasks w2 = (tasks w)(t := ?x)" "pending (conn w2) = pending (conn w)"
      "capacity (conn w2) = capacity (conn w)" "dead (conn w2) = dead (conn w)" "draining w2 = draining w"
      "answered w2 = answered w" for w2
      by (rule stage_inv [OF inv, of t ?x "capacity (conn w)"])
        (use t that permits_same [OF D(1), of ?x t] in \<open>simp_all add: registered_def holds_permit_def\<close>)
    show ?thesis using step Send t st fail_inv [OF st] by (auto simp: set_stage_def Let_def)
  next
    case (Abandon t)
    then consider (res) q where "tasks w t = Some (q, Reserved)"
        "w' = set_stage t None (w\<lparr>conn := release_permits 1 (conn w)\<rparr>)"
      | (wait) q i where "tasks w t = Some (q, Awaiting i)" "w' = set_stage t (Some (q, Gone i)) w"
      using step by (auto split: option.splits stage.splits)
    then show ?thesis
    proof cases
      case res
      show ?thesis
        by (rule stage_inv [OF inv, of t None "capacity (conn w) + 1"])
          (use res permits_give [OF D(1), of t None "capacity (conn w) + 1"] in
            \<open>simp_all add: set_stage_def registered_def holds_permit_def release_permits_def\<close>)
    next
      case wait
      show ?thesis
        by (rule stage_inv [OF inv, of t "Some (q, Gone i)" "capacity (conn w)"])
          (use wait permits_same [OF D(1), of "Some (q, Gone i)" t] in
            \<open>simp_all add: set_stage_def registered_def holds_permit_def\<close>)
    qed
  next
    case (Guard t)
    then show ?thesis using step inv fail_inv [OF inv] by (auto split: option.splits stage.splits if_splits)
  next
    case (Receive len body)
    then show ?thesis
      using step same(1) receive_inv [OF inv] by (fastforce split: sum.splits if_splits prod.splits)
  next
    case Reader_fails
    then show ?thesis using step fail_inv [OF same(1)] by (auto split: reader.splits)
  next
    case Drain
    then show ?thesis using step drain_inv [OF inv] by (auto split: list.splits prod.splits)
  next
    case (Write_fails x)
    then show ?thesis using step fail_inv [OF same(2)] by (auto split: if_splits)
  next
    case (Kill x)
    then show ?thesis using step fail_inv [OF inv] by auto
  qed (use step same in \<open>auto split: if_splits\<close>)
qed

lemma dot_run_inv: "dot_inv w \<Longrightarrow> dot_run es w = Some w' \<Longrightarrow> dot_inv w'"
proof (induction es arbitrary: w)
  case (Cons e es)
  then show ?case using dot_step_inv by (auto simp: bind_eq_Some_conv)
qed simp

lemmas dot_reachable = dot_run_inv [OF dot_inv_new]

subsection \<open>A concrete exchange\<close>

text \<open>A query for the A record of the root, sent under the ID 5, and its reply.\<close>

definition root_query :: bytes where
  "root_query = [0, 7, 1, 0, 0, 1, 0, 0, 0, 0, 0, 0, 0, 0, 1, 0, 1]"

definition root_reply :: bytes where
  "root_reply = [0, 5, 0x81, 0x80, 0, 1, 0, 0, 0, 0, 0, 0, 0, 0, 1, 0, 1]"

definition root_key :: question_key where
  "root_key = \<lparr>qk_len = 5, qk_bytes = blit (replicate 259 0) 0 [0, 0, 1, 0, 1]\<rparr>"

lemma root_facts:
  "question_key_from_wire (set_id root_query 5) = Some root_key" "question_key_matches root_key root_reply"
  "length (set_id root_query 5) = 17"
  by code_simp+

lemma next_available_id_start:
  assumes "start \<notin> fst ` set ps"
  shows "next_available_id start ps = Some start"
proof -
  have "[unat start..<2 ^ 16] = unat start # [Suc (unat start)..<2 ^ 16]"
    using unsigned_less [of start, where 'a = nat] by (intro upt_conv_Cons) simp
  then show ?thesis using assms by (simp add: next_available_id_def)
qed

lemma root_registered:
  "\<exists>w. dot_run [Reserve 0 root_query, Enter 0 3, Register 0 5] (dot_world_new 0) = Some w \<and>
    pending (conn w) = [(5, \<lparr>reply_to = 0, expected_question = root_key\<rparr>)] \<and> answered w = [] \<and> draining w = [] \<and>
    writer_up w \<and> reader_at w = Reading \<and> \<not> dead (conn w) \<and> (\<exists>f. tasks w 0 = Some (root_query, Unsent 5 f))"
  by (simp add: dot_world_new_def dot_connection_start_def try_reserve_def set_stage_def register_query_def
      next_available_id_start root_facts Let_def)

lemma dot_run_append: "dot_run (es @ fs) w = Option.bind (dot_run es w) (dot_run fs)"
proof (induction es arbitrary: w)
  case (Cons e es)
  then show ?case by (cases "dot_step e w") simp_all
qed simp

subsection \<open>Properties\<close>

text \<open>
  C22. The permits keep the IDs from running out: in every interleaving at most 256 queries are
  pending, the permits held, the pending queries and the free permits add up to 256, and
  \<open>next_available_id\<close> never panics.
\<close>

theorem dot_ids_never_run_out:
  assumes "dot_run es (dot_world_new now) = Some w"
  shows "tasks w t \<noteq> Some (q, Panicked) \<and>
    capacity (conn w) + length (pending (conn w)) + card {t. holds_permit (tasks w t)} = MAX_DOT_IN_FLIGHT \<and>
    (\<exists>i. next_available_id start (pending (conn w)) = Some i \<and> i \<notin> fst ` set (pending (conn w)))"
proof -
  note D = dot_invD [OF dot_reachable [OF assms]]
  have "length (pending (conn w)) < 2 ^ 16" using D(1) by (simp add: permits_ok_def)
  from next_available_id_exists [OF this] obtain i where i: "next_available_id start (pending (conn w)) = Some i" by blast
  then show ?thesis using next_available_id_free [OF i] D(1,6) by (auto simp: permits_ok_def no_panic_def)
qed

theorem dot_ids_never_run_out_witness:
  "\<exists>w. dot_run [Reserve 0 root_query, Enter 0 3] (dot_world_new 0) = Some w \<and> tasks w 0 \<noteq> Some (root_query, Panicked) \<and>
    capacity (conn w) + length (pending (conn w)) + card {t. holds_permit (tasks w t)} = 256"
proof -
  obtain w where w: "dot_run [Reserve 0 root_query, Enter 0 3] (dot_world_new 0) = Some w"
    by (simp add: dot_world_new_def dot_connection_start_def try_reserve_def set_stage_def)
  from dot_ids_never_run_out [OF w] w show ?thesis by blast
qed

text \<open>
  C7. Replies reach the right query: whatever the upstream sends and however tasks interleave, a
  task is answered at most once, and a response it gets carries the ID its query was sent under, has
  the QR bit set, and repeats the question of its query up to ASCII case.
\<close>

theorem dot_replies_match:
  assumes "dot_run es (dot_world_new now) = Some w"
  shows "distinct (map fst (answered w)) \<and>
    (\<forall>t wire. (t, Inr wire) \<in> set (answered w) \<longrightarrow> (\<exists>q i. registered (tasks w) t q i \<and> answers_query q i wire))"
  using answered_okD [OF dot_invD(3) [OF dot_reachable [OF assms]]] by blast

theorem dot_replies_match_witness:
  "\<exists>w. dot_run [Reserve 0 root_query, Enter 0 3, Register 0 5, Send 0, Receive (Inr [0, 17]) (Bytes root_reply)] (dot_world_new 0) =
      Some w \<and> answered w = [(0, Inr root_reply)] \<and> (\<exists>q i. registered (tasks w) 0 q i \<and> answers_query q i root_reply)"
proof -
  let ?es = "[Reserve 0 root_query, Enter 0 3, Register 0 5] @ [Send 0, Receive (Inr [0, 17]) (Bytes root_reply)]"
  have len: "u16_of_be 0 17 \<noteq> 0" by code_simp
  have id: "get_range root_reply 0 2 = Some [0, 5]" "u16_of_be 0 5 = 5" "get root_reply 2 = Some 0x81" by code_simp+
  from root_registered obtain w1 f where
    w1: "dot_run [Reserve 0 root_query, Enter 0 3, Register 0 5] (dot_world_new 0) = Some w1"
      "pending (conn w1) = [(5, \<lparr>reply_to = 0, expected_question = root_key\<rparr>)]" "answered w1 = []"
      "writer_up w1" "reader_at w1 = Reading" "tasks w1 0 = Some (root_query, Unsent 5 f)" by blast
  have "\<exists>w. dot_run [Send 0, Receive (Inr [0, 17]) (Bytes root_reply)] w1 = Some w \<and> answered w = [(0, Inr root_reply)]"
    using w1(2-) len id root_facts(2)
    by (simp add: set_stage_def Let_def read_frame_def dot_receive_def remove_pending_def)
  then obtain w where w: "dot_run ?es (dot_world_new 0) = Some w" "answered w = [(0, Inr root_reply)]"
    unfolding dot_run_append w1(1) by auto
  then show ?thesis using dot_replies_match [OF w(1)] by auto
qed

text \<open>
  C21. No query is left behind: once a connection is dead and its table has been drained, no query is
  pending and every query that was registered on it, before or while it died, has been answered,
  with its response or with the failure.
\<close>

theorem dot_no_query_left_behind:
  assumes "dot_run es (dot_world_new now) = Some w" "dead (conn w)" "draining w = []"
  shows "pending (conn w) = [] \<and> (\<forall>t q i. registered (tasks w) t q i \<longrightarrow> (\<exists>r. (t, r) \<in> set (answered w)))"
proof -
  note D = dot_invD [OF dot_reachable [OF assms(1)]]
  have "pending (conn w) = []" using D(5) assms(2,3) by (simp add: dead_ok_def)
  then show ?thesis using registered_okD [OF D(4)] by fastforce
qed

theorem dot_no_query_left_behind_witness:
  "\<exists>w. dot_run [Reserve 0 root_query, Enter 0 3, Register 0 5, Kill (Connection ''gone''), Send 0, Drain] (dot_world_new 0) =
      Some w \<and> pending (conn w) = [] \<and> (\<exists>r. (0, r) \<in> set (answered w))"
proof -
  let ?es = "[Reserve 0 root_query, Enter 0 3, Register 0 5] @ [Kill (Connection ''gone''), Send 0, Drain]"
  from root_registered obtain w1 f where
    w1: "dot_run [Reserve 0 root_query, Enter 0 3, Register 0 5] (dot_world_new 0) = Some w1"
      "draining w1 = []" "writer_up w1" "\<not> dead (conn w1)" "tasks w1 0 = Some (root_query, Unsent 5 f)" by blast
  have "\<exists>w. dot_run [Kill (Connection ''gone''), Send 0, Drain] w1 = Some w \<and> dead (conn w) \<and> draining w = [] \<and>
      tasks w 0 = Some (root_query, Awaiting 5)"
    using w1(2-) by (simp add: set_stage_def Let_def dot_fail_def mark_dead_def drain_pending_def release_permits_def)
  then obtain w where w: "dot_run ?es (dot_world_new 0) = Some w" "dead (conn w)" "draining w = []"
    "tasks w 0 = Some (root_query, Awaiting 5)" unfolding dot_run_append w1(1) by auto
  then have "registered (tasks w) 0 root_query 5" by (simp add: registered_def)
  then show ?thesis using dot_no_query_left_behind [OF w(1-3)] w(1) by auto
qed

end
