(* ===== verification/Upstream_Correct.thy ===== *)
theory Upstream_Correct
  imports Upstream Dot_Correct Wire_Correct
begin

text \<open>
  Properties of the upstream resolvers: a response that is accepted answers the query it is returned
  for, whatever the strategy and the transport, and the strategies end in time.
\<close>

subsection \<open>The hedged strategy\<close>

text \<open>
  The attempts in flight are among those started, and those started and no longer in flight have
  failed, the last of them with the recorded error.
\<close>

definition hedge_ok :: "(nat \<Rightarrow> upstream_error + bytes) \<Rightarrow> nat \<Rightarrow> hedge \<Rightarrow> bool" where
  "hedge_ok results n s \<longleftrightarrow>
     distinct (active s) \<and> set (active s) \<subseteq> {..<next_up s} \<and> next_up s \<le> n \<and>
     (\<forall>i<next_up s. i \<notin> set (active s) \<longrightarrow> (\<exists>e. results i = Inl e)) \<and>
     (\<forall>e. last_err s = Some e \<longrightarrow> (\<exists>i<n. results i = Inl e)) \<and>
     (last_err s = None \<longrightarrow> set (active s) = {..<next_up s})"

definition hedge_left :: "nat \<Rightarrow> hedge \<Rightarrow> nat" where
  "hedge_left n s = 2 * (n - next_up s) + length (active s)"

text \<open>How a part of a round may end, from a state with \<open>left\<close> steps to go.\<close>

definition round_ok :: "(nat \<Rightarrow> upstream_error + bytes) \<Rightarrow> nat \<Rightarrow> (nat \<Rightarrow> bool) \<Rightarrow> bool \<Rightarrow> hedge round \<Rightarrow> bool" where
  "round_ok results n left expired r \<longleftrightarrow>
     (case r of
        Return (Inr w) \<Rightarrow> \<exists>i<n. results i = Inr w
      | Return (Inl e) \<Rightarrow> (expired \<and> e = All_hedged_timed_out) \<or>
          (\<forall>i<n. \<exists>e. results i = Inl e) \<and> (\<exists>i<n. results i = Inl e)
      | Continue s \<Rightarrow> hedge_ok results n s \<and> left (hedge_left n s)
      | Impossible \<Rightarrow> True
      | Panic \<Rightarrow> False)"

lemma hedge_push_ok:
  assumes ok: "hedge_ok results n s" and less: "next_up s < n"
  shows "\<exists>s'. hedge_push n s = Continue s' \<and> hedge_ok results n s' \<and> active s' \<noteq> [] \<and>
    hedge_left n s' + 1 = hedge_left n s"
proof -
  let ?s = "s\<lparr>active := active s @ [next_up s], next_up := next_up s + 1\<rparr>"
  have "distinct (active ?s)" using ok by (auto simp: hedge_ok_def)
  then have "hedge_ok results n ?s"
    using ok less by (auto simp: hedge_ok_def less_Suc_eq)
  moreover have "hedge_left n ?s + 1 = hedge_left n s" using less by (simp add: hedge_left_def)
  ultimately show ?thesis using less by (simp add: hedge_push_def)
qed

lemma hedge_fill_ok:
  assumes ok: "hedge_ok results n s" and n: "0 < n"
  shows "round_ok results n (\<lambda>l. l \<le> hedge_left n s) x (hedge_fill n s)"
    and "hedge_fill n s = Continue s' \<Longrightarrow> active s' \<noteq> []"
proof -
  show "round_ok results n (\<lambda>l. l \<le> hedge_left n s) x (hedge_fill n s)"
  proof (cases "active s = [] \<and> next_up s = n")
    case True
    then have "last_err s \<noteq> None" using ok n by (auto simp: hedge_ok_def)
    then obtain e where "last_err s = Some e" by blast
    then show ?thesis using True ok by (auto simp: hedge_fill_def round_ok_def hedge_ok_def)
  next
    case False
    show ?thesis
    proof (cases "active s = []")
      case True
      then have "next_up s < n" using False ok by (auto simp: hedge_ok_def)
      from hedge_push_ok [OF ok this] show ?thesis
        using True \<open>next_up s < n\<close> by (auto simp: hedge_fill_def round_ok_def)
    qed (use ok in \<open>simp add: hedge_fill_def round_ok_def\<close>)
  qed
  show "active s' \<noteq> []" if "hedge_fill n s = Continue s'"
    using that by (auto simp: hedge_fill_def hedge_push_def split: if_splits)
qed

lemma hedge_wait_ok:
  assumes ok: "hedge_ok results n s" and act: "active s \<noteq> []"
  shows "round_ok results n (\<lambda>l. l < hedge_left n s) (ev = Expired) (hedge_wait results n ev s)"
proof (cases ev)
  case (Ended i)
  show ?thesis
  proof (cases "i \<in> set (active s)")
    case True
    then have i: "i < n" "0 < length (active s)" using ok act by (auto simp: hedge_ok_def)
    show ?thesis
    proof (cases "results i")
      case (Inl e)
      let ?s = "s\<lparr>active := remove1 i (active s), last_err := Some e\<rparr>"
      have d: "distinct (active s)" using ok by (simp add: hedge_ok_def)
      have ok': "hedge_ok results n ?s" using ok Inl i(1) unfolding hedge_ok_def
        by (auto simp: set_remove1_eq [OF d])
      have l: "hedge_left n ?s < hedge_left n s" using True i(2) by (simp add: hedge_left_def length_remove1)
      show ?thesis
      proof (cases "next_up s = n")
        case False
        then have "next_up ?s < n" using ok by (simp add: hedge_ok_def)
        from hedge_push_ok [OF ok' this] l show ?thesis
          using False Ended True Inl act by (auto simp: hedge_wait_def round_ok_def Let_def)
      qed (use Ended True Inl act ok' l in \<open>simp add: hedge_wait_def round_ok_def Let_def\<close>)
    next
      case (Inr w)
      then show ?thesis using Ended True act i by (auto simp: hedge_wait_def round_ok_def)
    qed
  qed (use Ended act in \<open>simp add: hedge_wait_def round_ok_def\<close>)
next
  case Delay_over
  show ?thesis
  proof (cases "next_up s = n")
    case False
    then have "next_up s < n" using ok by (simp add: hedge_ok_def)
    from hedge_push_ok [OF ok this] show ?thesis
      using False Delay_over act by (auto simp: hedge_wait_def round_ok_def)
  qed (use Delay_over act in \<open>simp add: hedge_wait_def round_ok_def\<close>)
qed (use act in \<open>simp add: hedge_wait_def round_ok_def\<close>)

lemma round_ok_mono:
  "round_ok results n P x r \<Longrightarrow> (\<And>l. P l \<Longrightarrow> Q l) \<Longrightarrow> (x \<Longrightarrow> y) \<Longrightarrow> round_ok results n Q y r"
  by (auto simp: round_ok_def split: round.splits sum.splits)

lemma hedge_loop_ok:
  "hedge_ok results n s \<Longrightarrow> 0 < n \<Longrightarrow>
   round_ok results n (\<lambda>l. l + length evs \<le> hedge_left n s) (Expired \<in> set evs) (hedge_loop results n evs s)"
proof (induction evs arbitrary: s)
  case Nil
  then show ?case using hedge_fill_ok(1) [OF Nil] by simp
next
  case (Cons ev evs)
  note fill = hedge_fill_ok [OF Cons.prems]
  show ?case
  proof (cases "hedge_fill n s")
    case (Continue s1)
    have s1: "hedge_ok results n s1" "hedge_left n s1 \<le> hedge_left n s" "active s1 \<noteq> []"
      using fill(1) [of False] fill(2) [OF Continue] by (simp_all add: Continue round_ok_def)
    note wait = hedge_wait_ok [OF s1(1,3), of ev]
    show ?thesis
    proof (cases "hedge_wait results n ev s1")
      case s2: (Continue s2)
      then have "hedge_ok results n s2" "hedge_left n s2 < hedge_left n s1" using wait by (simp_all add: round_ok_def)
      from round_ok_mono [OF Cons.IH [OF this(1) Cons.prems(2)]] this(2) s1(2) show ?thesis
        by (simp add: Continue s2)
    qed (use wait Continue round_ok_mono [OF wait] in \<open>auto simp: round_ok_def split: sum.splits\<close>)
  qed (use fill(1) [of False] in \<open>auto simp: round_ok_def split: sum.splits\<close>)
qed

subsection \<open>The sequential strategy\<close>

lemma sequential_loop_time:
  "now \<le> deadline \<Longrightarrow> now \<le> snd (sequential_loop deadline now as le) \<and> snd (sequential_loop deadline now as le) \<le> deadline"
proof (induction as arbitrary: now le)
  case (Cons a as)
  show ?case
  proof (cases "deadline - now = 0 \<or> within (deadline - now) a")
    case True
    then have d: "the (att_time a) \<le> deadline - now \<or> deadline - now = 0"
      by (auto simp: within_def split: option.splits)
    show ?thesis
    proof (cases "deadline - now = 0")
      case False
      then have "now + the (att_time a) \<le> deadline" using d Cons.prems by linarith
      then show ?thesis using Cons.IH [of "now + the (att_time a)"] Cons.prems False True
        by (auto simp: Let_def split: sum.splits intro: order_trans [OF le_add1])
    qed (use Cons.prems in simp)
  next
    case False
    then show ?thesis
      using Cons.IH [of deadline "Some (Timed_out_querying (att_label a))"] Cons.prems by (simp add: Let_def)
  qed
qed simp

lemma sequential_loop_result:
  "fst (sequential_loop deadline now as le) = Inr w \<Longrightarrow> Inr w \<in> att_result ` set as"
proof (induction as arbitrary: now le)
  case (Cons a as)
  then show ?case by (auto simp: Let_def split: if_splits sum.splits)
qed simp

lemma sequential_loop_skip:
  assumes "\<forall>a\<in>set pre. \<exists>d e. att_time a = Some d \<and> att_result a = Inl e"
    and "now + sum_list (map (the \<circ> att_time) pre) < deadline"
  shows "\<exists>le'. sequential_loop deadline now (pre @ as) le =
    sequential_loop deadline (now + sum_list (map (the \<circ> att_time) pre)) as le'"
  using assms
proof (induction pre arbitrary: now le)
  case (Cons a pre)
  from Cons.prems(1) obtain d e where a: "att_time a = Some d" "att_result a = Inl e" by auto
  have w: "within (deadline - now) a" "deadline - now \<noteq> 0" using Cons.prems(2) a by (auto simp: within_def)
  from Cons.IH [of "now + d" "Some e"] Cons.prems a show ?case
    using w by (simp add: Let_def add.assoc)
qed auto

subsection \<open>The race\<close>

lemma select_ok_result:
  "select_ok results running order = Some r \<Longrightarrow>
    (\<forall>w. r = Inr w \<longrightarrow> (\<exists>i\<in>set running. results i = Inr w)) \<and>
    (\<forall>e. r = Inl e \<longrightarrow> distinct running \<longrightarrow> (\<forall>i\<in>set running. \<exists>e. results i = Inl e))"
proof (induction order arbitrary: running)
  case (Cons i order)
  then have i: "i \<in> set running" by (auto split: if_splits)
  show ?case
  proof (cases "results i")
    case (Inl e)
    show ?thesis
    proof (cases "remove1 i running = []")
      case True
      then have "distinct running \<Longrightarrow> set running = {i}" using i set_remove1_eq [of running i] by auto
      then show ?thesis using Cons.prems i Inl True by auto
    next
      case False
      then have "select_ok results (remove1 i running) order = Some r" using Cons.prems i Inl by (simp add: Let_def)
      note IH = Cons.IH [OF this]
      have "\<exists>j\<in>set running. results j = Inr w" if "r = Inr w" for w
        using IH that set_remove1_subset [of i running] by blast
      moreover have "\<exists>e. results j = Inl e" if "r = Inl e'" "distinct running" "j \<in> set running" for e' j
        using IH that Inl set_remove1_eq [of running i] distinct_remove1 [of running i] by (cases "j = i") auto
      ultimately show ?thesis by blast
    qed
  next
    case (Inr w)
    then show ?thesis using Cons.prems i by auto
  qed
qed simp

lemma select_ok_decides:
  assumes "set order = set running" "distinct running" "distinct order" "running \<noteq> []"
  shows "\<exists>r. select_ok results running order = Some r"
  using assms
proof (induction order arbitrary: running)
  case (Cons i order)
  then have i: "i \<in> set running" by auto
  have "set order = set (remove1 i running)" using Cons.prems by (auto simp: set_remove1_eq)
  then show ?case
    using Cons.IH [of "remove1 i running"] Cons.prems i by (auto simp: Let_def distinct_remove1 split: sum.splits)
qed simp

subsection \<open>Accepted responses\<close>

text \<open>
  A response for the query \<open>q\<close>: it has the ID of \<open>q\<close>, the QR bit, and the question of \<open>q\<close> up to ASCII case.
\<close>

definition answer_for :: "bytes \<Rightarrow> bytes \<Rightarrow> bool" where
  "answer_for q w \<longleftrightarrow>
     u16_at w 0 = u16_at q 0 \<and> (\<exists>b. get w 2 = Some b \<and> b AND 0x80 \<noteq> 0) \<and>
     (\<exists>a b. question_bytes q = Some a \<and> question_bytes w = Some b \<and> map ascii_lower a = map ascii_lower b)"

text \<open>The results of the modelled transports for the query \<open>q\<close>.\<close>

definition doh_outcome :: "bytes \<Rightarrow> upstream_error + bytes \<Rightarrow> bool" where
  "doh_outcome q r \<longleftrightarrow> (\<exists>send i. resolve_doh send i q = r)"

definition dot_outcome :: "bytes \<Rightarrow> upstream_error + bytes \<Rightarrow> bool" where
  "dot_outcome q r \<longleftrightarrow>
     (\<exists>rounds. query_wire_loop False rounds = Some r \<and>
        (\<forall>w. Inr (Inr w) \<in> set rounds \<longrightarrow>
           (\<exists>es now wd t i. dot_run es (dot_world_new now) = Some wd \<and> (t, Inr w) \<in> set (answered wd) \<and>
              registered (tasks wd) t q i)))"

lemma resolve_doh_answers:
  assumes "resolve_doh send i q = Inr w"
  shows "answers_query q i w"
proof -
  from assms obtain k where k: "question_key_from_wire (set_id q i) = Some k" "question_key_matches k w"
    and id: "map_option (\<lambda>b. u16_of_be (b ! 0) (b ! 1)) (get_range w 0 2) = Some i"
    and qr: "case get w 2 of Some flags \<Rightarrow> flags AND 0x80 \<noteq> 0 | None \<Rightarrow> False"
    by (auto simp: resolve_doh_def Let_def and_then_def split: option.splits sum.splits if_splits)
  have "2 \<le> length w" "u16_of_be (w ! 0) (w ! 1) = i"
    using id by (auto simp: get_range_def split: if_splits)
  then show ?thesis using k qr by (auto simp: answers_query_def get_def split: option.splits if_splits)
qed

lemma query_wire_result:
  "query_wire_loop b rounds = Some (Inr w) \<Longrightarrow> Inr (Inr w) \<in> set (take 2 rounds)"
  by (cases rounds; cases "tl rounds"; cases b)
    (auto split: sum.splits dot_failure.splits if_splits)

lemma outcome_answers:
  assumes "doh_outcome q (Inr w) \<or> dot_outcome q (Inr w)"
  shows "\<exists>i. answers_query q i w"
proof (rule disjE [OF assms])
  assume "doh_outcome q (Inr w)"
  then show ?thesis by (auto simp: doh_outcome_def dest: resolve_doh_answers)
next
  assume "dot_outcome q (Inr w)"
  then obtain rounds where loop: "query_wire_loop False rounds = Some (Inr w)"
    and src: "\<forall>w. Inr (Inr w) \<in> set rounds \<longrightarrow>
      (\<exists>es now wd t i. dot_run es (dot_world_new now) = Some wd \<and> (t, Inr w) \<in> set (answered wd) \<and>
         registered (tasks wd) t q i)" by (auto simp: dot_outcome_def)
  have "Inr (Inr w) \<in> set rounds" by (rule in_set_takeD [OF query_wire_result [OF loop]])
  with src obtain es now wd t i where run: "dot_run es (dot_world_new now) = Some wd" "(t, Inr w) \<in> set (answered wd)"
    "registered (tasks wd) t q i" by blast
  from answered_okD(2) [OF dot_invD(3) [OF dot_reachable [OF run(1)]] run(2)] obtain q' i' where
    "registered (tasks wd) t q' i'" "answers_query q' i' w" by blast
  then show ?thesis using registered_unique [OF run(3)] by blast
qed

lemma answers_query_id:
  assumes "answers_query q i w" "resolve_wire q (Inr w) = Inr w'"
  shows "answer_for q w'"
proof -
  from assms(1) obtain k where k: "question_key_from_wire (set_id q i) = Some k" "question_key_matches k w"
    and w: "2 < length w" "w ! 2 AND 0x80 \<noteq> 0" by (auto simp: answers_query_def)
  from k obtain a b where ab: "question_bytes q = Some a" "question_bytes w = Some b" "map ascii_lower a = map ascii_lower b"
    using question_key_matches_iff [OF k(1)] by auto
  have "12 \<le> length q" using ab(1) by (auto simp: question_bytes_def question_span_def split: if_splits)
  then have q: "get_range q 0 2 = Some (take 2 q)" "u16_at q 0 = Some (u16_of_be (q ! 0) (q ! 1))"
    by (auto simp: get_range_def u16_at_def get_def)
  then have w': "w' = set_id w (u16_of_be (q ! 0) (q ! 1))"
    using assms(2) \<open>12 \<le> length q\<close> by (simp add: resolve_wire_def and_then_def)
  show ?thesis unfolding answer_for_def w' q(2) using ab w set_id_read by (simp add: get_def [of w])
qed

subsection \<open>The contract of a strategy\<close>

text \<open>
  \<open>returns results n sched r\<close>: with the results \<open>results i\<close> of the \<open>n\<close> upstreams and the timing \<open>sched\<close>, the
  strategy returns \<open>r\<close>; \<open>late\<close> says that the time limit cut something off.
\<close>

locale strategy =
  fixes returns :: "(nat \<Rightarrow> upstream_error + bytes) \<Rightarrow> nat \<Rightarrow> 's \<Rightarrow> upstream_error + bytes \<Rightarrow> bool"
    and late :: "'s \<Rightarrow> bool"
  assumes picks: "returns results n sched (Inr w) \<Longrightarrow> \<exists>i<n. results i = Inr w"
    and gives_up: "returns results n sched (Inl e) \<Longrightarrow> i < n \<Longrightarrow> \<not> late sched \<Longrightarrow> \<exists>e. results i = Inl e"
begin

lemma checked:
  assumes "\<forall>i<n. doh_outcome q (results i) \<or> dot_outcome q (results i)"
    and "returns results n sched r" "resolve_wire q r = Inr w"
  shows "answer_for q w"
proof -
  from assms(3) obtain w0 where r: "r = Inr w0" by (cases r) (auto simp: resolve_wire_def and_then_def Let_def)
  from picks [OF assms(2) [unfolded r]] assms(1) obtain i where "answers_query q i w0" using outcome_answers by metis
  from answers_query_id [OF this assms(3) [unfolded r]] show ?thesis .
qed

lemma available:
  assumes "returns results n sched r" "i < n" "results i = Inr w" "\<not> late sched"
  shows "\<exists>j<n. \<exists>w'. results j = Inr w' \<and> r = Inr w'"
proof (cases r)
  case (Inl e)
  then show ?thesis using gives_up [of results n sched e i] assms by auto
next
  case (Inr w')
  then show ?thesis using picks [of results n sched w'] assms(1) by auto
qed

end

subsection \<open>The three strategies\<close>

text \<open>The sequential strategy and the race run on a list of timed attempts.\<close>

definition results_of :: "attempt list \<Rightarrow> (nat \<Rightarrow> upstream_error + bytes) \<Rightarrow> nat \<Rightarrow> bool" where
  "results_of as results n \<longleftrightarrow> n = length as \<and> (\<forall>i<n. results i = att_result (as ! i))"

definition sequential_returns ::
  "(nat \<Rightarrow> upstream_error + bytes) \<Rightarrow> nat \<Rightarrow> nat \<times> attempt list \<Rightarrow> upstream_error + bytes \<Rightarrow> bool" where
  "sequential_returns results n sched r \<longleftrightarrow>
     results_of (snd sched) results n \<and> fst (resolve_sequential (fst sched) (snd sched)) = r"

definition sequential_late :: "nat \<times> attempt list \<Rightarrow> bool" where
  "sequential_late sched \<longleftrightarrow>
     (\<exists>a\<in>set (snd sched). att_time a = None) \<or> UPSTREAM_TIMEOUT \<le> sum_list (map (the \<circ> att_time) (snd sched))"

definition hedged_returns ::
  "(nat \<Rightarrow> upstream_error + bytes) \<Rightarrow> nat \<Rightarrow> hedge_event list \<Rightarrow> upstream_error + bytes \<Rightarrow> bool" where
  "hedged_returns results n evs r \<longleftrightarrow> resolve_hedged results n evs = Return r"

definition race_returns ::
  "(nat \<Rightarrow> upstream_error + bytes) \<Rightarrow> nat \<Rightarrow> attempt list \<times> nat list \<Rightarrow> upstream_error + bytes \<Rightarrow> bool" where
  "race_returns results n sched r \<longleftrightarrow>
     results_of (fst sched) results n \<and> resolve_race (fst sched) (snd sched) = Some r"

definition race_late :: "attempt list \<times> nat list \<Rightarrow> bool" where
  "race_late sched \<longleftrightarrow> (\<exists>a\<in>set (fst sched). \<not> within UPSTREAM_TIMEOUT a)"

lemma hedge_start_ok: "hedge_ok results n \<lparr>active = [], next_up = 0, last_err = None\<rparr>"
  by (simp add: hedge_ok_def)

interpretation seq: strategy sequential_returns sequential_late
proof
  fix results n sched w assume "sequential_returns results n sched (Inr w)"
  then have r: "results_of (snd sched) results n" "Inr w \<in> att_result ` set (snd sched)"
    using sequential_loop_result [of "fst sched + UPSTREAM_TIMEOUT" "fst sched" "snd sched" None w]
    unfolding sequential_returns_def resolve_sequential_def by simp_all
  then obtain i where "i < length (snd sched)" "att_result (snd sched ! i) = Inr w"
    by (auto simp: in_set_conv_nth image_iff)
  then show "\<exists>i<n. results i = Inr w" using r(1) by (auto simp: results_of_def)
next
  fix results n sched e i
  assume r: "sequential_returns results n sched (Inl e)" and i: "i < n" and l: "\<not> sequential_late sched"
  obtain now as where s: "sched = (now, as)" by (cases sched)
  show "\<exists>e. results i = Inl e"
  proof (rule ccontr)
    assume "\<not> (\<exists>e. results i = Inl e)"
    then obtain w where w: "results i = Inr w" by (cases "results i") auto
    define j where "j = (LEAST j. \<exists>w. results j = Inr w)"
    have j: "\<exists>w. results j = Inr w" "j \<le> i" unfolding j_def using w by (auto intro: LeastI Least_le)
    then have jn: "j < length as" using i r by (simp add: s sequential_returns_def results_of_def)
    have as: "as = take j as @ as ! j # drop (Suc j) as" by (rule id_take_nth_drop [OF jn])
    have res: "att_result (as ! k) = results k" if "k < length as" for k
      using r that by (simp add: s sequential_returns_def results_of_def)
    have pre: "\<forall>a\<in>set (take j as). \<exists>d e. att_time a = Some d \<and> att_result a = Inl e"
    proof
      fix a assume "a \<in> set (take j as)"
      then obtain k where k: "k < j" "a = as ! k" using jn by (auto simp: in_set_conv_nth)
      then have "att_result a = results k" "a \<in> set as" using res jn by auto
      moreover have "\<not> (\<exists>w. results k = Inr w)" using not_less_Least [of k] k(1) unfolding j_def by blast
      ultimately show "\<exists>d e. att_time a = Some d \<and> att_result a = Inl e"
        using l by (cases "results k") (auto simp: s sequential_late_def)
    qed
    have t: "att_time (as ! j) = Some (the (att_time (as ! j)))" using l jn by (auto simp: s sequential_late_def)
    let ?T = "\<lambda>xs. sum_list (map (the \<circ> att_time) xs)"
    have "?T as = ?T (take j as) + the (att_time (as ! j)) + ?T (drop (Suc j) as)" by (subst as) simp
    moreover have "?T as < UPSTREAM_TIMEOUT" using l by (simp add: s sequential_late_def not_le)
    ultimately have lim: "?T (take j as) + the (att_time (as ! j)) < UPSTREAM_TIMEOUT" by linarith
    obtain le where "resolve_sequential now as =
        sequential_loop (now + UPSTREAM_TIMEOUT) (now + ?T (take j as)) (as ! j # drop (Suc j) as) le"
      unfolding resolve_sequential_def
      using sequential_loop_skip [OF pre, of now "now + UPSTREAM_TIMEOUT" "as ! j # drop (Suc j) as" None] lim
        as by auto
    moreover have "the (att_time (as ! j)) \<le> now + UPSTREAM_TIMEOUT - (now + ?T (take j as))" using lim by linarith
    then have "within (now + UPSTREAM_TIMEOUT - (now + ?T (take j as))) (as ! j)"
      unfolding within_def by (subst t) simp
    ultimately show False using r j(1) res [OF jn] lim by (auto simp: s sequential_returns_def Let_def)
  qed
qed

interpretation hedged: strategy hedged_returns "\<lambda>evs. Expired \<in> set evs"
proof
  fix results n evs w assume "hedged_returns results n evs (Inr w)"
  then show "\<exists>i<n. results i = Inr w"
    using hedge_loop_ok [OF hedge_start_ok, of n results evs]
    by (auto simp: hedged_returns_def resolve_hedged_def round_ok_def split: if_splits)
next
  fix results n evs e i assume "hedged_returns results n evs (Inl e)" "i < n" "Expired \<notin> set evs"
  then show "\<exists>e. results i = Inl e"
    using hedge_loop_ok [OF hedge_start_ok, of n results evs]
    by (auto simp: hedged_returns_def resolve_hedged_def round_ok_def split: if_splits)
qed

interpretation race: strategy race_returns race_late
proof
  fix results n sched w assume r: "race_returns results n sched (Inr w)"
  then obtain i where "i < length (fst sched)" "race_result (fst sched ! i) = Inr w"
    using select_ok_result [of "\<lambda>i. race_result (fst sched ! i)" "[0..<length (fst sched)]" "snd sched" "Inr w"]
    by (auto simp: race_returns_def resolve_race_def split: if_splits)
  then show "\<exists>i<n. results i = Inr w"
    using r by (auto simp: race_returns_def results_of_def race_result_def split: if_splits)
next
  fix results n sched e i assume r: "race_returns results n sched (Inl e)" and i: "i < n" and l: "\<not> race_late sched"
  then have "\<exists>e. race_result (fst sched ! i) = Inl e"
    using select_ok_result [of "\<lambda>i. race_result (fst sched ! i)" "[0..<length (fst sched)]" "snd sched" "Inl e"]
    by (auto simp: race_returns_def resolve_race_def results_of_def split: if_splits)
  then show "\<exists>e. results i = Inl e"
    using r i l by (auto simp: race_returns_def results_of_def race_result_def race_late_def split: if_splits)
qed

subsection \<open>Properties\<close>

lemma resolve_wire_answers:
  assumes "\<forall>a\<in>set as. doh_outcome q (att_result a) \<or> dot_outcome q (att_result a)"
    and "fst (resolve_sequential now as) = r \<or> resolve_race as order = Some r \<or>
      resolve_hedged (\<lambda>i. att_result (as ! i)) (length as) evs = Return r"
    and "resolve_wire q r = Inr w"
  shows "answer_for q w"
proof -
  let ?res = "\<lambda>i. att_result (as ! i)" and ?n = "length as"
  have out: "\<forall>i<?n. doh_outcome q (?res i) \<or> dot_outcome q (?res i)" using assms(1) by simp
  have rs: "results_of as ?res ?n" by (simp add: results_of_def)
  from assms(2) consider "sequential_returns ?res ?n (now, as) r" | "race_returns ?res ?n (as, order) r"
    | "hedged_returns ?res ?n evs r"
    using rs by (auto simp: sequential_returns_def race_returns_def hedged_returns_def)
  then show ?thesis
    using seq.checked [OF out _ assms(3)] race.checked [OF out _ assms(3)] hedged.checked [OF out _ assms(3)]
    by cases blast+
qed

text \<open>A result of the upstreams for the query \<open>q\<close>, over one of the strategies.\<close>

definition upstream_result :: "bytes \<Rightarrow> upstream_error + bytes \<Rightarrow> bool" where
  "upstream_result q result \<longleftrightarrow>
     (\<exists>as now order evs r. (\<forall>a\<in>set as. doh_outcome q (att_result a) \<or> dot_outcome q (att_result a)) \<and>
        (fst (resolve_sequential now as) = r \<or> resolve_race as order = Some r \<or>
         resolve_hedged (\<lambda>i. att_result (as ! i)) (length as) evs = Return r) \<and>
        result = resolve_wire q r)"

lemma upstream_result_answers: "upstream_result q (Inr w) \<Longrightarrow> answer_for q w"
  unfolding upstream_result_def using resolve_wire_answers by (metis (no_types))

text \<open>
  C6. Only an answer to the query is accepted: when every attempt is one of the two transports for
  the query, with any network behaviour, then whatever strategy is configured, whatever the timing
  and the interleaving, a successful \<open>resolve_wire\<close> returns a message with the ID of the query, the QR
  bit, and the question of the query up to ASCII case.
\<close>

theorem resolve_wire_checked:
  assumes "\<forall>a\<in>set as. doh_outcome q (att_result a) \<or> dot_outcome q (att_result a)"
    and "fst (resolve_sequential now as) = r \<or> resolve_race as order = Some r \<or>
      resolve_hedged (\<lambda>i. att_result (as ! i)) (length as) evs = Return r"
    and "resolve_wire q r = Inr w"
  shows "answer_for q w"
  using assms by (rule resolve_wire_answers)

text \<open>An upstream that answers the root query over HTTPS, and one that refuses the connection.\<close>

definition good_http :: "nat \<Rightarrow> bytes \<Rightarrow> http_error + bytes" where
  "good_http n wire = Inr root_reply"

definition refused :: http_error where
  "refused = \<lparr>is_timeout = False, is_connect = True, is_request = False, is_body = False\<rparr>"

definition two_upstreams :: "attempt list" where
  "two_upstreams =
     [\<lparr>att_label = [97], att_time = Some 10, att_result = resolve_doh (\<lambda>_ _. Inl refused) 5 root_query\<rparr>,
      \<lparr>att_label = [98], att_time = Some 20, att_result = resolve_doh good_http 5 root_query\<rparr>]"

lemma two_upstreams_results:
  "resolve_doh (\<lambda>_ _. Inl refused) 5 root_query = Inl (Doh_retry_failed refused)"
  "resolve_doh good_http 5 root_query = Inr root_reply"
  "\<forall>a\<in>set two_upstreams. doh_outcome root_query (att_result a)"
proof -
  have r: "is_retryable refused" by (simp add: is_retryable_def refused_def)
  have id: "get_range root_reply 0 2 = Some [0, 5]" "u16_of_be 0 5 = 5" "get root_reply 2 = Some 0x81" by code_simp+
  show "resolve_doh (\<lambda>_ _. Inl refused) 5 root_query = Inl (Doh_retry_failed refused)"
    using root_facts(1) r by (simp add: resolve_doh_def query_doh_def and_then_def Let_def)
  show "resolve_doh good_http 5 root_query = Inr root_reply"
    using root_facts id by (simp add: resolve_doh_def query_doh_def good_http_def and_then_def Let_def)
  show "\<forall>a\<in>set two_upstreams. doh_outcome root_query (att_result a)"
    by (auto simp: two_upstreams_def doh_outcome_def)
qed

lemma two_upstreams_sequential: "resolve_sequential 0 two_upstreams = (Inr root_reply, 30)"
  by (simp add: resolve_sequential_def two_upstreams_def two_upstreams_results within_def Let_def)

theorem resolve_wire_checked_witness:
  "\<exists>w. resolve_wire root_query (fst (resolve_sequential 0 two_upstreams)) = Inr w \<and> answer_for root_query w"
proof -
  obtain w where w: "resolve_wire root_query (fst (resolve_sequential 0 two_upstreams)) = Inr w"
    by (simp add: two_upstreams_sequential resolve_wire_def and_then_def Let_def)
  from resolve_wire_checked [OF _ _ w, of two_upstreams 0] two_upstreams_results(3) w show ?thesis by auto
qed

text \<open>
  C27. One upstream that answers is enough: when no time limit cuts an attempt off, a strategy that
  returns at all returns the answer of one of the upstreams as soon as one of them has an answer.
\<close>

theorem available_upstream_suffices:
  assumes "fst (resolve_sequential now as) = r \<and> \<not> sequential_late (now, as) \<or>
      resolve_race as order = Some r \<and> \<not> race_late (as, order) \<or>
      resolve_hedged (\<lambda>i. att_result (as ! i)) (length as) evs = Return r \<and> Expired \<notin> set evs"
    and "a \<in> set as" "att_result a = Inr w"
  shows "\<exists>a'\<in>set as. \<exists>w'. att_result a' = Inr w' \<and> r = Inr w'"
proof -
  let ?res = "\<lambda>i. att_result (as ! i)" and ?n = "length as"
  have rs: "results_of as ?res ?n" by (simp add: results_of_def)
  obtain i where i: "i < ?n" "?res i = Inr w" using assms(2,3) by (auto simp: in_set_conv_nth)
  from assms(1) consider "sequential_returns ?res ?n (now, as) r" "\<not> sequential_late (now, as)"
    | "race_returns ?res ?n (as, order) r" "\<not> race_late (as, order)"
    | "hedged_returns ?res ?n evs r" "Expired \<notin> set evs"
    using rs by (auto simp: sequential_returns_def race_returns_def hedged_returns_def)
  then have "\<exists>j<?n. \<exists>w'. ?res j = Inr w' \<and> r = Inr w'"
    using seq.available [of ?res ?n "(now, as)" r i w] race.available [of ?res ?n "(as, order)" r i w]
      hedged.available [of ?res ?n evs r i w] i by cases blast+
  then show ?thesis by auto
qed

theorem available_upstream_suffices_witness:
  "\<exists>a'\<in>set two_upstreams. \<exists>w'. att_result a' = Inr w' \<and> fst (resolve_sequential 0 two_upstreams) = Inr w'"
proof (rule available_upstream_suffices)
  show "fst (resolve_sequential 0 two_upstreams) = fst (resolve_sequential 0 two_upstreams) \<and>
      \<not> sequential_late (0, two_upstreams) \<or> resolve_race two_upstreams [] = Some (fst (resolve_sequential 0 two_upstreams)) \<and>
      \<not> race_late (two_upstreams, []) \<or>
      resolve_hedged (\<lambda>i. att_result (two_upstreams ! i)) (length two_upstreams) [] =
        Return (fst (resolve_sequential 0 two_upstreams)) \<and> Expired \<notin> set []"
    by (simp add: sequential_late_def two_upstreams_def)
  show "two_upstreams ! 1 \<in> set two_upstreams" "att_result (two_upstreams ! 1) = Inr root_reply"
    by (simp_all add: two_upstreams_def two_upstreams_results)
qed

text \<open>
  C28. Hedging ends: with \<open>n\<close> upstreams the loop makes at most \<open>2 n\<close> rounds before it returns, in
  whatever order attempts end and delays pass; it never finds its set of attempts empty and never
  reads past the list of upstreams.
\<close>

theorem hedged_terminates:
  shows "resolve_hedged results n evs \<noteq> Panic \<and>
    (2 * n < length evs \<longrightarrow> (\<exists>r. resolve_hedged results n evs = Return r) \<or> resolve_hedged results n evs = Impossible)"
proof (cases "n = 0")
  case False
  then have "round_ok results n (\<lambda>l. l + length evs \<le> 2 * n) (Expired \<in> set evs) (resolve_hedged results n evs)"
    using hedge_loop_ok [OF hedge_start_ok, of n results evs] by (simp add: resolve_hedged_def hedge_left_def)
  then show ?thesis by (auto simp: round_ok_def split: round.splits)
qed (simp add: resolve_hedged_def)

theorem hedged_terminates_witness:
  "\<exists>r. resolve_hedged (\<lambda>i. if i = 0 then Inl Id_mismatch else Inr root_reply) 2
     [Delay_over, Ended 0, Ended 1, Ended 1, Ended 1] = Return r"
proof -
  let ?r = "resolve_hedged (\<lambda>i. if i = 0 then Inl Id_mismatch else Inr root_reply) 2
     [Delay_over, Ended 0, Ended 1, Ended 1, Ended 1]"
  have "?r \<noteq> Impossible"
    by (simp add: resolve_hedged_def hedge_fill_def hedge_push_def hedge_wait_def Let_def)
  then show ?thesis
    using hedged_terminates [of "\<lambda>i. if i = 0 then Inl Id_mismatch else Inr root_reply" 2
      "[Delay_over, Ended 0, Ended 1, Ended 1, Ended 1]"] by simp
qed

text \<open>
  Falling back stays within one timeout: trying the upstreams in order takes at most five seconds
  in all, however many there are and however they behave.
\<close>

theorem sequential_within_timeout:
  "now \<le> snd (resolve_sequential now as) \<and> snd (resolve_sequential now as) \<le> now + UPSTREAM_TIMEOUT"
  using sequential_loop_time [of now "now + UPSTREAM_TIMEOUT" as None] by (simp add: resolve_sequential_def)

text \<open>
  The time is not split across the upstreams: one upstream that does not answer uses up the whole
  timeout, and the sequential strategy fails without having asked the upstreams after it, even one
  that would answer at once.
\<close>

theorem sequential_hang_blocks_fallback:
  assumes "att_time a = None"
  shows "\<exists>e. resolve_sequential now (a # as) = (Inl e, now + UPSTREAM_TIMEOUT)"
  using assms by (cases as) (simp_all add: resolve_sequential_def within_def Let_def)

theorem sequential_hang_blocks_fallback_witness:
  "\<exists>e. resolve_sequential 0 [\<lparr>att_label = [97], att_time = None, att_result = Inl Id_mismatch\<rparr>,
     \<lparr>att_label = [98], att_time = Some 1, att_result = Inr root_reply\<rparr>] = (Inl e, 5 * 10 ^ 9)"
  using sequential_hang_blocks_fallback [of "\<lparr>att_label = [97], att_time = None, att_result = Inl Id_mismatch\<rparr>" 0
    "[\<lparr>att_label = [98], att_time = Some 1, att_result = Inr root_reply\<rparr>]"] by simp

end
