(* ===== verification/Handler_Correct.thy ===== *)
theory Handler_Correct
  imports Handler Cache_Correct Upstream_Correct Blocklist_Correct
begin

text \<open>
  The query handler over a cache and a block list that satisfy their invariants: no operation of it
  panics, and what it replies and stores answers a query with the same key. \<open>H\<close> is a set of requests;
  \<open>genuine sv H k w\<close> says that \<open>w\<close> is a response to one of them that has the key \<open>k\<close>.
\<close>

subsection \<open>Requests and responses\<close>

definition asks :: "('h, 'rt, 'cl) services \<Rightarrow> bytes \<Rightarrow> ('rt, 'cl) cache_key \<Rightarrow> bool" where
  "asks sv raw k \<longleftrightarrow> (\<exists>q name. parse_request sv raw = Some (q, name) \<and> k = query_key q name)"

definition response_to :: "bytes \<Rightarrow> bytes \<Rightarrow> bool" where
  "response_to raw w \<longleftrightarrow> 2 \<le> length w \<and> (\<exists>b. get w 2 = Some b \<and> b AND 0x80 \<noteq> 0) \<and>
     (\<exists>a b. question_bytes raw = Some a \<and> question_bytes w = Some b \<and> map ascii_lower a = map ascii_lower b)"

definition genuine ::
  "('h, 'rt, 'cl) services \<Rightarrow> bytes set \<Rightarrow> ('rt, 'cl) cache_key \<Rightarrow> bytes \<Rightarrow> bool" where
  "genuine sv H k w \<longleftrightarrow> (\<exists>raw\<in>H. asks sv raw k \<and> response_to raw w)"

lemma asks_inj: "asks sv raw k \<Longrightarrow> asks sv raw k' \<Longrightarrow> k = k'"
  by (auto simp: asks_def)

lemma response_to_set_id [simp]: "response_to raw (set_id w i) = response_to raw w"
  by (simp add: response_to_def)

lemma genuine_set_id [simp]: "genuine sv H k (set_id w i) = genuine sv H k w"
  by (simp add: genuine_def)

lemma response_to_age:
  assumes "response_to raw w" shows "response_to raw (snd (age_ttls w e fz))"
proof -
  obtain ok w' where a: "age_ttls w e fz = (ok, w')" by (cases "age_ttls w e fz")
  note fr = age_ttls_frame_lemma [OF a]
  have "get w' 2 = get w 2"
    using fr nth_take [of 2 12 w'] nth_take [of 2 12 w] by (simp add: get_def)
  then show ?thesis using assms fr question_bytes_age [OF a] by (simp add: response_to_def a)
qed

lemma genuine_age: "genuine sv H k w \<Longrightarrow> genuine sv H k (snd (age_ttls w e fz))"
  using response_to_age by (fastforce simp: genuine_def)

lemma genuine_mono: "genuine sv H k w \<Longrightarrow> H \<subseteq> H' \<Longrightarrow> genuine sv H' k w"
  by (auto simp: genuine_def)

lemma answer_for_response: "answer_for raw w \<Longrightarrow> response_to raw w"
  by (auto simp: answer_for_def response_to_def get_def split: if_splits)

text \<open>What the handler makes of a request it accepts; the name has 1 to 255 bytes.\<close>

lemma parse_requestE:
  assumes "parse_request sv raw = Some (q, name)"
  obtains i b2 b3 an ns ar ls qt qc rest where
    "raw = query_wire i b2 b3 an ns ar ls qt qc rest" "b2 AND 0x80 = 0" "list_all label_ok ls" "length (dotted ls) \<le> 255"
    "q = query_info (codec sv) i b2 b3 ls qt qc (opt_of raw (16 + length (enc_name ls)))" "name = canonical ls"
proof -
  obtain buf where p: "parse_query (codec sv) raw (replicate 255 0) = Some (q, buf)" and name: "name = take (name_len q) buf"
    using assms by (auto simp: parse_request_def)
  obtain i b2 b3 an ns ar ls qt qc rest where
    w: "raw = query_wire i b2 b3 an ns ar ls qt qc rest" "b2 AND 0x80 = 0"
    "list_all label_ok ls" "length (dotted ls) \<le> 255"
    by (rule parse_query_sound [OF p]) simp_all
  have "length (replicate 255 (0 :: u8)) = 255" by simp
  from parse_query_complete [OF w this, of "codec sv"] p
  have q: "q = query_info (codec sv) i b2 b3 ls qt qc (opt_of raw (16 + length (enc_name ls)))"
    and buf: "buf = blit (replicate 255 0) 0 (canonical ls)" by auto
  have "name = canonical ls" by (simp add: name q buf query_info_def blit_def)
  from that [OF w q this] show thesis .
qed

lemma parse_request_name:
  assumes "parse_request sv raw = Some (q, name)"
  shows "name \<noteq> []" "length name \<le> 255"
  using assms by (auto elim!: parse_requestE simp: canonical_def split: if_splits)

lemma asks_name:
  assumes "asks sv raw k" shows "fst k \<noteq> []" "length (fst k) \<le> 255"
proof -
  from assms obtain q name where "parse_request sv raw = Some (q, name)" "fst k = name"
    by (auto simp: asks_def query_key_def)
  then show "fst k \<noteq> []" "length (fst k) \<le> 255" using parse_request_name by auto
qed

lemma synthesize_responds:
  assumes codec: "codec_ok (codec sv)" and p: "parse_request sv raw = Some (q, name)"
  shows "response_to raw (synthesize (codec sv) raw q rcode answer)"
    "u16_at (synthesize (codec sv) raw q rcode answer) 0 = Some (pq_id q)"
proof -
  from p obtain i b2 b3 an ns ar ls qt qc rest where
    w: "raw = query_wire i b2 b3 an ns ar ls qt qc rest" "list_all label_ok ls"
    and q: "q = query_info (codec sv) i b2 b3 ls qt qc (opt_of raw (16 + length (enc_name ls)))"
    by (rule parse_requestE)
  let ?c2 = "0x80 OR push_bit 3 (opcode q) OR of_bool (recursion_desired q)"
  note s = synthesize_query_wire [OF codec w(1) q, of rcode answer, unfolded enc_msg_def]
  have nm: "wire_name (enc_name ls)" by (rule wire_name_enc_name [OF w(2)])
  have "question_bytes raw = Some (enc_q (enc_name ls, qt, qc))"
    using question_bytes_msg [OF nm w(1) [unfolded query_wire_def]] by simp
  moreover have "question_bytes (synthesize (codec sv) raw q rcode answer) = Some (enc_q (enc_name ls, qt, qc))"
    unfolding s using question_bytes_msg [OF nm refl] by simp
  moreover have "get (synthesize (codec sv) raw q rcode answer) 2 = Some ?c2"
    unfolding s by (simp add: get_def enc_header_def be16_def)
  moreover have "?c2 AND 0x80 \<noteq> 0"
  proof
    assume "?c2 AND 0x80 = 0"
    then have "\<not> bit (?c2 AND 0x80) 7" by simp
    then show False by (simp add: bit_simps)
  qed
  moreover have "2 \<le> length (synthesize (codec sv) raw q rcode answer)" unfolding s by simp
  ultimately show "response_to raw (synthesize (codec sv) raw q rcode answer)" by (auto simp: response_to_def)
  have "pq_id q = i" by (simp add: q query_info_def)
  then show "u16_at (synthesize (codec sv) raw q rcode answer) 0 = Some (pq_id q)"
    unfolding s by (simp add: enc_header_def at_u16)
qed

lemma query_id_read:
  assumes "parse_request sv raw = Some (q, name)"
  shows "u16_at raw 0 = Some (pq_id q)"
  using assms by (auto elim!: parse_requestE simp: query_wire_def query_info_def enc_header_def at_u16)

text \<open>
  Requests whose labels contain no dot: then requests with the same key have the same question up to
  case.
\<close>

definition plain :: "bytes \<Rightarrow> bool" where
  "plain raw \<longleftrightarrow> (\<exists>i b2 b3 an ns ar ls qt qc rest. raw = query_wire i b2 b3 an ns ar ls qt qc rest \<and>
     list_all label_ok ls \<and> (\<forall>l\<in>set ls. 46 \<notin> set l))"

lemma enc_name_inject:
  "list_all label_ok ls \<Longrightarrow> list_all label_ok ms \<Longrightarrow> enc_name ls @ x = enc_name ms @ y \<Longrightarrow> ls = ms"
proof (induction ls arbitrary: ms)
  case Nil
  then show ?case by (cases ms) (auto simp: enc_name_def label_ok_def unat_eq_zero [symmetric] unat_of_nat)
next
  case (Cons l ls)
  show ?case
  proof (cases ms)
    case Nil
    then show ?thesis using Cons.prems
      by (auto simp: enc_name_def label_ok_def unat_eq_zero [symmetric] unat_of_nat)
  next
    case (Cons m ms')
    have b: "length l < 256" "length m < 256" using Cons.prems Cons by (auto simp: label_ok_def)
    have e: "(of_nat (length l) :: u8) = of_nat (length m)" "l @ enc_name ls @ x = m @ enc_name ms' @ y"
      using Cons.prems(3) Cons by (simp_all add: enc_name_def)
    have "length l = length m" using arg_cong [OF e(1), of unat] b by (simp add: unat_of_nat)
    with e(2) have "l = m" "enc_name ls @ x = enc_name ms' @ y" by simp_all
    then show ?thesis using Cons.IH [of ms'] Cons.prems Cons by simp
  qed
qed

lemma enc_name_lower:
  "map (map ascii_lower) ls = map (map ascii_lower) ms \<Longrightarrow> map ascii_lower (enc_name ls) = map ascii_lower (enc_name ms)"
proof (induction ls arbitrary: ms)
  case (Cons l ls)
  then obtain m ms' where ms: "ms = m # ms'" "map ascii_lower l = map ascii_lower m"
    "map (map ascii_lower) ls = map (map ascii_lower) ms'" by (cases ms) auto
  then have "length l = length m" by (metis length_map)
  then show ?case using Cons.IH [OF ms(3)] ms by (simp add: enc_name_def)
qed simp

lemma plainE:
  assumes "plain raw" "parse_request sv raw = Some (q, name)"
  obtains ls qt qc where "name = canonical ls" "list_all label_ok ls" "\<forall>l\<in>set ls. 46 \<notin> set l"
    "question_bytes raw = Some (enc_name ls @ be16 qt @ be16 qc)"
    "qtype q = rtype_from (codec sv) qt" "qclass q = class_from (codec sv) qc"
proof -
  from assms(2) obtain i b2 b3 an ns ar ls qt qc rest where
    w: "raw = query_wire i b2 b3 an ns ar ls qt qc rest" "list_all label_ok ls"
    and q: "q = query_info (codec sv) i b2 b3 ls qt qc (opt_of raw (16 + length (enc_name ls)))" "name = canonical ls"
    by (rule parse_requestE)
  from assms(1) obtain i' b2' b3' an' ns' ar' ms qt' qc' rest' where
    w': "raw = query_wire i' b2' b3' an' ns' ar' ms qt' qc' rest'" "list_all label_ok ms" "\<forall>l\<in>set ms. 46 \<notin> set l"
    unfolding plain_def by blast
  have "drop 12 raw = enc_name ls @ be16 qt @ be16 qc @ rest" unfolding w(1) by (simp add: query_wire_def)
  moreover have "drop 12 raw = enc_name ms @ be16 qt' @ be16 qc' @ rest'" unfolding w'(1) by (simp add: query_wire_def)
  ultimately have "enc_name ls @ be16 qt @ be16 qc @ rest = enc_name ms @ be16 qt' @ be16 qc' @ rest'" by simp
  then have "ls = ms" by (rule enc_name_inject [OF w(2) w'(2)])
  then have "\<forall>l\<in>set ls. 46 \<notin> set l" using w'(3) by simp
  moreover have "question_bytes raw = Some (enc_name ls @ be16 qt @ be16 qc)"
    using question_bytes_msg [OF wire_name_enc_name [OF w(2)] w(1) [unfolded query_wire_def]] .
  moreover have "qtype q = rtype_from (codec sv) qt" "qclass q = class_from (codec sv) qc"
    by (simp_all add: q query_info_def)
  ultimately show thesis using that [OF q(2) w(2)] by blast
qed

lemma same_question:
  assumes codec: "codec_ok (codec sv)" and raw: "plain raw" "asks sv raw k" and raw': "plain raw'" "asks sv raw' k"
    and w: "response_to raw' w"
  shows "response_to raw w"
proof -
  from raw(2) obtain q name where q: "parse_request sv raw = Some (q, name)" "k = query_key q name" by (auto simp: asks_def)
  from raw'(2) obtain q' where q': "parse_request sv raw' = Some (q', name)" "qtype q' = qtype q" "qclass q' = qclass q"
    using q(2) by (auto simp: asks_def query_key_def)
  obtain ls qt qc where a: "name = canonical ls" "list_all label_ok ls" "\<forall>l\<in>set ls. 46 \<notin> set l"
    "question_bytes raw = Some (enc_name ls @ be16 qt @ be16 qc)"
    "qtype q = rtype_from (codec sv) qt" "qclass q = class_from (codec sv) qc" by (rule plainE [OF raw(1) q(1)])
  obtain ms qt' qc' where b: "name = canonical ms" "list_all label_ok ms" "\<forall>l\<in>set ms. 46 \<notin> set l"
    "question_bytes raw' = Some (enc_name ms @ be16 qt' @ be16 qc')"
    "qtype q' = rtype_from (codec sv) qt'" "qclass q' = class_from (codec sv) qc'" by (rule plainE [OF raw'(1) q'(1)])
  have "qt' = qt" "qc' = qc" using codec a(5,6) b(5,6) q'(2,3) unfolding codec_ok_def by metis+
  moreover have "map ascii_lower (enc_name ls) = map ascii_lower (enc_name ms)"
    by (rule enc_name_lower [OF canonical_inject [OF a(2) b(2) a(3) b(3)]]) (use a(1) b(1) in simp)
  ultimately show ?thesis using w a(4) b(4) by (auto simp: response_to_def)
qed

subsection \<open>The cache\<close>

definition cached_ok :: "('h, 'rt, 'cl) services \<Rightarrow> bytes set \<Rightarrow> ('rt, 'cl) cached \<Rightarrow> bool" where
  "cached_ok sv H x \<longleftrightarrow> genuine sv H (c_key x) (c_wire x) \<and> c_request x \<in> H"

text \<open>A cache with \<open>p\<close> free refresh permits that holds only genuine answers.\<close>

definition cache_good ::
  "('h, 'rt, 'cl) services \<Rightarrow> ('h \<Rightarrow> nat \<Rightarrow> (nat \<times> nat) set \<Rightarrow> bool) \<Rightarrow> bytes set \<Rightarrow> nat
    \<Rightarrow> ('h, 'rt, 'cl) response_cache \<Rightarrow> bool" where
  "cache_good sv R H p c \<longleftrightarrow>
     (\<exists>en n cs. cache_view (cache_env_of sv) R en n c (p, cs) \<and> (\<forall>x\<in>set cs. cached_ok sv H x))"

lemma cached_ok_origin: "origin x = origin y \<Longrightarrow> cached_ok sv H x = cached_ok sv H y"
  by (simp add: origin_def cached_ok_def)

lemma cached_ok_step:
  assumes "origin ` set cs' \<subseteq> origin ` set cs" "\<forall>x\<in>set cs. cached_ok sv H x"
  shows "\<forall>x\<in>set cs'. cached_ok sv H x"
proof
  fix x assume "x \<in> set cs'"
  then obtain y where "y \<in> set cs" "origin x = origin y" using assms(1) by force
  then show "cached_ok sv H x" using assms(2) cached_ok_origin by blast
qed

definition stored_ok :: "('h, 'rt, 'cl) services \<Rightarrow> bytes set \<Rightarrow> ('rt, 'cl) cache_op \<Rightarrow> bool" where
  "stored_ok sv H op \<longleftrightarrow>
     (case op of Insert t1 t2 t3 k ttl wire request \<Rightarrow> fst k \<noteq> [] \<and> genuine sv H k wire \<and> request \<in> H | _ \<Rightarrow> True)"

lemma spec_op_keeps_ok:
  assumes op: "spec_op kh room en n op (p, cs) out (p', cs')" and cs: "\<forall>x\<in>set cs. cached_ok sv H x"
    and new: "stored_ok sv H op"
  shows "\<forall>x\<in>set cs'. cached_ok sv H x"
proof (cases "\<exists>k. stores n k op")
  case True
  then obtain k where st: "stores n k op" by (rule exE)
  from stores_insert [OF this] obtain t1 t2 t3 ttl wire request where i: "op = Insert t1 t2 t3 k ttl wire request" .
  have ok: "cached_ok sv H (spec_new t1 t2 t3 k ttl wire request cs)"
    using new by (simp add: i stored_ok_def cached_ok_def spec_new_def)
  have "cs' = [] \<or> cs' = cs \<or> (\<exists>m. cs' = spec_new t1 t2 t3 k ttl wire request cs # take m (without k cs))"
    using op unfolding i by (auto elim: spec_opE)
  moreover have "cached_ok sv H x" if "x \<in> set (take m (without k cs))" for x m
    using in_set_takeD [OF that] cs by (simp add: without_def)
  ultimately show ?thesis using ok cs by auto
next
  case False
  then have "\<And>k. \<not> stores n k op" by blast
  from cached_ok_step [OF origin_op [OF op this] cs] show ?thesis .
qed

lemma good_op:
  assumes spec: "heap_spec (heap_impl (cache_env_of sv)) R" and good: "cache_good sv R H p c" and new: "stored_ok sv H op"
  obtains out c' p' en n cs cs' where "run_op (cache_env_of sv) op c = Some (out, c')" "cache_good sv R H p' c'"
    "spec_op (key_hash (cache_env_of sv)) (always_fits (heap_impl (cache_env_of sv)) R n) en n op (p, cs) out (p', cs')"
    "\<forall>x\<in>set cs. cached_ok sv H x"
proof -
  from good obtain en n cs where v: "cache_view (cache_env_of sv) R en n c (p, cs)" and cs: "\<forall>x\<in>set cs. cached_ok sv H x"
    by (auto simp: cache_good_def)
  have "op_ok op" using new by (cases op) (simp_all add: op_ok_def stored_ok_def)
  from run_op_simulates [OF spec v this] obtain out c' p' cs' where
    1: "run_op (cache_env_of sv) op c = Some (out, c')" "cache_view (cache_env_of sv) R en n c' (p', cs')"
      "spec_op (key_hash (cache_env_of sv)) (always_fits (heap_impl (cache_env_of sv)) R n) en n op (p, cs) out (p', cs')" by force
  have "\<forall>x\<in>set cs'. cached_ok sv H x" using spec_op_keeps_ok [OF 1(3) cs new] .
  then have "cache_good sv R H p' c'" using 1(2) by (auto simp: cache_good_def)
  from that [OF 1(1) this 1(3) cs] show thesis .
qed

lemma good_get:
  assumes "heap_spec (heap_impl (cache_env_of sv)) R" "cache_good sv R H p c"
  obtains r c' where "get_with_flags (cache_env_of sv) now k c = Some (r, c')" "cache_good sv R H p c'"
    "\<And>w refresh stale. r = Some (w, refresh, stale) \<Longrightarrow> genuine sv H k w"
proof -
  have "stored_ok sv H (Get now k)" by (simp add: stored_ok_def)
  from good_op [OF assms this] obtain out c' p' en n cs cs' where
    1: "run_op (cache_env_of sv) (Get now k) c = Some (out, c')" "cache_good sv R H p' c'"
    and op: "spec_op (key_hash (cache_env_of sv)) (always_fits (heap_impl (cache_env_of sv)) R n) en n (Get now k) (p, cs) out (p', cs')"
    and cs: "\<forall>x\<in>set cs. cached_ok sv H x" .
  obtain r where r: "get_with_flags (cache_env_of sv) now k c = Some (r, c')"
    "out = (case r of None \<Rightarrow> outcome.Done | Some (w, refresh, stale) \<Rightarrow> Hit w refresh stale)"
    using 1(1) by (auto simp: run_op_def bind_eq_Some_conv)
  have "p' = p" using op by (auto elim: spec_opE)
  moreover have "genuine sv H k w" if hit: "r = Some (w, refresh, stale)" for w refresh stale
  proof -
    obtain x where "x \<in> set cs" "c_key x = k" "w = served now x"
      using op hit r(2) by (auto elim!: spec_opE elim: spec_hit)
    moreover from this cs have "genuine sv H k (c_wire x)" by (auto simp: cached_ok_def)
    ultimately show ?thesis by (simp only: served_def genuine_age)
  qed
  ultimately show thesis using that r(1) 1(2) by blast
qed

lemma good_insert:
  assumes "heap_spec (heap_impl (cache_env_of sv)) R" "cache_good sv R H p c"
    and "fst k \<noteq> []" "genuine sv H k wire" "request \<in> H"
  shows "\<exists>c'. insert_with_flags (cache_env_of sv) t1 t2 t3 k ttl wire request c = Some c' \<and> cache_good sv R H p c'"
proof -
  have "stored_ok sv H (Insert t1 t2 t3 k ttl wire request)" using assms(3-5) by (simp add: stored_ok_def)
  from good_op [OF assms(1,2) this] obtain out c' p' en n cs cs' where
    1: "run_op (cache_env_of sv) (Insert t1 t2 t3 k ttl wire request) c = Some (out, c')" "cache_good sv R H p' c'"
    and op: "spec_op (key_hash (cache_env_of sv)) (always_fits (heap_impl (cache_env_of sv)) R n) en n
      (Insert t1 t2 t3 k ttl wire request) (p, cs) out (p', cs')" .
  have "p' = p" using op by (auto elim: spec_opE)
  then show ?thesis using 1 by (auto simp: run_op_def)
qed

lemma good_release:
  assumes "heap_spec (heap_impl (cache_env_of sv)) R" "cache_good sv R H p c"
  shows "\<exists>c'. release_refresh_claim (cache_env_of sv) now k c = Some c' \<and> cache_good sv R H p c'"
proof -
  have "stored_ok sv H (Release now k)" by (simp add: stored_ok_def)
  from good_op [OF assms this] obtain out c' p' en n cs cs' where
    1: "run_op (cache_env_of sv) (Release now k) c = Some (out, c')" "cache_good sv R H p' c'"
    and op: "spec_op (key_hash (cache_env_of sv)) (always_fits (heap_impl (cache_env_of sv)) R n) en n
      (Release now k) (p, cs) out (p', cs')" .
  have "p' = p" using op by (auto elim: spec_opE)
  then show ?thesis using 1 by (auto simp: run_op_def)
qed

lemma good_evict:
  assumes "heap_spec (heap_impl (cache_env_of sv)) R" "cache_good sv R H p c"
  shows "\<exists>c'. evict_expired_batch (cache_env_of sv) now a b c = Some c' \<and> cache_good sv R H p c'"
proof -
  have "stored_ok sv H (Sweep now a b)" by (simp add: stored_ok_def)
  from good_op [OF assms this] obtain out c' p' en n cs cs' where
    1: "run_op (cache_env_of sv) (Sweep now a b) c = Some (out, c')" "cache_good sv R H p' c'"
    and op: "spec_op (key_hash (cache_env_of sv)) (always_fits (heap_impl (cache_env_of sv)) R n) en n
      (Sweep now a b) (p, cs) out (p', cs')" .
  have "p' = p" using op by (auto elim: spec_opE)
  then show ?thesis using 1 by (auto simp: run_op_def)
qed

lemma spec_scan_requests: "set (fst (spec_scan kh now b n reqs cs)) \<subseteq> set reqs \<union> c_request ` set cs"
proof (induction kh now b n reqs cs rule: spec_scan.induct)
  case (3 kh now budget n reqs c cs)
  then show ?case by (auto simp: case_prod_beta Let_def)
qed auto

lemma good_candidates:
  assumes "heap_spec (heap_impl (cache_env_of sv)) R" "cache_good sv R H p c"
  shows "\<exists>rs c'. refresh_candidates now c = Some (rs, c') \<and> cache_good sv R H p c' \<and> set rs \<subseteq> H"
proof -
  have "stored_ok sv H (Candidates now)" by (simp add: stored_ok_def)
  from good_op [OF assms this] obtain out c' p' en n cs cs' where
    1: "run_op (cache_env_of sv) (Candidates now) c = Some (out, c')" "cache_good sv R H p' c'"
    and op: "spec_op (key_hash (cache_env_of sv)) (always_fits (heap_impl (cache_env_of sv)) R n) en n
      (Candidates now) (p, cs) out (p', cs')" and cs: "\<forall>x\<in>set cs. cached_ok sv H x" .
  from 1(1) obtain rs where rs: "refresh_candidates now c = Some (rs, c')" "out = Requests rs" by (auto simp: run_op_def)
  have "p' = p" "set rs \<subseteq> c_request ` set cs"
    using op spec_scan_requests [of "key_hash (cache_env_of sv)" now p REFRESH_SCAN_LIMIT "[]" cs]
    by (auto simp: rs(2) elim!: spec_opE)
  then show ?thesis using rs(1) 1(2) cs by (auto simp: cached_ok_def)
qed

lemma good_permit:
  assumes "cache_good sv R H p c"
  shows "fst (try_refresh_permit c) = (p \<noteq> 0)" "cache_good sv R H (p - 1) (snd (try_refresh_permit c))"
    "cache_good sv R H (p + 1) (drop_refresh_permit c)"
  using assms
  by (auto simp: cache_good_def try_refresh_permit_def drop_refresh_permit_def cache_view_def represents_def)

subsection \<open>The operations of the handler\<close>

definition app_good ::
  "('h, 'rt, 'cl) services \<Rightarrow> ('h \<Rightarrow> nat \<Rightarrow> (nat \<times> nat) set \<Rightarrow> bool) \<Rightarrow> bytes set \<Rightarrow> nat
    \<Rightarrow> ('h, 'rt, 'cl) app_state \<Rightarrow> bool" where
  "app_good sv R H p st \<longleftrightarrow> cache_good sv R H p (app_cache st) \<and> slots_ok (name_hash sv) (app_blocklist st)"

definition same_settings :: "('h, 'rt, 'cl) app_state \<Rightarrow> ('h, 'rt, 'cl) app_state \<Rightarrow> bool" where
  "same_settings st st' \<longleftrightarrow> (\<exists>c. st' = st\<lparr>app_cache := c\<rparr>)"

lemma same_settings_simps [simp]: "same_settings st st" "same_settings st (st\<lparr>app_cache := c\<rparr>)"
  by (auto simp: same_settings_def intro: exI [of _ "app_cache st"])

lemma same_settings_trans: "same_settings st st' \<Longrightarrow> same_settings st' st'' \<Longrightarrow> same_settings st st''"
  by (auto simp: same_settings_def)

lemma same_settings_blocklist: "same_settings st st' \<Longrightarrow> app_blocklist st' = app_blocklist st"
  by (auto simp: same_settings_def)

text \<open>A request that goes upstream: it is in \<open>H\<close>, has the key and its name is not blocked.\<close>

definition forwardable :: "('h, 'rt, 'cl) services \<Rightarrow> bytes set \<Rightarrow> domain_index \<Rightarrow> bytes \<Rightarrow> ('rt, 'cl) cache_key \<Rightarrow> bool" where
  "forwardable sv H x raw k \<longleftrightarrow> raw \<in> H \<and> asks sv raw k \<and> fst k \<notin> domains x"

text \<open>\<open>H\<close> has the request if its name is not blocked.\<close>

definition admitted :: "('h, 'rt, 'cl) services \<Rightarrow> bytes set \<Rightarrow> domain_index \<Rightarrow> bytes \<Rightarrow> bool" where
  "admitted sv H x raw \<longleftrightarrow> (\<forall>k. asks sv raw k \<longrightarrow> fst k \<notin> domains x \<longrightarrow> raw \<in> H)"

lemma spawn_refresh_good:
  assumes spec: "heap_spec (heap_impl (cache_env_of sv)) R" and good: "app_good sv R H p st"
    and adm: "admitted sv H (app_blocklist st) raw"
  shows "\<exists>task st' p'. spawn_refresh sv now raw st = Some (task, st') \<and> same_settings st st' \<and>
    app_good sv R H p' st' \<and> p' + length (case task of None \<Rightarrow> [] | Some t \<Rightarrow> [t]) = p \<and>
    (\<forall>t. task = Some t \<longrightarrow> forwardable sv H (app_blocklist st) (task_request t) (task_key t))"
proof (cases "parse_request sv raw")
  case None
  then show ?thesis using good by (intro exI [of _ None] exI [of _ st] exI [of _ p]) (simp add: spawn_refresh_def)
next
  case (Some qn)
  then obtain q name where pr: "parse_request sv raw = Some (q, name)" by (cases qn) simp
  let ?k = "query_key q name"
  have asks: "asks sv raw ?k" using pr by (auto simp: asks_def)
  obtain permit c where tp: "try_refresh_permit (app_cache st) = (permit, c)" by fastforce
  have c: "permit = (p \<noteq> 0)" "cache_good sv R H (p - 1) c" and ok: "slots_ok (name_hash sv) (app_blocklist st)"
    using good_permit(1,2) [of sv R H p "app_cache st"] good tp by (auto simp: app_good_def)
  show ?thesis
  proof (cases "permit \<and> name \<notin> domains (app_blocklist st)")
    case True
    then have "raw \<in> H" using adm asks by (auto simp: admitted_def query_key_def)
    then show ?thesis using True c ok asks pr tp
      by (intro exI [of _ "Some \<lparr>task_request = raw, task_key = ?k\<rparr>"] exI [of _ "st\<lparr>app_cache := c\<rparr>"] exI [of _ "p - 1"])
        (auto simp: spawn_refresh_def contains_bytes_eq app_good_def forwardable_def query_key_def)
  next
    case False
    from good_release [OF spec c(2), of now ?k] obtain c' where
      c': "release_refresh_claim (cache_env_of sv) now ?k c = Some c'" "cache_good sv R H (p - 1) c'" by blast
    have "cache_good sv R H p (if permit then drop_refresh_permit c' else c')"
      using good_permit(3) [OF c'(2)] c' c(1) by (cases p) auto
    then show ?thesis using False ok pr tp c'(1)
      by (intro exI [of _ None] exI [of _ "st\<lparr>app_cache := (if permit then drop_refresh_permit c' else c')\<rparr>"] exI [of _ p])
        (auto simp: spawn_refresh_def contains_bytes_eq app_good_def)
  qed
qed

lemma spawn_all_good:
  assumes spec: "heap_spec (heap_impl (cache_env_of sv)) R"
  shows "app_good sv R H p st \<Longrightarrow> set rs \<subseteq> H \<Longrightarrow>
    \<exists>ts st' p'. spawn_all sv now rs st = Some (ts, st') \<and> same_settings st st' \<and> app_good sv R H p' st' \<and>
      p' + length ts = p \<and> (\<forall>t\<in>set ts. forwardable sv H (app_blocklist st) (task_request t) (task_key t))"
proof (induction rs arbitrary: st p)
  case (Cons r rs)
  have "admitted sv H (app_blocklist st) r" using Cons.prems(2) by (simp add: admitted_def)
  from spawn_refresh_good [OF spec Cons.prems(1) this, of now] obtain task st1 p1 where
    1: "spawn_refresh sv now r st = Some (task, st1)" "same_settings st st1" "app_good sv R H p1 st1"
      "p1 + length (case task of None \<Rightarrow> [] | Some t \<Rightarrow> [t]) = p"
      "\<forall>t. task = Some t \<longrightarrow> forwardable sv H (app_blocklist st) (task_request t) (task_key t)" by blast
  from Cons.IH [OF 1(3)] Cons.prems(2) obtain ts st2 p2 where
    2: "spawn_all sv now rs st1 = Some (ts, st2)" "same_settings st1 st2" "app_good sv R H p2 st2" "p2 + length ts = p1"
      "\<forall>t\<in>set ts. forwardable sv H (app_blocklist st) (task_request t) (task_key t)"
    using same_settings_blocklist [OF 1(2)] by auto
  show ?case using 1 2 same_settings_trans [OF 1(2) 2(2)]
    by (intro exI [of _ "case task of None \<Rightarrow> ts | Some t \<Rightarrow> t # ts"] exI [of _ st2] exI [of _ p2])
      (auto split: option.splits)
qed simp

lemma refresh_round_good:
  assumes spec: "heap_spec (heap_impl (cache_env_of sv)) R" and good: "app_good sv R H p st"
  shows "\<exists>ts st' p'. refresh_round sv now st = Some (ts, st') \<and> same_settings st st' \<and> app_good sv R H p' st' \<and>
      p' + length ts = p \<and> (\<forall>t\<in>set ts. forwardable sv H (app_blocklist st) (task_request t) (task_key t))"
proof -
  from good_candidates [OF spec, of H p "app_cache st" now] good obtain rs c where
    c: "refresh_candidates now (app_cache st) = Some (rs, c)" "cache_good sv R H p c" "set rs \<subseteq> H"
    by (auto simp: app_good_def)
  have "app_good sv R H p (st\<lparr>app_cache := c\<rparr>)" using c(2) good by (simp add: app_good_def)
  from spawn_all_good [OF spec this c(3), of now] show ?thesis
    using c(1) same_settings_trans [of st "st\<lparr>app_cache := c\<rparr>"] by (fastforce simp: refresh_round_def)
qed

lemma servfail_good:
  assumes "codec_ok (codec sv)" "asks sv request k"
  shows "response_to request (servfail sv request)"
  using assms synthesize_responds(1) by (fastforce simp: asks_def servfail_def)

lemma fetch_good:
  assumes spec: "heap_spec (heap_impl (cache_env_of sv)) R" "codec_ok (codec sv)" and good: "cache_good sv R H p c"
    and req: "request \<in> H" "asks sv request k" and res: "\<And>w. result = Inr w \<Longrightarrow> response_to request w"
  shows "\<exists>w c'. fetch_from_upstream sv t1 t2 t3 request k result c = Some (w, c') \<and> cache_good sv R H p c' \<and>
    genuine sv H k w"
proof -
  have rel: "\<exists>c'. release_refresh_claim (cache_env_of sv) t1 k c = Some c' \<and> cache_good sv R H p c'"
    by (rule good_release [OF spec(1) good])
  show ?thesis
  proof (cases result)
    case (Inl e)
    have "genuine sv H k (servfail sv request)" using servfail_good [OF spec(2) req(2)] req by (auto simp: genuine_def)
    then show ?thesis using rel by (auto simp: fetch_from_upstream_def Inl)
  next
    case (Inr w)
    have g: "genuine sv H k w" using res [OF Inr] req by (auto simp: genuine_def)
    show ?thesis
    proof (cases "response_ttl sv w")
      case None
      then show ?thesis using rel g by (auto simp: fetch_from_upstream_def Inr)
    next
      case (Some ttl)
      then show ?thesis
        using good_insert [OF spec(1) good asks_name(1) [OF req(2)] g req(1), of t1 t2 t3 ttl] g
        by (auto simp: fetch_from_upstream_def Inr)
    qed
  qed
qed

lemma finish_refresh_good:
  assumes "heap_spec (heap_impl (cache_env_of sv)) R" "cache_good sv R H p c"
  shows "\<exists>c'. finish_refresh sv now t c = Some c' \<and> cache_good sv R H (p + 1) c'"
  using good_release [OF assms, of now "task_key t"] good_permit(3) by (fastforce simp: finish_refresh_def)

subsection \<open>Replies\<close>

text \<open>
  What may be sent for a request. A reply from the cache or from a fetch answers some request with
  the same key; a reply from the static hosts or the block list is the one the settings ask for.
\<close>

definition reply_ok ::
  "('h, 'rt, 'cl) services \<Rightarrow> bytes set \<Rightarrow> ('h, 'rt, 'cl) app_state \<Rightarrow> bytes \<times> bytes \<times> path \<Rightarrow> bool" where
  "reply_ok sv H st r \<longleftrightarrow>
     (case r of (raw, w, path) \<Rightarrow>
        (case parse_request sv raw of
           None \<Rightarrow> path = Malformed \<and> w = bare_error raw RCODE_FORMERR
         | Some (q, name) \<Rightarrow> u16_at w 0 = Some (pq_id q) \<and>
             (case path of
                Malformed \<Rightarrow> False
              | Static \<Rightarrow> response_to raw w \<and> (\<exists>host. app_hosts st name = Some host \<and>
                  w = synthesize (codec sv) raw q RCODE_NOERROR
                        (if qtype q = rtype_A (codec sv) then Some (host_ip host, host_ttl host) else None))
              | Blocked \<Rightarrow> response_to raw w \<and> w = block_answer sv raw q st
              | _ \<Rightarrow> genuine sv H (query_key q name) w)))"

lemma block_answer_simps [simp]:
  "block_answer sv raw q (st\<lparr>app_cache := c\<rparr>) = block_answer sv raw q st"
  "block_answer sv raw q (st\<lparr>app_blocklist := x\<rparr>) = block_answer sv raw q st"
  by (cases "app_block_mode st"; simp add: block_answer_def)+

lemma block_answer_settings: "same_settings st st' \<Longrightarrow> block_answer sv raw q st' = block_answer sv raw q st"
  by (auto simp: same_settings_def)

lemma reply_ok_settings: "same_settings st st' \<Longrightarrow> reply_ok sv H st' r = reply_ok sv H st r"
  by (auto simp: reply_ok_def same_settings_def cong: prod.case_cong option.case_cong path.case_cong)

lemma reply_ok_blocklist: "reply_ok sv H (st\<lparr>app_blocklist := x\<rparr>) r = reply_ok sv H st r"
  by (simp add: reply_ok_def cong: prod.case_cong option.case_cong path.case_cong)

lemma block_answer_ok:
  assumes "codec_ok (codec sv)" "parse_request sv raw = Some (q, name)"
  shows "reply_ok sv H st (raw, block_answer sv raw q st, Blocked)"
  using synthesize_responds [OF assms] assms(2)
  by (auto simp: reply_ok_def block_answer_def split: block_mode.splits)

lemma set_id_reply:
  assumes "genuine sv H (query_key q name) w" "parse_request sv raw = Some (q, name)" "path \<in> {Fresh, Stale, Miss}"
  shows "reply_ok sv H st (raw, set_id w (pq_id q), path)"
proof -
  have "2 \<le> length w" using assms(1) by (auto simp: genuine_def response_to_def)
  then show ?thesis using assms set_id_read by (auto simp: reply_ok_def)
qed

lemma resolve_good:
  assumes spec: "heap_spec (heap_impl (cache_env_of sv)) R" "codec_ok (codec sv)" and good: "app_good sv R H p st"
    and pr: "parse_request sv raw = Some (q, name)" and adm: "admitted sv H (app_blocklist st) raw"
  shows "\<exists>r task st' p'. resolve sv t1 t2 raw q name st = Some (r, task, st') \<and> same_settings st st' \<and>
    app_good sv R H p' st' \<and> p' + length (case task of None \<Rightarrow> [] | Some t \<Rightarrow> [t]) = p \<and>
    (\<forall>t. task = Some t \<longrightarrow> forwardable sv H (app_blocklist st) (task_request t) (task_key t)) \<and>
    (case r of Reply w path \<Rightarrow> reply_ok sv H st (raw, w, path)
     | Forward k \<Rightarrow> forwardable sv H (app_blocklist st) raw k \<and> k = query_key q name)"
proof (cases "if utf8_valid name then app_hosts st name else None")
  case (Some host)
  then have h: "app_hosts st name = Some host" by (simp split: if_splits)
  have "reply_ok sv H st (raw, synthesize (codec sv) raw q RCODE_NOERROR
      (if qtype q = rtype_A (codec sv) then Some (host_ip host, host_ttl host) else None), Static)"
    using synthesize_responds [OF spec(2) pr] h pr by (simp add: reply_ok_def)
  then show ?thesis using Some good by (auto simp: resolve_def)
next
  case None
  have asks: "asks sv raw (query_key q name)" using pr by (auto simp: asks_def)
  have cg: "cache_good sv R H p (app_cache st)" and ok: "slots_ok (name_hash sv) (app_blocklist st)"
    using good by (simp_all add: app_good_def)
  obtain hit c where
    c: "get_with_flags (cache_env_of sv) t1 (query_key q name) (app_cache st) = Some (hit, c)" "cache_good sv R H p c"
      "\<And>w refresh stale. hit = Some (w, refresh, stale) \<Longrightarrow> genuine sv H (query_key q name) w"
    using good_get [OF spec(1) cg, of t1 "query_key q name"] by metis
  let ?st = "st\<lparr>app_cache := c\<rparr>"
  have g: "app_good sv R H p ?st" using c(2) ok by (simp add: app_good_def)
  show ?thesis
  proof (cases hit)
    case hit: None
    show ?thesis
    proof (cases "name \<in> domains (app_blocklist st)")
      case True
      then show ?thesis using None c(1) hit g block_answer_ok [OF spec(2) pr, of H st] block_answer_settings [of st ?st]
        by (auto simp: resolve_def contains_bytes_eq [OF ok])
    next
      case False
      then have "forwardable sv H (app_blocklist st) raw (query_key q name)"
        using adm asks by (auto simp: admitted_def forwardable_def query_key_def)
      then show ?thesis using False None c(1) hit g by (auto simp: resolve_def contains_bytes_eq [OF ok])
    qed
  next
    case (Some h)
    then obtain w refresh stale where hit: "hit = Some (w, refresh, stale)" by (cases h) auto
    have rep: "reply_ok sv H st (raw, set_id w (pq_id q), if stale then Stale else Fresh)"
      using set_id_reply [OF c(3) [OF hit] pr] by simp
    have "\<exists>task st' p'. (if refresh then spawn_refresh sv t2 raw ?st else Some (None, ?st)) = Some (task, st') \<and>
        same_settings ?st st' \<and> app_good sv R H p' st' \<and> p' + length (case task of None \<Rightarrow> [] | Some t \<Rightarrow> [t]) = p \<and>
        (\<forall>t. task = Some t \<longrightarrow> forwardable sv H (app_blocklist st) (task_request t) (task_key t))"
      using spawn_refresh_good [OF spec(1) g, of raw t2] adm g by (cases refresh) auto
    then obtain task st' p' where "(if refresh then spawn_refresh sv t2 raw ?st else Some (None, ?st)) = Some (task, st')"
      "same_settings ?st st'" "app_good sv R H p' st'" "p' + length (case task of None \<Rightarrow> [] | Some t \<Rightarrow> [t]) = p"
      "\<forall>t. task = Some t \<longrightarrow> forwardable sv H (app_blocklist st) (task_request t) (task_key t)" by blast
    then show ?thesis using None c(1) hit rep same_settings_trans [of st ?st st']
      by (intro exI [of _ "Reply (set_id w (pq_id q)) (if stale then Stale else Fresh)"] exI [of _ task] exI [of _ st']
          exI [of _ p']) (simp add: resolve_def)
  qed
qed

lemma handle_query_good:
  assumes spec: "heap_spec (heap_impl (cache_env_of sv)) R" "codec_ok (codec sv)" and good: "app_good sv R H p st"
    and adm: "admitted sv H (app_blocklist st) raw"
  shows "\<exists>r task st' p'. handle_query sv t1 t2 raw st = Some (r, task, st') \<and> same_settings st st' \<and>
    app_good sv R H p' st' \<and> p' + length (case task of None \<Rightarrow> [] | Some t \<Rightarrow> [t]) = p \<and>
    (\<forall>t. task = Some t \<longrightarrow> forwardable sv H (app_blocklist st) (task_request t) (task_key t)) \<and>
    (case r of Reply w path \<Rightarrow> reply_ok sv H st (raw, w, path)
     | Forward k \<Rightarrow> \<exists>q name. parse_request sv raw = Some (q, name) \<and> forwardable sv H (app_blocklist st) raw k \<and>
         k = query_key q name)"
proof (cases "parse_request sv raw")
  case None
  then show ?thesis using good by (auto simp: handle_query_def reply_ok_def)
next
  case (Some qn)
  then obtain q name where pr: "parse_request sv raw = Some (q, name)" by (cases qn) simp
  from resolve_good [OF spec good pr adm, of t1 t2] obtain r task st' p' where
    1: "resolve sv t1 t2 raw q name st = Some (r, task, st')" "same_settings st st'" "app_good sv R H p' st'"
      "p' + length (case task of None \<Rightarrow> [] | Some t \<Rightarrow> [t]) = p"
      "\<forall>t. task = Some t \<longrightarrow> forwardable sv H (app_blocklist st) (task_request t) (task_key t)"
      "case r of Reply w path \<Rightarrow> reply_ok sv H st (raw, w, path)
       | Forward k \<Rightarrow> forwardable sv H (app_blocklist st) raw k \<and> k = query_key q name" by blast
  then show ?thesis using pr
    by (intro exI [of _ r] exI [of _ task] exI [of _ st'] exI [of _ p']; cases r) (simp_all add: handle_query_def)
qed

end
