(* ===== verification/Resolver_Inv.thy ===== *)
theory Resolver_Inv
  imports Resolver Handler_Correct
begin

text \<open>
  The invariant of the resolver and its preservation. The cache holds only genuine answers, the free
  refresh permits and the running refreshes add up, the registry and the tasks fit together, and every
  reply sent so far is one the settings and the requests \<open>H\<close> allow. \<open>resolver_step_inv\<close>: a possible step
  does not panic and keeps the invariant.
\<close>

subsection \<open>The invariant\<close>

definition job_ok :: "('h, 'rt, 'cl) services \<Rightarrow> bytes set \<Rightarrow> ('rt, 'cl) job \<Rightarrow> bool" where
  "job_ok sv H j \<longleftrightarrow> job_request j \<in> H \<and> asks sv (job_request j) (job_key j) \<and>
     (case j of Client raw q k \<Rightarrow> \<exists>name. parse_request sv raw = Some (q, name) \<and> k = query_key q name | _ \<Rightarrow> True)"

text \<open>The phase of a task in the registry and its job fit together.\<close>

fun link :: "(('rt, 'cl) flight_id, bytes) phase option \<Rightarrow> ('rt, 'cl) job option \<Rightarrow> bool" where
  "link None j = True" |
  "link (Some (phase.Done k w)) j = (j = None)" |
  "link (Some Direct) j = False" |
  "link (Some (Waiting k c)) j = (\<exists>i. j = Some i \<and> flight_key (job_key i) = Some k)" |
  "link (Some (Fetching k c)) j = (\<exists>i. j = Some i \<and> flight_key (job_key i) = Some k)" |
  "link (Some (Got k w)) j = (\<exists>i. j = Some i \<and> flight_key (job_key i) = Some k)"

definition carries ::
  "('h, 'rt, 'cl) services \<Rightarrow> bytes set \<Rightarrow> ('rt, 'cl) flight_id \<Rightarrow> bytes \<Rightarrow> bool" where
  "carries sv H i w \<longleftrightarrow> (\<exists>k. flight_key k = Some i \<and> genuine sv H k w)"

definition tasks_inv :: "('h, 'rt, 'cl) services \<Rightarrow> bytes set \<Rightarrow> ('h, 'rt, 'cl) resolver \<Rightarrow> bool" where
  "tasks_inv sv H s \<longleftrightarrow>
     (\<forall>t j. jobs s t = Some j \<longrightarrow> t < next_job s \<and> job_ok sv H j) \<and>
     (\<forall>t. link (phases (flights s) t) (jobs s t)) \<and>
     (\<forall>t. phases (flights s) t \<noteq> None \<longrightarrow> t < next_job s) \<and>
     flight_inv (carries sv H) (flights s)"

definition refreshers :: "('h, 'rt, 'cl) resolver \<Rightarrow> nat set" where
  "refreshers s = {t. \<exists>task. jobs s t = Some (Refresher task)}"

definition resolver_inv ::
  "('h, 'rt, 'cl) services \<Rightarrow> ('h \<Rightarrow> nat \<Rightarrow> (nat \<times> nat) set \<Rightarrow> bool) \<Rightarrow> bytes set \<Rightarrow> ('h, 'rt, 'cl) resolver \<Rightarrow> bool" where
  "resolver_inv sv R H s \<longleftrightarrow>
     (\<exists>p. app_good sv R H p (app s) \<and> p + card (refreshers s) = REFRESH_CONCURRENCY) \<and>
     tasks_inv sv H s \<and> (\<forall>r\<in>set (replies s). reply_ok sv H (app s) r)"

lemma carriesI: "flight_key k = Some i \<Longrightarrow> genuine sv H k w \<Longrightarrow> carries sv H i w"
  unfolding carries_def by blast

lemma tasks_invI:
  assumes "\<And>t j. jobs s t = Some j \<Longrightarrow> t < next_job s \<and> job_ok sv H j"
    and "\<And>t. link (phases (flights s) t) (jobs s t)"
    and "\<And>t. phases (flights s) t \<noteq> None \<Longrightarrow> t < next_job s"
    and "flight_inv (carries sv H) (flights s)"
  shows "tasks_inv sv H s"
  using assms unfolding tasks_inv_def by blast

lemma tasks_invD:
  assumes "tasks_inv sv H s"
  shows "jobs s t = Some j \<Longrightarrow> t < next_job s" "jobs s t = Some j \<Longrightarrow> job_ok sv H j"
    and "link (phases (flights s) t) (jobs s t)"
    and "phases (flights s) t \<noteq> None \<Longrightarrow> t < next_job s"
    and "flight_inv (carries sv H) (flights s)"
  using assms unfolding tasks_inv_def by blast+

lemma tasks_inv_cong:
  "jobs s' = jobs s \<Longrightarrow> next_job s' = next_job s \<Longrightarrow> flights s' = flights s \<Longrightarrow> tasks_inv sv H s' = tasks_inv sv H s"
  by (simp add: tasks_inv_def)

lemma finite_refreshers:
  assumes "tasks_inv sv H s" shows "finite (refreshers s)"
proof (rule finite_subset)
  show "refreshers s \<subseteq> {..<next_job s}" using tasks_invD(1) [OF assms] by (auto simp: refreshers_def)
qed simp

lemma phases_step:
  "flight_step (Lead t) f = Some f' \<Longrightarrow> \<exists>k c. phases f t = Some (Waiting k c) \<and> phases f' = (phases f)(t \<mapsto> Fetching k c)"
  "flight_step (Follow t) f = Some f' \<Longrightarrow> \<exists>k c w. phases f t = Some (Waiting k c) \<and> phases f' = (phases f)(t \<mapsto> Got k w)"
  "flight_step (Drop t) f = Some f' \<Longrightarrow> phases f' = (phases f)(t := None)"
  by (auto simp: set_phase_def set_cell_def split: option.splits phase.splits cell.splits if_splits)

text \<open>A step of the registry in which only the task \<open>t\<close> changes its phase and its job.\<close>

lemma tasks_update:
  assumes inv: "tasks_inv sv H s" and f: "flight_inv (carries sv H) f" "phases f = (phases (flights s))(t := ph)"
    and t: "t < next_job s" "link ph jb" "jb = None \<or> jb = jobs s t"
    and s': "flights s' = f" "jobs s' = (jobs s)(t := jb)" "next_job s' = next_job s"
  shows "tasks_inv sv H s'"
proof (rule tasks_invI)
  note D = tasks_invD [OF inv]
  fix t' j assume "jobs s' t' = Some j"
  then have "jobs s t' = Some j" using t(3) by (auto simp: s' split: if_splits)
  then show "t' < next_job s' \<and> job_ok sv H j" using D(1,2) by (simp add: s')
next
  fix t' show "link (phases (flights s') t') (jobs s' t')" using tasks_invD(3) [OF inv, of t'] t(2) by (simp add: s' f(2))
next
  fix t' assume "phases (flights s') t' \<noteq> None"
  then show "t' < next_job s'" using tasks_invD(4) [OF inv, of t'] t(1) by (auto simp: s' f(2) split: if_splits)
qed (simp add: s' f(1))

subsection \<open>New tasks\<close>

lemma spawn_tasks:
  assumes inv: "tasks_inv sv H s" and j: "job_ok sv H j"
  shows "tasks_inv sv H (spawn j s)" "phases (flights s) (next_job s) = None" "jobs s (next_job s) = None"
proof -
  note D = tasks_invD [OF inv]
  show ph: "phases (flights s) (next_job s) = None" using D(4) [of "next_job s"] by (cases "phases (flights s) (next_job s)") auto
  show "jobs s (next_job s) = None" using D(1) [of "next_job s"] by (cases "jobs s (next_job s)") auto
  show "tasks_inv sv H (spawn j s)"
  proof (rule tasks_invI)
    show "t < next_job (spawn j s) \<and> job_ok sv H j'" if "jobs (spawn j s) t = Some j'" for t j'
      using that D(1,2) [of t] j by (auto simp: spawn_def less_Suc_eq split: if_splits)
    show "link (phases (flights (spawn j s)) t) (jobs (spawn j s) t)" for t
      using D(3) [of t] ph by (simp add: spawn_def)
    show "t < next_job (spawn j s)" if "phases (flights (spawn j s)) t \<noteq> None" for t
      using that D(4) [of t] by (simp add: spawn_def)
    show "flight_inv (carries sv H) (flights (spawn j s))" using D(5) by (simp add: spawn_def)
  qed
qed

lemma flight_key_total: "length (fst k) \<le> 255 \<Longrightarrow> \<exists>i. flight_key k = Some i"
  by (auto simp: flight_key_def inline_from_bytes_def split: prod.splits)

lemma join_tasks:
  assumes inv: "tasks_inv sv H s" and j: "jobs s t = Some j" and ph: "phases (flights s) t = None"
  shows "\<exists>f i c. join t s = Some (s\<lparr>flights := f\<rparr>) \<and> tasks_inv sv H (s\<lparr>flights := f\<rparr>) \<and> phases f t = Some (Waiting i c)"
proof -
  note D = tasks_invD [OF inv]
  have "asks sv (job_request j) (job_key j)" using D(2) [OF j] by (simp add: job_ok_def)
  then obtain i where i: "flight_key (job_key j) = Some i" using flight_key_total asks_name(2) by metis
  obtain c f where c: "cell_for i (flights s) = (c, f)" by (cases "cell_for i (flights s)")
  let ?f = "set_phase t (Some (Waiting i c)) f"
  have st: "flight_step (Join t (Some i)) (flights s) = Some ?f" using ph c by simp
  have "flight_inv (carries sv H) ?f" by (rule flight_step_inv [OF D(5) st]) simp
  moreover have "phases ?f = (phases (flights s))(t \<mapsto> Waiting i c)"
    using c by (auto simp: set_phase_def cell_for_def split: option.splits)
  ultimately have "tasks_inv sv H (s\<lparr>flights := ?f\<rparr>)"
    by (rule tasks_update [OF inv, where jb = "jobs s t"]) (use D(1) [OF j] i j in auto)
  then show ?thesis using j i st
    by (intro exI [of _ ?f] exI [of _ i] exI [of _ c]) (simp add: join_def, simp add: set_phase_def)
qed

lemma refreshers_spawn:
  assumes "tasks_inv sv H s" "job_ok sv H (Refresher task)"
  shows "card (refreshers (spawn (Refresher task) s)) = card (refreshers s) + 1"
proof -
  have "refreshers (spawn (Refresher task) s) = insert (next_job s) (refreshers s)"
    by (auto simp: refreshers_def spawn_def)
  moreover have "next_job s \<notin> refreshers s" using spawn_tasks(3) [OF assms] by (simp add: refreshers_def)
  ultimately show ?thesis using finite_refreshers [OF assms(1)] by simp
qed

lemma spawn_refreshers:
  assumes "tasks_inv sv H s" "\<forall>t\<in>set ts. job_ok sv H (Refresher t)"
  shows "tasks_inv sv H (fold (\<lambda>t. spawn (Refresher t)) ts s) \<and>
    card (refreshers (fold (\<lambda>t. spawn (Refresher t)) ts s)) = card (refreshers s) + length ts \<and>
    app (fold (\<lambda>t. spawn (Refresher t)) ts s) = app s \<and> replies (fold (\<lambda>t. spawn (Refresher t)) ts s) = replies s"
  using assms
proof (induction ts arbitrary: s)
  case (Cons t ts)
  then have j: "job_ok sv H (Refresher t)" by simp
  have "app (spawn (Refresher t) s) = app s" "replies (spawn (Refresher t) s) = replies s" by (simp_all add: spawn_def)
  with Cons.IH [OF spawn_tasks(1) [OF Cons.prems(1) j]] Cons.prems(2) refreshers_spawn [OF Cons.prems(1) j]
  show ?case by simp
qed simp

lemma forwardable_job: "forwardable sv H x (task_request t) (task_key t) \<Longrightarrow> job_ok sv H (Refresher t)"
  by (simp add: forwardable_def job_ok_def)

lemma forwardable_client:
  "forwardable sv H x raw k \<Longrightarrow> parse_request sv raw = Some (q, name) \<Longrightarrow> k = query_key q name \<Longrightarrow> job_ok sv H (Client raw q k)"
  by (simp add: forwardable_def job_ok_def)

subsection \<open>Every step keeps the invariant\<close>

lemma resolver_invD:
  assumes "resolver_inv sv R H s"
  obtains p where "app_good sv R H p (app s)" "p + card (refreshers s) = REFRESH_CONCURRENCY" "tasks_inv sv H s"
    "\<forall>r\<in>set (replies s). reply_ok sv H (app s) r"
  using assms unfolding resolver_inv_def by blast

lemma resolver_invI:
  assumes "app_good sv R H p (app s)" "p + card (refreshers s) = REFRESH_CONCURRENCY" "tasks_inv sv H s"
    "\<And>r. r \<in> set (replies s) \<Longrightarrow> reply_ok sv H (app s) r"
  shows "resolver_inv sv R H s"
  using assms unfolding resolver_inv_def by blast

lemma inv_flights:
  assumes "resolver_inv sv R H s" "tasks_inv sv H (s\<lparr>flights := f\<rparr>)"
  shows "resolver_inv sv R H (s\<lparr>flights := f\<rparr>)"
  using assms by (auto simp: resolver_inv_def refreshers_def)

lemma inv_cache:
  assumes inv: "resolver_inv sv R H s" and c: "\<And>p. cache_good sv R H p (app_cache (app s)) \<Longrightarrow> cache_good sv R H p c"
  shows "resolver_inv sv R H (set_cache c s)"
proof -
  from inv obtain p where p: "app_good sv R H p (app s)" "p + card (refreshers s) = REFRESH_CONCURRENCY" "tasks_inv sv H s"
    "\<forall>r\<in>set (replies s). reply_ok sv H (app s) r" by (rule resolver_invD)
  show ?thesis
  proof (rule resolver_invI)
    show "app_good sv R H p (app (set_cache c s))" using p(1) c by (simp add: app_good_def set_cache_def)
    show "p + card (refreshers (set_cache c s)) = REFRESH_CONCURRENCY" using p(2) by (simp add: refreshers_def set_cache_def)
    show "tasks_inv sv H (set_cache c s)" using p(3) by (simp add: tasks_inv_def set_cache_def)
    show "reply_ok sv H (app (set_cache c s)) r" if "r \<in> set (replies (set_cache c s))" for r
      using that p(4) reply_ok_settings [of "app s" "app (set_cache c s)"] by (simp add: set_cache_def)
  qed
qed

lemma step_begin:
  assumes inv: "resolver_inv sv R H s" and st: "flight_step e (flights s) = Some f" and e: "e = Lead t \<or> e = Follow t"
  shows "resolver_inv sv R H (s\<lparr>flights := f\<rparr>)"
proof (rule inv_flights [OF inv])
  from inv have ti: "tasks_inv sv H s" by (rule resolver_invD)
  note D = tasks_invD [OF ti]
  have "flight_inv (carries sv H) f" by (rule flight_step_inv [OF D(5) st]) (use e in auto)
  moreover obtain ph where ph: "phases f = (phases (flights s))(t \<mapsto> ph)" "link (Some ph) (jobs s t)"
    and t: "phases (flights s) t \<noteq> None"
    using phases_step(1,2) [of t "flights s" f] st e D(3) [of t] by fastforce
  ultimately show "tasks_inv sv H (s\<lparr>flights := f\<rparr>)"
    using D(4) [OF t] by (intro tasks_update [OF ti _ ph(1) _ ph(2)]) auto
qed

lemma step_abandon:
  assumes inv: "resolver_inv sv R H s" and st: "flight_step (Drop t) (flights s) = Some f"
    and j: "jobs s t = Some (Client raw q k)"
  shows "resolver_inv sv R H (s\<lparr>flights := f, jobs := (jobs s)(t := None)\<rparr>)"
proof -
  from inv obtain p where p: "app_good sv R H p (app s)" "p + card (refreshers s) = REFRESH_CONCURRENCY" "tasks_inv sv H s"
    "\<forall>r\<in>set (replies s). reply_ok sv H (app s) r" by (rule resolver_invD)
  note D = tasks_invD [OF p(3)]
  have f: "flight_inv (carries sv H) f" by (rule flight_step_inv [OF D(5) st]) simp
  have "tasks_inv sv H (s\<lparr>flights := f, jobs := (jobs s)(t := None)\<rparr>)"
    by (rule tasks_update [OF p(3) f phases_step(3) [OF st] D(1) [OF j], where jb = None]) simp_all
  moreover have "refreshers (s\<lparr>flights := f, jobs := (jobs s)(t := None)\<rparr>) = refreshers s"
    using j by (auto simp: refreshers_def)
  ultimately show ?thesis using p by (intro resolver_invI) auto
qed

lemma step_fetched:
  assumes spec: "heap_spec (heap_impl (cache_env_of sv)) R" "codec_ok (codec sv)" and inv: "resolver_inv sv R H s"
    and pos: "possible (Fetched t request t1 t2 t3 result) s" and res: "\<And>w. result = Inr w \<Longrightarrow> response_to request w"
  shows "\<exists>s'. fetched sv t t1 t2 t3 result s = Some s' \<and> resolver_inv sv R H s'"
proof -
  from inv obtain p where p: "app_good sv R H p (app s)" and ti: "tasks_inv sv H s" by (rule resolver_invD)
  note D = tasks_invD [OF ti]
  from pos obtain j where j: "jobs s t = Some j" "job_request j = request" by (auto split: option.splits)
  from pos D(3) [of t] obtain k c where ph: "phases (flights s) t = Some (Fetching k c)" "flight_key (job_key j) = Some k"
    using j(1) by (auto split: option.splits phase.splits)
  have jk: "request \<in> H" "asks sv request (job_key j)" using D(2) [OF j(1)] j(2) by (simp_all add: job_ok_def)
  have cg: "cache_good sv R H p (app_cache (app s))" using p by (simp add: app_good_def)
  have fetch: "\<exists>w c'. fetch_from_upstream sv t1 t2 t3 request (job_key j) result (app_cache (app s)) = Some (w, c') \<and>
      cache_good sv R H p' c' \<and> genuine sv H (job_key j) w" if "cache_good sv R H p' (app_cache (app s))" for p'
    by (rule fetch_good [OF spec that jk res])
  from fetch [OF cg] obtain w c' where
    w: "fetch_from_upstream sv t1 t2 t3 request (job_key j) result (app_cache (app s)) = Some (w, c')" "genuine sv H (job_key j) w"
    by blast
  have c': "cache_good sv R H p' c'" if "cache_good sv R H p' (app_cache (app s))" for p'
    using fetch [OF that] w(1) by auto
  let ?f = "set_phase t (Some (Got k w)) (set_cell c (Ready w) (flights s))"
  have st: "flight_step (Finish t w) (flights s) = Some ?f" using ph(1) by simp
  have "flight_inv (carries sv H) ?f"
    by (rule flight_step_inv [OF D(5) st]) (use ph w(2) carriesI in simp)
  moreover have "phases ?f = (phases (flights s))(t \<mapsto> Got k w)" by (simp add: set_phase_def set_cell_def)
  ultimately have "tasks_inv sv H (s\<lparr>flights := ?f\<rparr>)"
    by (rule tasks_update [OF ti, where jb = "jobs s t"]) (use D(1) [OF j(1)] j ph in auto)
  from inv_cache [OF inv_flights [OF inv this], of c'] c'
  have "resolver_inv sv R H (set_cache c' (s\<lparr>flights := ?f\<rparr>))" by simp
  moreover have "fetched sv t t1 t2 t3 result s = Some (set_cache c' (s\<lparr>flights := ?f\<rparr>))"
    using j w(1) st ph(1) by (simp add: fetched_def set_cache_def)
  ultimately show ?thesis by blast
qed

lemma carries_job:
  assumes "tasks_inv sv H s" "jobs s t = Some j" "flight_key (job_key j) = Some k" "carries sv H k w"
  shows "genuine sv H (job_key j) w"
proof -
  have "length (fst (job_key j)) \<le> 255"
    using tasks_invD(2) [OF assms(1,2)] asks_name(2) [of sv "job_request j" "job_key j"] by (simp add: job_ok_def)
  with assms(3,4) flight_key_eq [of "job_key j"] show ?thesis unfolding carries_def by metis
qed

lemma complete_inv:
  assumes spec: "heap_spec (heap_impl (cache_env_of sv)) R" and inv: "resolver_inv sv R H s"
    and j: "jobs s t = Some j" and w: "genuine sv H (job_key j) w"
    and f: "tasks_inv sv H (s\<lparr>flights := f, jobs := (jobs s)(t := None)\<rparr>)"
  shows "\<exists>s'. complete sv now t w (s\<lparr>flights := f\<rparr>) = Some s' \<and> resolver_inv sv R H s'"
proof -
  let ?s = "s\<lparr>flights := f, jobs := (jobs s)(t := None)\<rparr>"
  from inv obtain p where p: "app_good sv R H p (app s)" "p + card (refreshers s) = REFRESH_CONCURRENCY" "tasks_inv sv H s"
    "\<forall>r\<in>set (replies s). reply_ok sv H (app s) r" by (rule resolver_invD)
  show ?thesis
  proof (cases j)
    case (Client raw q k)
    then obtain name where name: "parse_request sv raw = Some (q, name)" "k = query_key q name"
      using tasks_invD(2) [OF p(3) j] by (auto simp: job_ok_def)
    have r: "reply_ok sv H (app s) (raw, resolve_miss q w, Miss)"
      unfolding resolve_miss_def by (rule set_id_reply) (use w name Client in auto)
    have "refreshers ?s = refreshers s" using j Client by (auto simp: refreshers_def)
    then have "resolver_inv sv R H (?s\<lparr>replies := (raw, resolve_miss q w, Miss) # replies s\<rparr>)"
      using p f r by (intro resolver_invI [of sv R H p]) (auto simp: refreshers_def tasks_inv_def)
    then show ?thesis using j Client by (simp add: complete_def)
  next
    case (Refresher task)
    from finish_refresh_good [OF spec, of H p "app_cache (app s)" now task] p(1) obtain c where
      c: "finish_refresh sv now task (app_cache (app s)) = Some c" "cache_good sv R H (p + 1) c" by (auto simp: app_good_def)
    have "refreshers ?s = refreshers s - {t}" "t \<in> refreshers s" using j Refresher by (auto simp: refreshers_def)
    then have card: "card (refreshers s) = card (refreshers ?s) + 1" using card.remove [OF finite_refreshers [OF p(3)]] by simp
    have "resolver_inv sv R H (set_cache c ?s)"
      using p f c card reply_ok_settings [of "app s" "(app s)\<lparr>app_cache := c\<rparr>"]
      by (intro resolver_invI [of sv R H "p + 1"]) (auto simp: set_cache_def app_good_def refreshers_def tasks_inv_def)
    then show ?thesis using j Refresher c(1) by (auto simp: complete_def)
  qed
qed

lemma step_depart:
  assumes spec: "heap_spec (heap_impl (cache_env_of sv)) R" and inv: "resolver_inv sv R H s"
    and ph: "phases (flights s) t = Some (Got k w)"
  shows "\<exists>s'. resolver_step sv (Depart t now) s = Some s' \<and> resolver_inv sv R H s'"
proof -
  from inv have ti: "tasks_inv sv H s" by (rule resolver_invD)
  note D = tasks_invD [OF ti]
  from D(3) [of t] ph obtain j where j: "jobs s t = Some j" "flight_key (job_key j) = Some k" by auto
  have "carries sv H k w" using D(5) ph unfolding flight_inv_def by (blast dest: keyedD(6))
  note w = carries_job [OF ti j this]
  let ?f = "set_phase t (Some (phase.Done k w)) (remove_flight k (flights s))"
  have st: "flight_step (Leave t) (flights s) = Some ?f" using ph by simp
  have "flight_inv (carries sv H) ?f" by (rule flight_step_inv [OF D(5) st]) simp
  moreover have "phases ?f = (phases (flights s))(t \<mapsto> phase.Done k w)" by (simp add: set_phase_def remove_flight_def)
  ultimately have "tasks_inv sv H (s\<lparr>flights := ?f, jobs := (jobs s)(t := None)\<rparr>)"
    by (rule tasks_update [OF ti, where jb = None]) (use D(1) [OF j(1)] in auto)
  from complete_inv [OF spec inv j(1) w this, of now] st ph show ?thesis by simp
qed

lemma step_arrive:
  assumes spec: "heap_spec (heap_impl (cache_env_of sv)) R" "codec_ok (codec sv)" and inv: "resolver_inv sv R H s"
    and adm: "admitted sv H (app_blocklist (app s)) raw"
  shows "\<exists>s'. arrive sv t1 t2 raw s = Some s' \<and> resolver_inv sv R H s'"
proof -
  from inv obtain p where p: "app_good sv R H p (app s)" "p + card (refreshers s) = REFRESH_CONCURRENCY" "tasks_inv sv H s"
    "\<forall>r\<in>set (replies s). reply_ok sv H (app s) r" by (rule resolver_invD)
  let ?ts = "\<lambda>task. case task of None \<Rightarrow> [] | Some t \<Rightarrow> [t]" and ?x = "app_blocklist (app s)"
  from handle_query_good [OF spec p(1) adm, of t1 t2] obtain r task st p' where
    h: "handle_query sv t1 t2 raw (app s) = Some (r, task, st)" "same_settings (app s) st" "app_good sv R H p' st"
      "p' + length (?ts task) = p" "\<forall>t. task = Some t \<longrightarrow> forwardable sv H ?x (task_request t) (task_key t)"
    and r: "case r of Reply w path \<Rightarrow> reply_ok sv H (app s) (raw, w, path)
       | Forward k \<Rightarrow> \<exists>q name. parse_request sv raw = Some (q, name) \<and> forwardable sv H ?x raw k \<and> k = query_key q name"
    by blast
  define s1 where "s1 = fold (\<lambda>t. spawn (Refresher t)) (?ts task) (s\<lparr>app := st\<rparr>)"
  have ti: "tasks_inv sv H (s\<lparr>app := st\<rparr>)" using p(3) by (simp add: tasks_inv_def)
  have "\<forall>t\<in>set (?ts task). job_ok sv H (Refresher t)" using h(5) forwardable_job by (auto split: option.splits)
  note s1 = spawn_refreshers [OF ti this, folded s1_def]
  have ok: "reply_ok sv H st y = reply_ok sv H (app s) y" for y by (rule reply_ok_settings [OF h(2)])
  have inv1: "resolver_inv sv R H s1"
  proof (rule resolver_invI)
    show "app_good sv R H p' (app s1)" "p' + card (refreshers s1) = REFRESH_CONCURRENCY" "tasks_inv sv H s1"
      using s1 h(3,4) p(2) by (simp_all add: refreshers_def)
    show "reply_ok sv H (app s1) y" if "y \<in> set (replies s1)" for y using that s1 p(4) ok by simp
  qed
  have s1_case: "s1 = (case task of None \<Rightarrow> s\<lparr>app := st\<rparr> | Some task \<Rightarrow> spawn (Refresher task) (s\<lparr>app := st\<rparr>))"
    by (cases task) (simp_all add: s1_def)
  have a: "arrive sv t1 t2 raw s = (case r of Reply w path \<Rightarrow> Some (s1\<lparr>replies := (raw, w, path) # replies s1\<rparr>)
      | Forward k \<Rightarrow> (case parse_request sv raw of None \<Rightarrow> Some s1 | Some (q, _) \<Rightarrow> join (next_job s1) (spawn (Client raw q k) s1)))"
    unfolding arrive_def h(1) by (simp only: bind.simps prod.case s1_case [symmetric] Let_def)
  show ?thesis
  proof (cases r)
    case (Reply w path)
    then have "reply_ok sv H (app s1) (raw, w, path)" using r s1 ok by simp
    then have "resolver_inv sv R H (s1\<lparr>replies := (raw, w, path) # replies s1\<rparr>)"
      using inv1 by (auto simp: resolver_inv_def refreshers_def tasks_inv_def)
    then show ?thesis using a Reply by simp
  next
    case (Forward k)
    then obtain q name where q: "parse_request sv raw = Some (q, name)" "forwardable sv H ?x raw k" "k = query_key q name"
      using r by auto
    note j = forwardable_client [OF q(2,1,3)]
    note sp = spawn_tasks [OF conjunct1 [OF s1] j]
    have "jobs (spawn (Client raw q k) s1) (next_job s1) = Some (Client raw q k)"
      "phases (flights (spawn (Client raw q k) s1)) (next_job s1) = None" using sp(2) by (simp_all add: spawn_def)
    from join_tasks [OF sp(1) this] obtain f where
      f: "join (next_job s1) (spawn (Client raw q k) s1) = Some ((spawn (Client raw q k) s1)\<lparr>flights := f\<rparr>)"
        "tasks_inv sv H ((spawn (Client raw q k) s1)\<lparr>flights := f\<rparr>)" by blast
    have "refreshers ((spawn (Client raw q k) s1)\<lparr>flights := f\<rparr>) = refreshers s1"
      using sp(3) by (auto simp: refreshers_def spawn_def)
    then have "resolver_inv sv R H ((spawn (Client raw q k) s1)\<lparr>flights := f\<rparr>)"
      using inv1 f(2) by (auto simp: resolver_inv_def spawn_def)
    then show ?thesis using a Forward q(1) f(1) by simp
  qed
qed

lemma step_tick:
  assumes spec: "heap_spec (heap_impl (cache_env_of sv)) R" and inv: "resolver_inv sv R H s"
  shows "\<exists>s'. resolver_step sv (Tick now) s = Some s' \<and> resolver_inv sv R H s'"
proof -
  from inv obtain p where p: "app_good sv R H p (app s)" "p + card (refreshers s) = REFRESH_CONCURRENCY" "tasks_inv sv H s"
    "\<forall>r\<in>set (replies s). reply_ok sv H (app s) r" by (rule resolver_invD)
  from refresh_round_good [OF spec p(1), of now] obtain ts st p' where
    h: "refresh_round sv now (app s) = Some (ts, st)" "same_settings (app s) st" "app_good sv R H p' st" "p' + length ts = p"
      "\<forall>t\<in>set ts. forwardable sv H (app_blocklist (app s)) (task_request t) (task_key t)" by blast
  have ti: "tasks_inv sv H (s\<lparr>app := st\<rparr>)" using p(3) by (simp add: tasks_inv_def)
  have "\<forall>t\<in>set ts. job_ok sv H (Refresher t)" using h(5) forwardable_job by blast
  note s1 = spawn_refreshers [OF ti this]
  have "resolver_inv sv R H (fold (\<lambda>t. spawn (Refresher t)) ts (s\<lparr>app := st\<rparr>))"
    using s1 h(3,4) p(2,4) reply_ok_settings [OF h(2)]
    by (intro resolver_invI [of sv R H p']) (simp_all add: refreshers_def)
  then show ?thesis using h(1) by simp
qed

text \<open>What is assumed of the environment in a step.\<close>

definition event_ok :: "('h, 'rt, 'cl) services \<Rightarrow> bytes set \<Rightarrow> ('h, 'rt, 'cl) resolver \<Rightarrow> event \<Rightarrow> bool" where
  "event_ok sv H s e \<longleftrightarrow>
     (case e of
        Arrive t1 t2 raw \<Rightarrow> admitted sv H (app_blocklist (app s)) raw
      | Fetched t request t1 t2 t3 result \<Rightarrow> (\<forall>w. result = Inr w \<longrightarrow> response_to request w)
      | Publish x \<Rightarrow> slots_ok (name_hash sv) x
      | _ \<Rightarrow> True)"

lemma resolver_step_inv:
  assumes spec: "heap_spec (heap_impl (cache_env_of sv)) R" "codec_ok (codec sv)" and inv: "resolver_inv sv R H s"
    and pos: "possible e s" and ok: "event_ok sv H s e"
  shows "\<exists>s'. resolver_step sv e s = Some s' \<and> resolver_inv sv R H s'"
proof (cases e)
  case (Arrive t1 t2 raw)
  then show ?thesis using step_arrive [OF spec inv, of raw t1 t2] ok by (simp add: event_ok_def)
next
  case (Enter t)
  then obtain j where j: "jobs s t = Some j" "phases (flights s) t = None" using pos by auto
  from inv have "tasks_inv sv H s" by (rule resolver_invD)
  from join_tasks [OF this j] inv_flights [OF inv] Enter show ?thesis by auto
next
  case (Begin t)
  then obtain f where f: "flight_step (Lead t) (flights s) = Some f" using pos by auto
  from step_begin [OF inv this, of t] f Begin show ?thesis by simp
next
  case (Fetched t request t1 t2 t3 result)
  then show ?thesis using step_fetched [OF spec inv pos [unfolded Fetched]] ok by (simp add: event_ok_def)
next
  case (Observe t)
  then obtain f where f: "flight_step (Follow t) (flights s) = Some f" using pos by auto
  from step_begin [OF inv this, of t] f Observe show ?thesis by simp
next
  case (Depart t now)
  then obtain k w where "phases (flights s) t = Some (Got k w)" using pos by (auto split: option.splits phase.splits)
  from step_depart [OF spec(1) inv this, of now] Depart show ?thesis by simp
next
  case (Abandon t)
  then obtain f raw q k where f: "flight_step (Drop t) (flights s) = Some f" "jobs s t = Some (Client raw q k)"
    using pos by (auto split: option.splits job.splits)
  from step_abandon [OF inv this] f(1) Abandon show ?thesis by simp
next
  case (Tick now)
  then show ?thesis using step_tick [OF spec(1) inv, of now] by simp
next
  case (Expire now a b)
  from inv obtain p where "app_good sv R H p (app s)" by (rule resolver_invD)
  then have "cache_good sv R H p (app_cache (app s))" by (simp add: app_good_def)
  from good_evict [OF spec(1) this, of now a b] obtain c where
    c: "evict_expired_batch (cache_env_of sv) now a b (app_cache (app s)) = Some c" by blast
  have "resolver_inv sv R H (set_cache c s)"
    by (rule inv_cache [OF inv]) (use good_evict [OF spec(1), of H _ "app_cache (app s)" now a b] c in auto)
  then show ?thesis using c Expire by simp
next
  case (Publish x)
  then have "slots_ok (name_hash sv) x" using ok by (simp add: event_ok_def)
  then have "resolver_inv sv R H (s\<lparr>app := (app s)\<lparr>app_blocklist := x\<rparr>\<rparr>)"
    using inv by (auto simp: resolver_inv_def app_good_def refreshers_def tasks_inv_def reply_ok_blocklist)
  then show ?thesis using Publish by simp
qed

end
