(* ===== verification/Resolver_Correct.thy ===== *)
theory Resolver_Correct
  imports Resolver_Inv Blocklist_Manager
begin

text \<open>
  The properties of the resolver as a whole, over every interleaving of its tasks: no step panics,
  every reply answers the question it is sent for, names on the block list never go upstream, a
  fetched answer is served from the cache, refreshes are bounded and every waiting client can be
  answered.
\<close>

subsection \<open>The block list in a run\<close>

lemma same_settings_cache: "same_settings (st\<lparr>app_cache := c\<rparr>) st' \<Longrightarrow> same_settings st st'"
  by (rule same_settings_trans) simp_all

lemma spawn_refresh_settings: "spawn_refresh sv now raw st = Some (task, st') \<Longrightarrow> same_settings st st'"
  by (auto simp: spawn_refresh_def Let_def bind_eq_Some_conv split: option.splits prod.splits if_splits)

lemma spawn_all_settings: "spawn_all sv now rs st = Some (ts, st') \<Longrightarrow> same_settings st st'"
proof (induction rs arbitrary: ts st)
  case (Cons r rs)
  then obtain t st1 ts1 where "spawn_refresh sv now r st = Some (t, st1)" "spawn_all sv now rs st1 = Some (ts1, st')"
    by (auto simp: bind_eq_Some_conv)
  then show ?case using spawn_refresh_settings Cons.IH same_settings_trans by blast
qed simp

lemma handle_query_settings:
  assumes "handle_query sv t1 t2 raw st = Some (r, task, st')" shows "same_settings st st'"
proof (cases "parse_request sv raw")
  case None
  then show ?thesis using assms by (simp add: handle_query_def)
next
  case (Some qn)
  obtain q name where qn: "qn = (q, name)" by (cases qn)
  show ?thesis using assms
    by (auto simp: handle_query_def Some qn resolve_def Let_def bind_eq_Some_conv
        dest!: spawn_refresh_settings intro: same_settings_cache split: option.splits prod.splits if_splits)
qed

lemma app_spawn_fold: "app (fold (\<lambda>t. spawn (Refresher t)) ts s) = app s"
  by (induction ts arbitrary: s) (simp_all add: spawn_def)

lemma join_app: "join t s = Some s' \<Longrightarrow> app s' = app s"
  by (auto simp: join_def split: option.splits)

lemma complete_settings: "complete sv now t w s = Some s' \<Longrightarrow> same_settings (app s) (app s')"
  by (auto simp: complete_def Let_def set_cache_def split: option.splits job.splits)

lemma arrive_settings:
  assumes "arrive sv t1 t2 raw s = Some s'" shows "same_settings (app s) (app s')"
proof -
  from assms obtain r task st where h: "handle_query sv t1 t2 raw (app s) = Some (r, task, st)"
    and rest: "(let s = case task of None \<Rightarrow> s\<lparr>app := st\<rparr> | Some task \<Rightarrow> spawn (Refresher task) (s\<lparr>app := st\<rparr>)
       in case r of Reply w path \<Rightarrow> Some (s\<lparr>replies := (raw, w, path) # replies s\<rparr>)
          | Forward k \<Rightarrow> (case parse_request sv raw of None \<Rightarrow> Some s | Some (q, x) \<Rightarrow> join (next_job s) (spawn (Client raw q k) s)))
      = Some s'"
    unfolding arrive_def bind_eq_Some_conv by auto
  have "app s' = st" using rest
    by (auto simp: Let_def spawn_def dest!: join_app split: option.splits progress.splits prod.splits)
  then show ?thesis using handle_query_settings [OF h] by simp
qed

lemma step_settings:
  assumes "resolver_step sv e s = Some s'"
  shows "same_settings ((app s)\<lparr>app_blocklist := (case e of Publish x \<Rightarrow> x | _ \<Rightarrow> app_blocklist (app s))\<rparr>) (app s')"
proof (cases e)
  case (Arrive t1 t2 raw)
  then show ?thesis using assms arrive_settings by fastforce
next
  case (Fetched t request t1 t2 t3 result)
  then have "same_settings (app s) (app s')" using assms
    by (auto simp: fetched_def Let_def bind_eq_Some_conv set_cache_def dest!: complete_settings intro: same_settings_cache
        split: option.splits if_splits prod.splits)
  then show ?thesis using Fetched by simp
next
  case (Depart t now)
  then have "same_settings (app s) (app s')" using assms complete_settings
    by (fastforce simp: bind_eq_Some_conv split: option.splits phase.splits)
  then show ?thesis using Depart by simp
next
  case (Tick now)
  then have "same_settings (app s) (app s')" using assms spawn_all_settings
    by (fastforce simp: refresh_round_def bind_eq_Some_conv app_spawn_fold same_settings_def)
  then show ?thesis using Tick by simp
qed (use assms in \<open>auto simp: set_cache_def dest: join_app\<close>)

lemma step_blocklist:
  "resolver_step sv e s = Some s' \<Longrightarrow> app_blocklist (app s') = (case e of Publish x \<Rightarrow> x | _ \<Rightarrow> app_blocklist (app s))"
  using same_settings_blocklist [OF step_settings] by simp

lemma run_settings:
  "resolver_run sv es s = Some s' \<Longrightarrow> \<exists>c x. app s' = (app s)\<lparr>app_cache := c, app_blocklist := x\<rparr>"
proof (induction es arbitrary: s)
  case Nil
  then show ?case by (intro exI [of _ "app_cache (app s)"] exI [of _ "app_blocklist (app s)"]) simp
next
  case (Cons e es)
  then obtain s1 where "resolver_step sv e s = Some s1" "resolver_run sv es s1 = Some s'"
    by (auto simp: bind_eq_Some_conv split: if_splits)
  with Cons.IH [of s1] step_settings [of sv e s s1] obtain c x where "app s' = (app s)\<lparr>app_cache := c, app_blocklist := x\<rparr>"
    by (auto simp: same_settings_def)
  then show ?case by blast
qed

subsection \<open>Runs from the start\<close>

definition requests :: "event list \<Rightarrow> bytes set" where
  "requests es = {raw. \<exists>t1 t2. Arrive t1 t2 raw \<in> set es}"

text \<open>
  The start: an empty cache and a well-formed block list. The environment: every fetch ends with a
  result of the upstreams for its request, every published block list is well-formed.
\<close>

definition set_up ::
  "('h, 'rt, 'cl) services \<Rightarrow> ('h \<Rightarrow> nat \<Rightarrow> (nat \<times> nat) set \<Rightarrow> bool) \<Rightarrow> ('h, 'rt, 'cl) app_state \<Rightarrow> bool" where
  "set_up sv R st \<longleftrightarrow> heap_spec (heap_impl (cache_env_of sv)) R \<and> codec_ok (codec sv) \<and>
     (\<exists>en n. n \<le> 2 ^ 30 \<and> app_cache st = response_cache_new (cache_env_of sv) en n) \<and>
     slots_ok (name_hash sv) (app_blocklist st)"

definition env_ok :: "('h, 'rt, 'cl) services \<Rightarrow> event list \<Rightarrow> bool" where
  "env_ok sv es \<longleftrightarrow>
     (\<forall>t request t1 t2 t3 result. Fetched t request t1 t2 t3 result \<in> set es \<longrightarrow> upstream_result request result) \<and>
     (\<forall>x. Publish x \<in> set es \<longrightarrow> slots_ok (name_hash sv) x)"

lemma start_inv:
  assumes "set_up sv R st" shows "resolver_inv sv R H (resolver_new st)"
proof -
  from assms obtain en n where s: "heap_spec (heap_impl (cache_env_of sv)) R" "n \<le> 2 ^ 30"
    "app_cache st = response_cache_new (cache_env_of sv) en n" "slots_ok (name_hash sv) (app_blocklist st)"
    by (auto simp: set_up_def)
  have "cache_good sv R H REFRESH_CONCURRENCY (app_cache st)"
    unfolding cache_good_def cache_view_def s(3) using new_represents [OF s(1,2), of en]
    by (metis empty_iff empty_set fst_conv snd_conv)
  then have "app_good sv R H REFRESH_CONCURRENCY st" using s(4) by (simp add: app_good_def)
  then show ?thesis
    using flight_inv_new [of "carries sv H"]
    by (intro resolver_invI [of sv R H REFRESH_CONCURRENCY])
      (auto simp: resolver_new_def refreshers_def tasks_inv_def registry_new_def)
qed

lemma event_okI:
  assumes "env_ok sv es" "e \<in> set es"
    and "\<And>t1 t2 raw. e = Arrive t1 t2 raw \<Longrightarrow> admitted sv H (app_blocklist (app s)) raw"
  shows "event_ok sv H s e"
proof (cases e)
  case (Fetched t request t1 t2 t3 result)
  then have "upstream_result request result" using assms(1,2) unfolding env_ok_def by blast
  then show ?thesis
    using upstream_result_answers answer_for_response by (auto simp: event_ok_def Fetched)
qed (use assms in \<open>auto simp: event_ok_def env_ok_def\<close>)

text \<open>\<open>Q\<close> is a property of every block list in the run.\<close>

lemma run_inv:
  assumes spec: "heap_spec (heap_impl (cache_env_of sv)) R" "codec_ok (codec sv)"
    and adm: "\<And>x raw. Q x \<Longrightarrow> raw \<in> requests es0 \<Longrightarrow> admitted sv H x raw"
    and pub: "\<And>x. Publish x \<in> set es0 \<Longrightarrow> Q x" and env: "env_ok sv es0"
  shows "resolver_inv sv R H s \<Longrightarrow> Q (app_blocklist (app s)) \<Longrightarrow> set es \<subseteq> set es0 \<Longrightarrow> resolver_run sv es s = Some s' \<Longrightarrow>
    resolver_inv sv R H s' \<and> Q (app_blocklist (app s'))"
proof (induction es arbitrary: s)
  case (Cons e es)
  from Cons.prems(4) obtain s1 where s1: "possible e s" "resolver_step sv e s = Some s1" "resolver_run sv es s1 = Some s'"
    by (auto simp: bind_eq_Some_conv split: if_splits)
  have "event_ok sv H s e"
    by (rule event_okI [OF env]) (use Cons.prems(2,3) adm in \<open>auto simp: requests_def\<close>)
  from resolver_step_inv [OF spec Cons.prems(1) s1(1) this] s1(2) have "resolver_inv sv R H s1" by auto
  moreover have "Q (app_blocklist (app s1))"
    using step_blocklist [OF s1(2)] Cons.prems(2,3) pub by (auto split: event.splits)
  ultimately show ?case using Cons.IH [of s1] Cons.prems(3) s1(3) by simp
qed simp

lemma reachable_inv:
  assumes su: "set_up sv R st" and env: "env_ok sv es" and run: "resolver_run sv es (resolver_new st) = Some s"
  shows "resolver_inv sv R (requests es) s"
proof -
  have "heap_spec (heap_impl (cache_env_of sv)) R" "codec_ok (codec sv)" using su by (simp_all add: set_up_def)
  from run_inv [where Q = "\<lambda>_. True", OF this _ _ env start_inv [OF su], where es = es and H = "requests es"] run
  show ?thesis by (simp add: admitted_def)
qed

text \<open>A fetch that ends without an answer.\<close>

lemma no_answer: "env_ok sv [Fetched t request t1 t2 t3 (Inl No_upstreams)]"
proof -
  have "upstream_result request (Inl No_upstreams)"
    unfolding upstream_result_def
    by (rule exI [of _ "[]"], rule exI [of _ 0], intro exI [of _ "Inl No_upstreams"] exI)
      (simp add: resolve_sequential_def resolve_wire_def and_then_def)
  then show ?thesis by (auto simp: env_ok_def)
qed

subsection \<open>A small resolver for the witnesses\<close>

text \<open>A resolver with its cache switched off and one client query for the root name.\<close>

definition demo_services :: "((nat \<times> nat) list, u16, u16) services" where
  "demo_services =
     \<lparr>cache_env_of = \<lparr>key_hash = (\<lambda>_. 0), heap_impl = first_fit\<rparr>, codec = codec_id, name_hash = (\<lambda>_. 0),
      from_vec = (\<lambda>_. Some \<lparr>response_code = No_Error, answers = [\<lparr>rec_ttl = 60, soa_minimum = None\<rparr>], authorities = []\<rparr>)\<rparr>"

definition demo_app :: "bool \<Rightarrow> domain_index \<Rightarrow> ((nat \<times> nat) list, u16, u16) app_state" where
  "demo_app en x =
     \<lparr>app_hosts = Map.empty, app_blocklist = x,
      app_cache = response_cache_new (cache_env_of demo_services) en (if en then 4096 else 0),
      app_block_mode = Nxdomain, app_sinkhole_ip = (0, 0, 0, 0), app_sinkhole_ttl = 60\<rparr>"

definition demo_query :: bytes where
  "demo_query = query_wire 7 1 0 0 0 0 [] 1 1 []"

lemma plainI:
  "list_all label_ok ls \<Longrightarrow> \<forall>l\<in>set ls. 46 \<notin> set l \<Longrightarrow> plain (query_wire i b2 b3 an ns ar ls qt qc rest)"
  unfolding plain_def by blast

lemma demo_query_root: "demo_query = root_query"
  by (simp add: demo_query_def root_query_def query_wire_def enc_header_def enc_name_def be16_def)

definition demo_parsed :: "(u16, u16) parsed_query" where
  "demo_parsed = query_info codec_id 7 1 0 [] 1 1 (False, False)"

lemma demo_set_up:
  assumes "slots_ok (\<lambda>_. 0) x" shows "set_up demo_services first_fit_holds (demo_app en x)"
proof -
  have "app_cache (demo_app en x) = response_cache_new (cache_env_of demo_services) en (if en then 4096 else 0)"
    "(if en then 4096 else 0) \<le> (2 ^ 30 :: nat)" by (simp_all add: demo_app_def)
  then have "\<exists>en' n. n \<le> 2 ^ 30 \<and> app_cache (demo_app en x) = response_cache_new (cache_env_of demo_services) en' n"
    by blast
  then show ?thesis using assms
    by (simp add: set_up_def) (simp add: demo_services_def demo_app_def first_fit_spec codec_id_ok)
qed

lemma demo_parse: "parse_request demo_services demo_query = Some (demo_parsed, [46])"
proof -
  have e: "opt_of demo_query (16 + length (enc_name [])) = (False, False)"
    by (simp add: demo_query_def opt_of_def find_opt_def query_wire_def)
  have "parse_query codec_id demo_query (replicate 255 0) = Some (demo_parsed, blit (replicate 255 0) 0 (canonical []))"
    unfolding demo_parsed_def e [symmetric]
    by (rule parse_query_complete [OF demo_query_def]) (simp_all add: label_ok_def)
  then show ?thesis
    by (simp add: parse_request_def demo_services_def demo_parsed_def query_info_def canonical_def ascii_lower_def blit_def)
qed

lemma demo_fields:
  "pq_id demo_parsed = 7" "query_key demo_parsed [46] = ([46], 1, 1, 0)"
  by (simp_all add: demo_parsed_def query_info_def query_key_def cache_flags_def codec_id_def)

lemma empty_index: "slots_ok h domain_index_new" "domains domain_index_new = {}"
  using domain_index_new_ok by (auto simp: list_ok_def index_ok_def)

definition demo_events :: "event list" where
  "demo_events = [Arrive 0 0 demo_query, Begin 0, Fetched 0 demo_query 0 0 0 (Inl No_upstreams), Depart 0 0]"

lemma demo_env: "env_ok demo_services demo_events"
  using no_answer by (auto simp: env_ok_def demo_events_def)

lemma demo_release:
  "release_refresh_claim (cache_env_of demo_services) now k (app_cache (demo_app en x)) = Some (app_cache (demo_app en x))"
  by (simp add: release_refresh_claim_def first_fit_def locate_def locate_loop.simps(2) [of _ _ _ 63, simplified] get_def demo_app_def demo_services_def response_cache_new_def Let_def)

lemma demo_handle:
  assumes "slots_ok (\<lambda>_. 0) x"
  shows "handle_query demo_services 0 0 demo_query (demo_app en x) =
     Some (if [46] \<in> domains x then Reply (block_answer demo_services demo_query demo_parsed (demo_app en x)) Blocked
           else Forward ([46], 1, 1, 0), None, demo_app en x)"
proof -
  have "contains_bytes (name_hash demo_services) x [46] = Some ([46] \<in> domains x)"
    using contains_bytes_eq [OF assms] by (simp add: demo_services_def)
  moreover have "get_with_flags (cache_env_of demo_services) 0 k (app_cache (demo_app en x)) =
      Some (None, app_cache (demo_app en x))" for k
    by (simp add: get_with_flags_def locate_def locate_loop.simps(2) [of _ _ _ 63, simplified] get_def first_fit_def
        demo_app_def demo_services_def response_cache_new_def Let_def)
  moreover have "app_hosts (demo_app en x) = Map.empty" "app_blocklist (demo_app en x) = x" by (simp_all add: demo_app_def)
  ultimately show ?thesis by (simp add: handle_query_def demo_parse resolve_def demo_fields Let_def)
qed

lemma one_name: "\<exists>x. slots_ok (\<lambda>_. 0) x \<and> domains x = {[46]}"
proof -
  have "index_ok (\<lambda>_. 0) domain_index_new" using domain_index_new_ok(1) by (simp add: list_ok_def)
  from insert_normalized_ok [OF this, of "[46]"] show ?thesis
    by (auto simp: empty_index text_size_def index_ok_def)
qed

definition demo_start :: "bool \<Rightarrow> ((nat \<times> nat) list, u16, u16) resolver" where
  "demo_start en = resolver_new (demo_app en domain_index_new)"

definition demo_id :: "(u16, u16) flight_id" where
  "demo_id = the (flight_key ([46], 1, 1, 0))"

lemma demo_id: "flight_key ([46], 1, 1, 0) = Some demo_id"
  by (simp add: demo_id_def flight_key_def inline_from_bytes_def)

lemma demo_runs:
  "\<exists>s. resolver_run demo_services [Arrive 0 0 demo_query] (demo_start False) = Some s \<and>
     jobs s 0 = Some (Client demo_query demo_parsed ([46], 1, 1, 0))"
  "\<exists>s. resolver_run demo_services [Arrive 0 0 demo_query, Begin 0] (demo_start en) = Some s \<and>
     possible (Fetched 0 demo_query t1 t2 t3 r) s \<and> app s = demo_app en domain_index_new \<and> replies s = [] \<and>
     jobs s 0 = Some (Client demo_query demo_parsed ([46], 1, 1, 0))"
  "\<exists>s w. resolver_run demo_services demo_events (demo_start False) = Some s \<and> replies s = [(demo_query, w, Miss)]"
  using demo_release [of 0 "([46], 1, 1, 0)" False domain_index_new]
  by (auto simp: demo_start_def demo_events_def resolver_new_def arrive_def demo_handle empty_index demo_parse join_def spawn_def demo_id
      registry_new_def cell_for_def set_phase_def Inflight.set_cell_def remove_flight_def fetched_def fetch_from_upstream_def
      complete_def set_cache_def)

subsection \<open>Properties\<close>

lemma reachable_step:
  assumes "set_up sv R st" "env_ok sv (es @ [e])" "resolver_run sv es (resolver_new st) = Some s" "possible e s"
  shows "\<exists>s'. resolver_step sv e s = Some s' \<and>
    refresh_slots (app_cache (app s')) + card {t. \<exists>task. jobs s' t = Some (Refresher task)} = REFRESH_CONCURRENCY"
proof -
  have spec: "heap_spec (heap_impl (cache_env_of sv)) R" "codec_ok (codec sv)" using assms(1) by (simp_all add: set_up_def)
  have env: "env_ok sv es" using assms(2) by (simp add: env_ok_def)
  let ?H = "requests (es @ [e])"
  have "requests es \<subseteq> ?H" by (auto simp: requests_def)
  from run_inv [where Q = "\<lambda>_. True", OF spec _ _ env start_inv [OF assms(1)], where es = es and H = ?H] this assms(3)
  have inv: "resolver_inv sv R ?H s" by (auto simp: admitted_def)
  have "event_ok sv ?H s e"
    by (rule event_okI [OF assms(2)]) (auto simp: admitted_def requests_def)
  from resolver_step_inv [OF spec inv assms(4) this] obtain s' where
    s': "resolver_step sv e s = Some s'" "resolver_inv sv R ?H s'" by blast
  from s'(2) obtain p where "app_good sv R ?H p (app s')" "p + card (refreshers s') = REFRESH_CONCURRENCY"
    by (rule resolver_invD)
  moreover from this have "refresh_slots (app_cache (app s')) = p"
    by (auto simp: app_good_def cache_good_def cache_view_def)
  ultimately show ?thesis using s'(1) by (auto simp: refreshers_def)
qed

text \<open>
  C2. The resolver never panics: in every state reached from the start, whatever the interleaving of
  queries, fetches, refreshes, sweeps, closed connections and new block lists, every possible event
  is handled, and the free refresh permits and the running refreshes add up to their limit.
\<close>

theorem resolver_never_panics:
  assumes "set_up sv R st" "env_ok sv (es @ [e])" "resolver_run sv es (resolver_new st) = Some s" "possible e s"
  shows "\<exists>s'. resolver_step sv e s = Some s' \<and>
    refresh_slots (app_cache (app s')) + card {t. \<exists>task. jobs s' t = Some (Refresher task)} = REFRESH_CONCURRENCY"
  by (rule reachable_step [OF assms])

theorem resolver_never_panics_witness:
  "\<exists>s s'. resolver_run demo_services [Arrive 0 0 demo_query, Begin 0] (demo_start False) = Some s \<and>
     resolver_step demo_services (Fetched 0 demo_query 0 0 0 (Inl No_upstreams)) s = Some s'"
proof -
  obtain s where s: "resolver_run demo_services [Arrive 0 0 demo_query, Begin 0] (demo_start False) = Some s"
    "possible (Fetched 0 demo_query 0 0 0 (Inl No_upstreams)) s" using demo_runs(2) [of False 0 0 0 "Inl No_upstreams"] by blast
  have "env_ok demo_services ([Arrive 0 0 demo_query, Begin 0] @ [Fetched 0 demo_query 0 0 0 (Inl No_upstreams)])"
    using demo_env by (auto simp: env_ok_def demo_events_def)
  from resolver_never_panics [OF demo_set_up [OF empty_index(1)] this s(1) [unfolded demo_start_def] s(2)] s(1)
  show ?thesis by blast
qed

text \<open>
  C1. Every reply answers its query. A reply to a query the handler can parse has the ID of the query
  and the QR bit, and its question is that of a query with the same cache key that some client has
  sent; when the labels of the queries with this key contain no dot it is the client's own question,
  up to case.
\<close>

theorem replies_answer_their_query:
  assumes "set_up sv R st" "env_ok sv es" "resolver_run sv es (resolver_new st) = Some s"
    and "(raw, w, path) \<in> set (replies s)" "raw \<in> requests es" "parse_request sv raw = Some (q, name)"
  shows "u16_at w 0 = u16_at raw 0 \<and> (\<exists>b. get w 2 = Some b \<and> b AND 0x80 \<noteq> 0) \<and>
    (\<exists>raw'\<in>requests es. asks sv raw' (query_key q name) \<and> response_to raw' w) \<and>
    ((\<forall>raw'\<in>requests es. asks sv raw' (query_key q name) \<longrightarrow> plain raw') \<longrightarrow> response_to raw w)"
proof -
  let ?H = "requests es" and ?k = "query_key q name"
  have "resolver_inv sv R ?H s" by (rule reachable_inv [OF assms(1-3)])
  then have "reply_ok sv ?H (app s) (raw, w, path)" using assms(4) by (auto elim: resolver_invD)
  moreover have raw: "asks sv raw ?k" using assms(6) by (auto simp: asks_def)
  ultimately have g: "u16_at w 0 = Some (pq_id q)" "genuine sv ?H ?k w"
    using assms(5,6) by (auto simp: reply_ok_def genuine_def split: path.splits)
  from g(2) obtain raw' where raw': "raw' \<in> ?H" "asks sv raw' ?k" "response_to raw' w" by (auto simp: genuine_def)
  have "codec_ok (codec sv)" using assms(1) by (simp add: set_up_def)
  from same_question [OF this _ raw _ raw'(2,3)] have "plain raw \<Longrightarrow> plain raw' \<Longrightarrow> response_to raw w" .
  then show ?thesis using g(1) query_id_read [OF assms(6)] raw' raw assms(5) by (auto simp: response_to_def)
qed

theorem replies_answer_their_query_witness:
  "\<exists>s w. resolver_run demo_services demo_events (demo_start False) = Some s \<and> replies s = [(demo_query, w, Miss)] \<and>
     u16_at w 0 = u16_at demo_query 0 \<and> response_to demo_query w"
proof -
  obtain s w where s: "resolver_run demo_services demo_events (demo_start False) = Some s" "replies s = [(demo_query, w, Miss)]"
    using demo_runs(3) by blast
  have r: "requests demo_events = {demo_query}" by (auto simp: requests_def demo_events_def)
  have "plain demo_query" unfolding demo_query_def by (rule plainI) (simp_all add: label_ok_def)
  then have "\<forall>raw'\<in>requests demo_events. asks demo_services raw' (query_key demo_parsed [46]) \<longrightarrow> plain raw'"
    by (simp add: r)
  with replies_answer_their_query [OF demo_set_up [OF empty_index(1)] demo_env s(1) [unfolded demo_start_def] _ _ demo_parse, of w Miss]
  show ?thesis using s r by auto
qed

text \<open>
  What a blocked query is answered, from the bytes of the query: its ID and its question, and in the
  mode NXDOMAIN the response code 3 and no record, in the mode sinkhole the response code 0 and, when
  it asks for type A, one A record with the configured address and lifetime.
\<close>

definition block_reply ::
  "block_mode \<Rightarrow> ipv4 \<Rightarrow> u32 \<Rightarrow> bytes \<Rightarrow> ('rt, 'cl) parsed_query \<Rightarrow> bytes \<Rightarrow> bool" where
  "block_reply md ip ttl raw q w \<longleftrightarrow>
     (\<exists>i c2 c3 an ns ar ls qt qc rest b2 b3. raw = query_wire i c2 c3 an ns ar ls qt qc rest \<and>
        w = enc_msg i b2 b3 [(enc_name ls, qt, qc)]
          (if md = Sinkhole \<and> qt = 1
           then [\<lparr>rr_name = [0xc0, 12], rr_type = 1, rr_class = 1, rr_ttl = ttl, rr_data = octets ip\<rparr>] else [])
          [] (opt_rrs q) \<and>
        b2 AND 0x80 \<noteq> 0 \<and> b3 AND 0x0f = (case md of Nxdomain \<Rightarrow> 3 | Sinkhole \<Rightarrow> 0))"

lemma block_answer_reply:
  assumes "codec_ok (codec sv)" "parse_request sv raw = Some (q, name)"
  shows "block_reply (app_block_mode st) (app_sinkhole_ip st) (app_sinkhole_ttl st) raw q (block_answer sv raw q st)"
proof -
  obtain i b2 b3 an ns ar ls qt qc rest where
    w: "raw = query_wire i b2 b3 an ns ar ls qt qc rest"
    and q: "q = query_info (codec sv) i b2 b3 ls qt qc (opt_of raw (16 + length (enc_name ls)))"
    by (rule parse_requestE [OF assms(2)])
  have "opcode q = drop_bit 3 b2 AND 0x0f" by (simp add: q query_info_def)
  note bits = response_flags_bits(1,8) [OF this]
  have a: "qtype q = rtype_A (codec sv) \<longleftrightarrow> qt = 1"
    using assms(1) by (simp add: q query_info_def codec_ok_def) metis
  note s = synthesize_query_wire [OF assms(1) w q]
  let ?rcode = "(case app_block_mode st of Nxdomain \<Rightarrow> 3 | Sinkhole \<Rightarrow> 0) :: u8"
  let ?c2 = "0x80 OR push_bit 3 (opcode q) OR of_bool (recursion_desired q)"
  let ?c3 = "0x80 OR push_bit 4 (of_bool (checking_disabled q)) OR (?rcode AND 0x0f)"
  have "?c3 AND 0x0f = ?rcode" unfolding bits(2) by (cases "app_block_mode st") simp_all
  moreover have "block_answer sv raw q st = enc_msg i ?c2 ?c3 [(enc_name ls, qt, qc)]
      (if app_block_mode st = Sinkhole \<and> qt = 1
       then [\<lparr>rr_name = [0xc0, 12], rr_type = 1, rr_class = 1, rr_ttl = app_sinkhole_ttl st, rr_data = octets (app_sinkhole_ip st)\<rparr>]
       else []) [] (opt_rrs q)"
    by (cases "app_block_mode st") (simp_all add: block_answer_def s a answer_rrs_def)
  ultimately show ?thesis unfolding block_reply_def using w bits(1) by blast
qed

text \<open>
  C3. A name that is on every block list of a run is never asked upstream, neither for a client nor for
  a refresh. A query for it is answered at once from the settings: as a static host when it is one, and
  otherwise as the block mode asks, with the ID and the question of the query and either the code
  NXDOMAIN and no record, or the sinkhole address for a query of type A.
\<close>

theorem blocked_never_forwarded:
  assumes "set_up sv R st" "env_ok sv es" "resolver_run sv es (resolver_new st) = Some s"
    and blocked: "name \<in> domains (app_blocklist st)" "\<forall>x. Publish x \<in> set es \<longrightarrow> name \<in> domains x"
  shows "(\<forall>t j. jobs s t = Some j \<longrightarrow> fst (job_key j) \<noteq> name) \<and>
    (\<forall>raw w path q. (raw, w, path) \<in> set (replies s) \<longrightarrow> parse_request sv raw = Some (q, name) \<longrightarrow>
       (if path = Static then app_hosts st name \<noteq> None
        else path = Blocked \<and> block_reply (app_block_mode st) (app_sinkhole_ip st) (app_sinkhole_ttl st) raw q w))"
proof -
  have spec: "heap_spec (heap_impl (cache_env_of sv)) R" "codec_ok (codec sv)" using assms(1) by (simp_all add: set_up_def)
  let ?H = "{raw \<in> requests es. \<forall>k. asks sv raw k \<longrightarrow> fst k \<noteq> name}"
  have "resolver_inv sv R ?H s \<and> name \<in> domains (app_blocklist (app s))"
  proof (rule run_inv [where Q = "\<lambda>x. name \<in> domains x", OF spec _ _ assms(2) start_inv [OF assms(1)] _ _ assms(3)])
    show "admitted sv ?H x raw" if "name \<in> domains x" "raw \<in> requests es" for x raw
      using that asks_inj [of sv raw] unfolding admitted_def by blast
  qed (use blocked in \<open>auto simp: resolver_new_def\<close>)
  then have inv: "resolver_inv sv R ?H s" by blast
  then have t: "tasks_inv sv ?H s" and r: "\<forall>r\<in>set (replies s). reply_ok sv ?H (app s) r" by (auto elim: resolver_invD)
  have "fst (job_key j) \<noteq> name" if "jobs s t = Some j" for t j
    using tasks_invD(2) [OF t that] unfolding job_ok_def by blast
  moreover have "if path = Static then app_hosts st name \<noteq> None
      else path = Blocked \<and> block_reply (app_block_mode st) (app_sinkhole_ip st) (app_sinkhole_ttl st) raw q w"
    if "(raw, w, path) \<in> set (replies s)" "parse_request sv raw = Some (q, name)" for raw w path q
  proof -
    have "app_hosts (app s) = app_hosts st" "app_block_mode (app s) = app_block_mode st"
      "app_sinkhole_ip (app s) = app_sinkhole_ip st" "app_sinkhole_ttl (app s) = app_sinkhole_ttl st"
      using run_settings [OF assms(3)] by (auto simp: resolver_new_def)
    note set = this block_answer_reply [OF spec(2) that(2), of "app s"]
    have "\<not> genuine sv ?H (query_key q name) w" unfolding genuine_def by (force simp: query_key_def)
    then have "path = Static \<and> app_hosts (app s) name \<noteq> None \<or> path = Blocked \<and> w = block_answer sv raw q (app s)"
      using r that by (fastforce simp: reply_ok_def split: path.splits)
    then show ?thesis using set by auto
  qed
  ultimately show ?thesis by blast
qed

theorem blocked_never_forwarded_witness:
  "\<exists>x s w. resolver_run demo_services [Arrive 0 0 demo_query] (resolver_new (demo_app False x)) = Some s \<and>
     replies s = [(demo_query, w, Blocked)] \<and> block_reply Nxdomain (0, 0, 0, 0) 60 demo_query demo_parsed w"
proof -
  obtain x where x: "slots_ok (\<lambda>_. 0) x" "domains x = {[46]}" using one_name by blast
  let ?w = "block_answer demo_services demo_query demo_parsed (demo_app False x)"
  let ?s = "resolver_new (demo_app False x)\<lparr>replies := [(demo_query, ?w, Blocked)]\<rparr>"
  have s: "resolver_run demo_services [Arrive 0 0 demo_query] (resolver_new (demo_app False x)) = Some ?s"
    using demo_handle [OF x(1)] x(2) by (simp add: arrive_def resolver_new_def)
  have "env_ok demo_services [Arrive 0 0 demo_query]" by (simp add: env_ok_def)
  from blocked_never_forwarded [OF demo_set_up [OF x(1)] this s, of "[46]"] x(2)
  have "block_reply Nxdomain (0, 0, 0, 0) 60 demo_query demo_parsed ?w"
    using demo_parse by (simp add: demo_app_def)
  then show ?thesis using s by (intro exI [of _ x] exI [of _ ?s] exI [of _ ?w]) simp
qed

subsection \<open>Every client can be answered\<close>

definition answerable :: "('h, 'rt, 'cl) services \<Rightarrow> bytes \<Rightarrow> ('h, 'rt, 'cl) resolver \<Rightarrow> bool" where
  "answerable sv raw s \<longleftrightarrow>
     (\<exists>es s' w. resolver_run sv es s = Some s' \<and> env_ok sv es \<and> requests es = {} \<and> (raw, w, Miss) \<in> set (replies s'))"

lemma answerable_step:
  assumes "possible e s" "resolver_step sv e s = Some s1" "env_ok sv [e]" "requests [e] = {}" "answerable sv raw s1"
  shows "answerable sv raw s"
proof -
  from assms(5) obtain es s' w where "resolver_run sv es s1 = Some s'" "env_ok sv es" "requests es = {}"
    "(raw, w, Miss) \<in> set (replies s')" by (auto simp: answerable_def)
  then show ?thesis using assms(1-4) unfolding answerable_def
    by (intro exI [of _ "e # es"] exI [of _ s'] exI [of _ w]) (auto simp: env_ok_def requests_def)
qed

lemma answerable_got:
  assumes "jobs s t = Some (Client raw q k)" "phases (flights s) t = Some (Got i w)"
  shows "answerable sv raw s"
  using assms unfolding answerable_def
  by (intro exI [of _ "[Depart t 0]"]) (auto simp: env_ok_def requests_def complete_def)

lemma fetch_ends:
  assumes spec: "heap_spec (heap_impl (cache_env_of sv)) R" "codec_ok (codec sv)" and inv: "resolver_inv sv R H s"
    and ph: "phases (flights s) t = Some (Fetching i c)"
  obtains e s1 w where "possible e s" "resolver_step sv e s = Some s1" "env_ok sv [e]" "requests [e] = {}"
    "flights s1 = set_phase t (Some (Got i w)) (Inflight.set_cell c (Ready w) (flights s))" "jobs s1 = jobs s" "resolver_inv sv R H s1"
proof -
  have "tasks_inv sv H s" using inv by (rule resolver_invD)
  from tasks_invD(3) [OF this, of t] ph obtain j where j: "jobs s t = Some j" by auto
  let ?e = "Fetched t (job_request j) 0 0 0 (Inl No_upstreams)"
  have pos: "possible ?e s" using ph j by simp
  have "event_ok sv H s ?e" by (simp add: event_ok_def)
  from resolver_step_inv [OF spec inv pos this] obtain s1 where s1: "resolver_step sv ?e s = Some s1" "resolver_inv sv R H s1"
    by blast
  then obtain w where "flights s1 = set_phase t (Some (Got i w)) (Inflight.set_cell c (Ready w) (flights s))" "jobs s1 = jobs s"
    using ph j by (auto simp: fetched_def bind_eq_Some_conv set_cache_def)
  with that [OF pos s1(1) no_answer _ _ _ s1(2)] show thesis by (simp add: requests_def)
qed

lemma answerable_fetching:
  assumes "heap_spec (heap_impl (cache_env_of sv)) R" "codec_ok (codec sv)" "resolver_inv sv R H s"
    and "phases (flights s) t = Some (Fetching i c)" "jobs s t = Some (Client raw q k)"
  shows "answerable sv raw s"
proof -
  obtain e s1 w where e: "possible e s" "resolver_step sv e s = Some s1" "env_ok sv [e]" "requests [e] = {}"
    and s1: "flights s1 = set_phase t (Some (Got i w)) (Inflight.set_cell c (Ready w) (flights s))" "jobs s1 = jobs s"
    by (rule fetch_ends [OF assms(1-4)])
  have "answerable sv raw s1" by (rule answerable_got) (use assms(5) s1 in \<open>auto simp: set_phase_def\<close>)
  then show ?thesis by (rule answerable_step [OF e])
qed

lemma answerable_ready:
  assumes "phases (flights s) t = Some (Waiting i c)" "registry.cells (flights s) ! c = Ready w" "jobs s t = Some (Client raw q k)"
  shows "answerable sv raw s"
proof (rule answerable_step [of "Observe t"])
  show "resolver_step sv (Observe t) s = Some (s\<lparr>flights := set_phase t (Some (Got i w)) (flights s)\<rparr>)" using assms by simp
  show "answerable sv raw (s\<lparr>flights := set_phase t (Some (Got i w)) (flights s)\<rparr>)"
    by (rule answerable_got) (use assms in \<open>auto simp: set_phase_def\<close>)
qed (use assms in \<open>auto simp: env_ok_def requests_def\<close>)

lemma answerable_waiting:
  assumes spec: "heap_spec (heap_impl (cache_env_of sv)) R" "codec_ok (codec sv)" and inv: "resolver_inv sv R H s"
    and ph: "phases (flights s) t = Some (Waiting i c)" and j: "jobs s t = Some (Client raw q k)"
  shows "answerable sv raw s"
proof (cases "registry.cells (flights s) ! c")
  case Unset
  let ?f = "set_phase t (Some (Fetching i c)) (Inflight.set_cell c (Running t) (flights s))"
  have st: "flight_step (Lead t) (flights s) = Some ?f" using ph Unset by simp
  have inv1: "resolver_inv sv R H (s\<lparr>flights := ?f\<rparr>)" by (rule step_begin [OF inv st, of t]) simp
  have "phases (flights (s\<lparr>flights := ?f\<rparr>)) t = Some (Fetching i c)" by (simp add: set_phase_def)
  then have a: "answerable sv raw (s\<lparr>flights := ?f\<rparr>)"
    by (rule answerable_fetching [OF spec inv1]) (simp add: j)
  show ?thesis
    by (rule answerable_step [OF _ _ _ _ a, of "Begin t"]) (use st in \<open>simp_all add: env_ok_def requests_def\<close>)
next
  case (Running t')
  have "tasks_inv sv H s" using inv by (rule resolver_invD)
  from tasks_invD(5) [OF this] obtain kf where kf: "keyed (carries sv H) kf (flights s)" by (auto simp: flight_inv_def)
  have c: "c < length (registry.cells (flights s))" using keyedD(2) [OF kf ph] by simp
  obtain e s1 w where e: "possible e s" "resolver_step sv e s = Some s1" "env_ok sv [e]" "requests [e] = {}"
    and s1: "flights s1 = set_phase t' (Some (Got (kf c) w)) (Inflight.set_cell c (Ready w) (flights s))" "jobs s1 = jobs s"
    by (rule fetch_ends [OF spec inv keyedD(4) [OF kf c Running]])
  have "t \<noteq> t'" using keyedD(4) [OF kf c Running] ph by auto
  then have "answerable sv raw s1"
    by (intro answerable_ready [of s1 t i c w]) (use ph j s1 c in \<open>auto simp: set_phase_def Inflight.set_cell_def\<close>)
  then show ?thesis by (rule answerable_step [OF e])
next
  case (Ready w)
  then show ?thesis by (rule answerable_ready [OF ph _ j])
qed

text \<open>
  C19. No client waits forever if the fetches end: in every state reached from the start, for every client
  that waits there is a continuation without further queries that ends with a reply to it, also when the
  task that ran the fetch was abandoned.
\<close>

theorem every_client_can_be_answered:
  assumes "set_up sv R st" "env_ok sv es" "resolver_run sv es (resolver_new st) = Some s"
    and j: "jobs s t = Some (Client raw q k)"
  shows "\<exists>es' s' w. resolver_run sv es' s = Some s' \<and> env_ok sv es' \<and> requests es' = {} \<and> (raw, w, Miss) \<in> set (replies s')"
proof -
  have spec: "heap_spec (heap_impl (cache_env_of sv)) R" "codec_ok (codec sv)" using assms(1) by (simp_all add: set_up_def)
  note inv = reachable_inv [OF assms(1-3)]
  then have ti: "tasks_inv sv (requests es) s" by (rule resolver_invD)
  have "answerable sv raw s"
  proof (cases "phases (flights s) t")
    case None
    from join_tasks [OF ti j this] obtain f i c where
      f: "join t s = Some (s\<lparr>flights := f\<rparr>)" "tasks_inv sv (requests es) (s\<lparr>flights := f\<rparr>)"
        "phases f t = Some (Waiting i c)" by blast
    have a: "answerable sv raw (s\<lparr>flights := f\<rparr>)"
      by (rule answerable_waiting [OF spec inv_flights [OF inv f(2)], of t i c raw q k]) (simp_all add: f(3) j)
    show ?thesis
      by (rule answerable_step [OF _ _ _ _ a, of "event.Enter t"])
        (use f(1) None j in \<open>simp_all add: env_ok_def requests_def\<close>)
  next
    case (Some ph)
    have l: "link (Some ph) (jobs s t)" using tasks_invD(3) [OF ti, of t] Some by simp
    note a = answerable_waiting [OF spec inv _ j] answerable_fetching [OF spec inv _ j] answerable_got [OF j]
    show ?thesis using l j Some a by (cases ph) simp_all
  qed
  then show ?thesis unfolding answerable_def .
qed

theorem every_client_can_be_answered_witness:
  "\<exists>s es' s' w. resolver_run demo_services [Arrive 0 0 demo_query] (demo_start False) = Some s \<and>
     resolver_run demo_services es' s = Some s' \<and> (demo_query, w, Miss) \<in> set (replies s')"
proof -
  obtain s where s: "resolver_run demo_services [Arrive 0 0 demo_query] (demo_start False) = Some s"
    "jobs s 0 = Some (Client demo_query demo_parsed ([46], 1, 1, 0))" using demo_runs(1) by blast
  have "env_ok demo_services [Arrive 0 0 demo_query]" by (simp add: env_ok_def)
  from every_client_can_be_answered [OF demo_set_up [OF empty_index(1)] this s(1) [unfolded demo_start_def] s(2)] s(1)
  show ?thesis by blast
qed

subsection \<open>From a miss to a hit\<close>

text \<open>
  C18. An answer fetched for one query serves the next: when the upstreams have answered a task with
  an answer whose lifetime is positive and which fits into the cache, a query with the same key that
  arrives before the lifetime is over is answered at once from the cache, with the aged answer under
  its own ID, and is not sent upstream.
\<close>

theorem fetched_answer_serves_next_query:
  fixes sv :: "('h, 'rt, 'cl) services"
  assumes su: "set_up sv R st" and env: "env_ok sv (es @ [Fetched t request t1 t1 t1 (Inr w), Arrive now now' raw])"
    and run: "resolver_run sv es (resolver_new st) = Some s" and pos: "possible (Fetched t request t1 t1 t1 (Inr w)) s"
    and j: "jobs s t = Some j" and ttl: "response_ttl sv w = Some ttl"
    and fits: "cacheable (app_cache (app s)) (job_key j) w request"
      "always_fits (heap_impl (cache_env_of sv)) R (length (pool (state (app_cache (app s)))))
         (length (fst (job_key j)) + length w + length request)"
    and q: "parse_request sv raw = Some (q, name)" "query_key q name = job_key j" "app_hosts (app s) name = None"
    and now: "now < t1 + secs (unat ttl)"
  shows "\<exists>s1 s2. resolver_step sv (Fetched t request t1 t1 t1 (Inr w)) s = Some s1 \<and>
    resolver_step sv (Arrive now now' raw) s1 = Some s2 \<and>
    replies s2 = (raw, set_id (answer_at now t1 ttl w) (pq_id q), Fresh) # replies s"
proof -
  have spec: "heap_spec (heap_impl (cache_env_of sv)) R" "codec_ok (codec sv)" using su by (simp_all add: set_up_def)
  let ?es = "es @ [Fetched t request t1 t1 t1 (Inr w), Arrive now now' raw]"
  let ?H = "requests ?es" and ?e = "Fetched t request t1 t1 t1 (Inr w)"
  have "env_ok sv es" using env by (simp add: env_ok_def)
  moreover have "requests es \<subseteq> ?H" by (auto simp: requests_def)
  ultimately have inv: "resolver_inv sv R ?H s"
    using run_inv [where Q = "\<lambda>_. True", OF spec _ _ _ start_inv [OF su], where es = es and H = ?H] run
    by (auto simp: admitted_def)
  have "event_ok sv ?H s ?e" by (rule event_okI [OF env]) simp_all
  from resolver_step_inv [OF spec inv pos this] obtain s1 where
    s1: "resolver_step sv ?e s = Some s1" "resolver_inv sv R ?H s1" by blast
  have "admitted sv ?H (app_blocklist (app s1)) raw" by (auto simp: admitted_def requests_def)
  from step_arrive [OF spec s1(2) this, of now now'] obtain s2 where s2: "arrive sv now now' raw s1 = Some s2" by blast
  from inv have ti: "tasks_inv sv ?H s" by (rule resolver_invD)
  from pos j have req: "job_request j = request" by simp
  obtain i c where ph: "phases (flights s) t = Some (Fetching i c)"
    using pos tasks_invD(3) [OF ti, of t] by (auto split: option.splits phase.splits)
  obtain cs where rep: "represents (cache_env_of sv) R (app_cache (app s)) cs"
    using inv by (auto elim!: resolver_invD simp: app_good_def cache_good_def cache_view_def)
  have k: "fst (job_key j) \<noteq> []" using tasks_invD(2) [OF ti j] asks_name(1) unfolding job_ok_def by blast
  have "now < t1 + secs (unat ttl) + SERVE_STALE_WINDOW" using now by simp
  from insert_then_get [OF spec(1) rep fits(1) k this] fits(2) now obtain c1 c2 refresh where
    c: "insert_with_flags (cache_env_of sv) t1 t1 t1 (job_key j) ttl w request (app_cache (app s)) = Some c1"
      "get_with_flags (cache_env_of sv) now (job_key j) c1 = Some (Some (answer_at now t1 ttl w, refresh, False), c2)" by auto
  have s1': "app_cache (app s1) = c1" "app_hosts (app s1) = app_hosts (app s)" "replies s1 = replies s"
    using s1(1) j req ph c(1) ttl by (auto simp: fetched_def fetch_from_upstream_def set_cache_def)
  have h: "(if utf8_valid name then app_hosts (app s1) name else None) = None" using q(3) s1'(2) by simp
  have "replies s2 = (raw, set_id (answer_at now t1 ttl w) (pq_id q), Fresh) # replies s1"
    using s2 q(1,2) c(2) s1'(1) h
    by (auto simp: arrive_def handle_query_def resolve_def bind_eq_Some_conv Let_def spawn_def split: option.splits)
  then show ?thesis using s1(1) s2 s1'(3) by simp
qed

theorem fetched_answer_serves_next_query_witness:
  "\<exists>s s1 s2 w. resolver_run demo_services [Arrive 0 0 demo_query, Begin 0] (demo_start True) = Some s \<and>
     resolver_step demo_services (Fetched 0 demo_query 0 0 0 (Inr w)) s = Some s1 \<and>
     resolver_step demo_services (Arrive 0 0 demo_query) s1 = Some s2 \<and>
     replies s2 = [(demo_query, set_id (answer_at 0 0 60 w) 7, Fresh)]"
proof -
  define w where "w = set_id root_reply 7"
  have up: "upstream_result demo_query (Inr w)"
    unfolding upstream_result_def demo_query_root
  proof (intro exI conjI)
    show "\<forall>a\<in>set two_upstreams. doh_outcome root_query (att_result a) \<or> dot_outcome root_query (att_result a)"
      using two_upstreams_results(3) by blast
    show "fst (resolve_sequential 0 two_upstreams) = Inr root_reply \<or> resolve_race two_upstreams [] = Some (Inr root_reply) \<or>
      resolve_hedged (\<lambda>i. att_result (two_upstreams ! i)) (length two_upstreams) [] = Return (Inr root_reply)"
      by (simp add: two_upstreams_sequential)
    have "get_range root_query 0 2 = Some [0, 7]" "u16_of_be 0 7 = 7" by code_simp+
    then show "Inr w = resolve_wire root_query (Inr root_reply)" by (simp add: resolve_wire_def and_then_def w_def)
  qed
  have len: "length w = 17" "length demo_query = 17" by (simp_all add: w_def root_reply_def demo_query_root root_query_def)
  obtain s where s: "resolver_run demo_services [Arrive 0 0 demo_query, Begin 0] (demo_start True) = Some s"
    "possible (Fetched 0 demo_query 0 0 0 (Inr w)) s" "app s = demo_app True domain_index_new" "replies s = []"
    "jobs s 0 = Some (Client demo_query demo_parsed ([46], 1, 1, 0))" using demo_runs(2) [of True 0 0 0 "Inr w"] by blast
  have new: "enabled (app_cache (app s))" "length (pool (state (app_cache (app s)))) = 4096"
    unfolding s(3) by (simp_all add: demo_app_def demo_services_def response_cache_new_def first_fit_def Let_def)
  have "env_ok demo_services ([Arrive 0 0 demo_query, Begin 0] @ [Fetched 0 demo_query 0 0 0 (Inr w), Arrive 0 0 demo_query])"
    using up by (simp add: env_ok_def)
  from fetched_answer_serves_next_query [OF demo_set_up [OF empty_index(1)] this s(1) [unfolded demo_start_def] s(2,5), of 60 demo_parsed "[46]"]
  have "\<exists>s1 s2. resolver_step demo_services (Fetched 0 demo_query 0 0 0 (Inr w)) s = Some s1 \<and>
      resolver_step demo_services (Arrive 0 0 demo_query) s1 = Some s2 \<and>
      replies s2 = (demo_query, set_id (answer_at 0 0 60 w) (pq_id demo_parsed), Fresh) # replies s"
    using len new demo_parse demo_fields s(3) first_fit_always_fits [of 35 4096]
    by (simp add: cacheable_def response_ttl_def demo_services_def demo_app_def)
  then show ?thesis using s(1,4) demo_fields(1) by (metis (no_types))
qed

end
