(* ===== verification/Dot_Pool.thy ===== *)
theory Dot_Pool
  imports Dot_Connection Cache
begin

text \<open>
  The pool of connections to one DNS-over-TLS upstream (\<open>DotPool\<close> of \<open>dns/upstream.rs\<close>) and its
  keepalive. A task that needs a connection runs \<open>connection\<close>: it takes the first connection with a
  free permit, waits for a permit when the pool is full, and otherwise dials under the lock \<open>dialing\<close>.
  The list of connections is locked only between suspensions, so each stretch between two
  suspensions is a step; a list of events is one interleaving. Dialing itself, the end of a
  connection and the choice of the task that goes on are events.
\<close>

subsection \<open>State\<close>

abbreviation (input) MAX_DOT_CONNECTIONS :: nat where "MAX_DOT_CONNECTIONS \<equiv> 2"

text \<open>
  Where a task is in \<open>connection\<close>: at the head of the loop, waiting for a permit of one of the
  connections, waiting for the lock, dialing with the lock held, or done.
\<close>

datatype caller = Looking | Queued "nat list" | Wants_Dial | Dialing | Holds nat | Failed

text \<open>
  The connections ever started are in \<open>started\<close>, by number; \<open>pooled\<close> is the list in the pool, \<open>probing\<close>
  the connections with a keepalive probe under way.
\<close>

record pool =
  started :: "dot_connection list"
  pooled :: "nat list"
  dialer :: "nat option"
  callers :: "nat \<Rightarrow> caller option"
  probing :: "nat list"

definition pool_new :: pool where
  "pool_new = \<lparr>started = [], pooled = [], dialer = None, callers = Map.empty, probing = []\<rparr>"

subsection \<open>Operations\<close>

definition retain_alive :: "pool \<Rightarrow> pool" where
  "retain_alive p = p\<lparr>pooled := filter (\<lambda>c. \<not> dead (started p ! c)) (pooled p)\<rparr>"

definition set_caller :: "nat \<Rightarrow> caller option \<Rightarrow> pool \<Rightarrow> pool" where
  "set_caller t x p = p\<lparr>callers := (callers p)(t := x)\<rparr>"

definition set_conn :: "nat \<Rightarrow> dot_connection \<Rightarrow> pool \<Rightarrow> pool" where
  "set_conn c x p = p\<lparr>started := (started p)[c := x]\<rparr>"

text \<open>The first pooled connection with a free permit, which is taken.\<close>

fun reserve_first :: "dot_connection list \<Rightarrow> nat list \<Rightarrow> (nat \<times> dot_connection) option" where
  "reserve_first st [] = None" |
  "reserve_first st (c # cs) =
     (case try_reserve (st ! c) of Some x \<Rightarrow> Some (c, x) | None \<Rightarrow> reserve_first st cs)"

definition take_first :: "nat \<Rightarrow> pool \<Rightarrow> pool option" where
  "take_first t p =
     map_option (\<lambda>(c, x). set_caller t (Some (Holds c)) (set_conn c x p)) (reserve_first (started p) (pooled p))"

definition look :: "nat \<Rightarrow> pool \<Rightarrow> pool" where
  "look t p =
     (let p = retain_alive p
      in case take_first t p of
           Some p \<Rightarrow> p
         | None \<Rightarrow>
             if MAX_DOT_CONNECTIONS \<le> length (pooled p) then set_caller t (Some (Queued (pooled p))) p
             else set_caller t (Some Wants_Dial) p)"

definition granted :: "nat \<Rightarrow> nat \<Rightarrow> pool \<Rightarrow> pool option" where
  "granted t c p =
     map_option (\<lambda>x. if \<not> dead x then set_caller t (Some (Holds c)) (set_conn c x p) else set_caller t (Some Looking) p)
       (try_reserve (started p ! c))"

definition lock_dialing :: "nat \<Rightarrow> pool \<Rightarrow> pool" where
  "lock_dialing t p =
     (let p = retain_alive p
      in case take_first t p of
           Some p \<Rightarrow> p
         | None \<Rightarrow>
             if length (pooled p) < MAX_DOT_CONNECTIONS then (set_caller t (Some Dialing) p)\<lparr>dialer := Some t\<rparr>
             else set_caller t (Some Looking) p)"

text \<open>
  The lock on the list is free whenever a task is suspended, so taking it again after dialing does not
  suspend the task and the new connection enters the list in the step in which it is up.
\<close>

definition dialed :: "nat \<Rightarrow> u64 \<Rightarrow> pool \<Rightarrow> pool" where
  "dialed t now p =
     (let p = p\<lparr>dialer := None\<rparr>
      in case try_reserve (dot_connection_start now) of
           None \<Rightarrow> set_caller t (Some Failed) p
         | Some x \<Rightarrow>
             set_caller t (Some (Holds (length (started p))))
               (p\<lparr>started := started p @ [x], pooled := pooled p @ [length (started p)]\<rparr>))"

subsection \<open>Keepalive\<close>

text \<open>
  One round of \<open>keepalive\<close>: the connections it probes, each with a permit of its own; a probe counts as
  a use of its connection. Without a
  connection it sends a query through the pool instead, as any other task.
\<close>

abbreviation (input) DOT_KEEPALIVE_INTERVAL_MS :: nat where "DOT_KEEPALIVE_INTERVAL_MS \<equiv> 20000"
abbreviation (input) DOT_KEEPALIVE_SCAN_INTERVAL :: nat where "DOT_KEEPALIVE_SCAN_INTERVAL \<equiv> 5 * 10 ^ 9"

fun probe_targets :: "u64 \<Rightarrow> nat list \<Rightarrow> pool \<Rightarrow> nat list \<times> pool" where
  "probe_targets now [] p = ([], p)" |
  "probe_targets now (c # cs) p =
     (case (if was_idle_for now DOT_KEEPALIVE_INTERVAL_MS (started p ! c) then try_reserve (started p ! c) else None) of
        None \<Rightarrow> probe_targets now cs p
      | Some x \<Rightarrow>
          (let (ts, p) = probe_targets now cs (set_conn c (x\<lparr>conn_last_used := now\<rparr>) p) in (c # ts, p)))"

definition keepalive_start :: "u64 \<Rightarrow> pool \<Rightarrow> pool" where
  "keepalive_start now p =
     (let p = retain_alive p; (ts, p) = probe_targets now (pooled p) p in p\<lparr>probing := ts\<rparr>)"

text \<open>
  The end of a probe: its permit is returned, with the pending query, by the reply, by the drain or, when
  the probe is dropped at its timeout, by its guard; a connection that did not answer is failed.
\<close>

definition probe_end :: "nat \<Rightarrow> bool \<Rightarrow> pool \<Rightarrow> pool" where
  "probe_end c ok p =
     (let x = release_permits 1 (started p ! c)
      in (set_conn c (if ok then x else snd (mark_dead x)) p)\<lparr>probing := remove1 c (probing p)\<rparr>)"

subsection \<open>Steps\<close>

datatype pool_event =
    Call nat             \<comment> \<open>a task asks for a connection\<close>
  | Look nat             \<comment> \<open>the head of the loop\<close>
  | Grant nat nat        \<comment> \<open>a waiting task gets a permit of a connection\<close>
  | Lock nat             \<comment> \<open>gets the lock\<close>
  | Dialed nat u64       \<comment> \<open>the new connection is up\<close>
  | Dial_Fails nat
  | Use nat u64          \<comment> \<open>a task with a permit sends its query\<close>
  | Cancel nat           \<comment> \<open>the task is dropped\<close>
  | Give_Up nat          \<comment> \<open>the permit is returned\<close>
  | Dies nat             \<comment> \<open>a connection fails\<close>
  | Probe u64            \<comment> \<open>a keepalive round starts\<close>
  | Probed nat bool      \<comment> \<open>a probe ends\<close>

fun pool_step :: "pool_event \<Rightarrow> pool \<Rightarrow> pool option" where
  "pool_step (Call t) p = (if callers p t = None then Some (set_caller t (Some Looking) p) else None)" |
  "pool_step (Look t) p = (if callers p t = Some Looking then Some (look t p) else None)" |
  "pool_step (Grant t c) p =
     (case callers p t of Some (Queued cs) \<Rightarrow> if c \<in> set cs then granted t c p else None | _ \<Rightarrow> None)" |
  "pool_step (Lock t) p =
     (if callers p t = Some Wants_Dial \<and> dialer p = None then Some (lock_dialing t p) else None)" |
  "pool_step (Dialed t now) p = (if callers p t = Some Dialing then Some (dialed t now p) else None)" |
  "pool_step (Dial_Fails t) p =
     (if callers p t = Some Dialing then Some ((set_caller t (Some Failed) p)\<lparr>dialer := None\<rparr>) else None)" |
  "pool_step (Use t now) p =
     (case callers p t of
        Some (Holds c) \<Rightarrow>
          Some (if dead (started p ! c) then p else set_conn c ((started p ! c)\<lparr>conn_last_used := now\<rparr>) p)
      | _ \<Rightarrow> None)" |
  "pool_step (Cancel t) p =
     (case callers p t of
        None \<Rightarrow> None | Some (Holds c) \<Rightarrow> None | Some Failed \<Rightarrow> None
      | Some Dialing \<Rightarrow> Some ((set_caller t None p)\<lparr>dialer := None\<rparr>)
      | _ \<Rightarrow> Some (set_caller t None p))" |
  "pool_step (Give_Up t) p =
     (case callers p t of
        Some (Holds c) \<Rightarrow> Some (set_caller t None (set_conn c (release_permits 1 (started p ! c)) p))
      | _ \<Rightarrow> None)" |
  "pool_step (Dies c) p =
     (if c < length (started p) then Some (set_conn c (snd (mark_dead (started p ! c))) p) else None)" |
  "pool_step (Probe now) p = (if probing p = [] then Some (keepalive_start now p) else None)" |
  "pool_step (Probed c ok) p = (if c \<in> set (probing p) then Some (probe_end c ok p) else None)"

fun pool_run :: "pool_event list \<Rightarrow> pool \<Rightarrow> pool option" where
  "pool_run [] p = Some p" |
  "pool_run (e # es) p = Option.bind (pool_step e p) (pool_run es)"

subsection \<open>The keepalive loop\<close>

text \<open>
  The loop: a tick before \<open>retry_at\<close> is skipped while no connection is alive; after a round the delay
  is the scan interval or, after a failure, doubled up to a minute with up to a second of jitter.
\<close>

record backoff =
  delay :: nat
  retry_at :: instant

definition backoff_new :: "instant \<Rightarrow> backoff" where
  "backoff_new now = \<lparr>delay = DOT_KEEPALIVE_SCAN_INTERVAL, retry_at = now\<rparr>"

definition skips :: "instant \<Rightarrow> pool \<Rightarrow> backoff \<Rightarrow> bool" where
  "skips now p b \<longleftrightarrow> now < retry_at b \<and> \<not> list_ex (\<lambda>c. \<not> dead (started p ! c)) (pooled p)"

definition next_backoff :: "bool \<Rightarrow> u16 \<Rightarrow> instant \<Rightarrow> backoff \<Rightarrow> backoff" where
  "next_backoff healthy r now b =
     (let d = (if healthy then DOT_KEEPALIVE_SCAN_INTERVAL else min (delay b * 2) (secs 60) + millis (unat (r mod 1000)))
      in \<lparr>delay = d, retry_at = now + d\<rparr>)"

end
