(* ===== verification/Dot_Pool_Correct.thy ===== *)
theory Dot_Pool_Correct
  imports Dot_Pool
begin

text \<open>
  The pool of DoT connections never grows beyond its limit although dialing suspends, and every
  permit of a connection is free, held by a task or held by a keepalive probe.
\<close>

subsection \<open>The invariant\<close>

definition holders :: "nat \<Rightarrow> pool \<Rightarrow> nat set" where
  "holders c p = {t. callers p t = Some (Holds c)}"

definition caller_ok :: "nat \<Rightarrow> caller option \<Rightarrow> bool" where
  "caller_ok n x \<longleftrightarrow> (case x of Some (Holds c) \<Rightarrow> c < n | Some (Queued cs) \<Rightarrow> set cs \<subseteq> {..<n} | _ \<Rightarrow> True)"

definition permits_ok :: "pool \<Rightarrow> bool" where
  "permits_ok p \<longleftrightarrow> finite {t. callers p t \<noteq> None} \<and> (\<forall>t. caller_ok (length (started p)) (callers p t)) \<and>
     set (probing p) \<subseteq> {..<length (started p)} \<and>
     (\<forall>c<length (started p). capacity (started p ! c) + card (holders c p) + count_list (probing p) c = MAX_DOT_IN_FLIGHT)"

definition shape_ok :: "pool \<Rightarrow> bool" where
  "shape_ok p \<longleftrightarrow> distinct (pooled p) \<and> set (pooled p) \<subseteq> {..<length (started p)} \<and>
     length (pooled p) \<le> MAX_DOT_CONNECTIONS \<and> (\<forall>t. callers p t = Some Dialing \<longleftrightarrow> dialer p = Some t) \<and>
     (dialer p \<noteq> None \<longrightarrow> length (pooled p) < MAX_DOT_CONNECTIONS)"

lemma shape_retain: "shape_ok p \<Longrightarrow> shape_ok (retain_alive p)"
  by (auto simp: shape_ok_def retain_alive_def intro: le_trans [OF length_filter_le] le_less_trans [OF length_filter_le])

lemma permits_retain: "permits_ok p \<Longrightarrow> permits_ok (retain_alive p)"
  by (simp add: permits_ok_def retain_alive_def holders_def)

lemma shape_caller:
  "shape_ok p \<Longrightarrow> callers p t \<noteq> Some Dialing \<Longrightarrow> x \<noteq> Some Dialing \<Longrightarrow> shape_ok (set_caller t x p)"
  by (auto simp: shape_ok_def set_caller_def)

lemma shape_conn: "shape_ok p \<Longrightarrow> shape_ok (set_conn c x p)"
  by (simp add: shape_ok_def set_conn_def)

lemma holders_caller:
  "callers p t \<noteq> Some (Holds c) \<Longrightarrow> x \<noteq> Some (Holds c) \<Longrightarrow> holders c (set_caller t x p) = holders c p"
  "callers p t \<noteq> Some (Holds c) \<Longrightarrow> holders c (set_caller t (Some (Holds c)) p) = insert t (holders c p)"
  "x \<noteq> Some (Holds c) \<Longrightarrow> holders c (set_caller t x p) = holders c p - {t}"
  by (auto simp: holders_def set_caller_def)

lemma finite_callers: "finite {t. callers p t \<noteq> None} \<Longrightarrow> finite {t. callers (set_caller t' x p) t \<noteq> None}"
  by (rule finite_subset [of _ "insert t' {t. callers p t \<noteq> None}"]) (auto simp: set_caller_def)

lemma finite_holders: "permits_ok p \<Longrightarrow> finite (holders c p)"
  by (rule finite_subset [of _ "{t. callers p t \<noteq> None}"]) (auto simp: permits_ok_def holders_def)

lemma caller_okD: "permits_ok p \<Longrightarrow> caller_ok (length (started p)) (callers p t)"
  unfolding permits_ok_def by blast

lemma holds_less: "permits_ok p \<Longrightarrow> callers p t = Some (Holds c) \<Longrightarrow> c < length (started p)"
  using caller_okD [of p t] by (simp add: caller_ok_def)

lemma permits_caller:
  assumes "permits_ok p" "\<And>c. callers p t \<noteq> Some (Holds c)" "\<And>c. x \<noteq> Some (Holds c)" "caller_ok (length (started p)) x"
  shows "permits_ok (set_caller t x p)"
  using assms finite_callers [of p t x] holders_caller(1) [of p t _ x]
  by (auto simp: permits_ok_def) (auto simp: set_caller_def)

lemma pool_permits_take:
  assumes p: "permits_ok p" and t: "\<And>c. callers p t \<noteq> Some (Holds c)" and c: "c < length (started p)"
    and x: "try_reserve (started p ! c) = Some x"
  shows "permits_ok (set_caller t (Some (Holds c)) (set_conn c x p))"
proof -
  let ?p = "set_caller t (Some (Holds c)) (set_conn c x p)"
  have cap: "0 < capacity (started p ! c)" "capacity x = capacity (started p ! c) - 1"
    using x by (auto simp: try_reserve_def split: if_splits)
  have h: "holders c' ?p = (if c' = c then insert t (holders c p) else holders c' p)" for c'
    using t by (auto simp: holders_def set_caller_def set_conn_def)
  have f: "started ?p = (started p)[c := x]" "probing ?p = probing p" by (simp_all add: set_caller_def set_conn_def)
  have "t \<notin> holders c p" using t by (simp add: holders_def)
  then have "capacity (started ?p ! c') + card (holders c' ?p) + count_list (probing ?p) c' = MAX_DOT_IN_FLIGHT"
    if "c' < length (started p)" for c'
    using p that c cap finite_holders [OF p, of c]
    by (auto simp: permits_ok_def h f nth_list_update)
  moreover have "caller_ok (length (started ?p)) (callers ?p t')" for t'
    using p c by (simp add: permits_ok_def set_caller_def set_conn_def caller_ok_def)
  moreover have "finite {t. callers ?p t \<noteq> None}"
    using p finite_callers [of "set_conn c x p" t "Some (Holds c)"] by (simp add: permits_ok_def set_conn_def)
  ultimately show ?thesis using p by (auto simp: permits_ok_def set_caller_def set_conn_def)
qed

lemma reserve_first_sound:
  "reserve_first st cs = Some (c, x) \<Longrightarrow> c \<in> set cs \<and> try_reserve (st ! c) = Some x"
  by (induction cs) (auto split: option.splits)

lemma take_first_ok:
  assumes p: "permits_ok p" "shape_ok p" and t: "\<And>c. callers p t \<noteq> Some (Holds c)" "callers p t \<noteq> Some Dialing"
    and tk: "take_first t p = Some p'"
  shows "permits_ok p' \<and> shape_ok p'"
proof -
  from tk obtain c x where c: "reserve_first (started p) (pooled p) = Some (c, x)"
    and p': "p' = set_caller t (Some (Holds c)) (set_conn c x p)" by (auto simp: take_first_def)
  from reserve_first_sound [OF c] have "c < length (started p)" "try_reserve (started p ! c) = Some x"
    using p(2) by (auto simp: shape_ok_def)
  from pool_permits_take [OF p(1) t(1) this] shape_caller [OF shape_conn [OF p(2), of c x], of t "Some (Holds c)"] t(2)
  show ?thesis unfolding p' by (simp add: set_conn_def)
qed

subsection \<open>Every step keeps it\<close>

lemma look_ok:
  assumes p: "permits_ok p" "shape_ok p" and t: "callers p t = Some Looking"
  shows "permits_ok (look t p) \<and> shape_ok (look t p)"
proof -
  let ?p = "retain_alive p"
  have r: "permits_ok ?p" "shape_ok ?p" using permits_retain [OF p(1)] shape_retain [OF p(2)] .
  have t': "callers ?p t = Some Looking" using t by (simp add: retain_alive_def)
  have w: "permits_ok (set_caller t (Some x) ?p) \<and> shape_ok (set_caller t (Some x) ?p)"
    if "x = Wants_Dial \<or> x = Queued (pooled ?p)" for x
    using permits_caller [OF r(1), of t "Some x"] shape_caller [OF r(2), of t "Some x"] that t' r(2)
    by (auto simp: caller_ok_def shape_ok_def)
  show ?thesis
    using take_first_ok [OF r, of t] t' w unfolding look_def Let_def by (auto split: option.splits)
qed

lemma lock_ok:
  assumes p: "permits_ok p" "shape_ok p" and t: "callers p t = Some Wants_Dial" "dialer p = None"
  shows "permits_ok (lock_dialing t p) \<and> shape_ok (lock_dialing t p)"
proof -
  let ?p = "retain_alive p"
  have r: "permits_ok ?p" "shape_ok ?p" using permits_retain [OF p(1)] shape_retain [OF p(2)] .
  have t': "callers ?p t = Some Wants_Dial" "dialer ?p = None" using t by (simp_all add: retain_alive_def)
  have l: "permits_ok (set_caller t (Some x) ?p)" if "x = Looking \<or> x = Dialing" for x
    using permits_caller [OF r(1), of t "Some x"] that t' by (auto simp: caller_ok_def)
  have "shape_ok (set_caller t (Some Looking) ?p)" using shape_caller [OF r(2)] t' by simp
  moreover have "shape_ok ((set_caller t (Some Dialing) ?p)\<lparr>dialer := Some t\<rparr>)" if "length (pooled ?p) < MAX_DOT_CONNECTIONS"
    using r(2) t' that by (auto simp: shape_ok_def set_caller_def)
  moreover have "permits_ok ((set_caller t (Some Dialing) ?p)\<lparr>dialer := Some t\<rparr>)"
    using l [of Dialing] by (simp add: permits_ok_def holders_def)
  ultimately show ?thesis
    using take_first_ok [OF r, of t] t' l [of Looking] unfolding lock_dialing_def Let_def by (auto split: option.splits)
qed

lemma granted_ok:
  assumes p: "permits_ok p" "shape_ok p" and t: "callers p t = Some (Queued cs)" "c \<in> set cs" and g: "granted t c p = Some p'"
  shows "permits_ok p' \<and> shape_ok p'"
proof -
  have c: "c < length (started p)" using caller_okD [OF p(1), of t] t by (auto simp: caller_ok_def)
  from g obtain x where x: "try_reserve (started p ! c) = Some x"
    and p': "p' = (if \<not> dead x then set_caller t (Some (Holds c)) (set_conn c x p) else set_caller t (Some Looking) p)"
    by (auto simp: granted_def)
  have "permits_ok (set_caller t (Some Looking) p)" using permits_caller [OF p(1), of t "Some Looking"] t by (simp add: caller_ok_def)
  moreover have "permits_ok (set_caller t (Some (Holds c)) (set_conn c x p))"
    by (rule pool_permits_take [OF p(1) _ c x]) (use t in simp)
  moreover have "shape_ok (set_caller t (Some Looking) p)" "shape_ok (set_caller t (Some (Holds c)) (set_conn c x p))"
    using shape_caller [OF p(2), of t "Some Looking"] shape_caller [OF shape_conn [OF p(2), of c x], of t "Some (Holds c)"] t
    by (simp_all add: set_conn_def)
  ultimately show ?thesis by (simp add: p')
qed

lemma dialed_ok:
  assumes p: "permits_ok p" "shape_ok p" and t: "callers p t = Some Dialing"
  shows "permits_ok (dialed t now p) \<and> shape_ok (dialed t now p)"
proof -
  obtain x where x: "try_reserve (dot_connection_start now) = Some x" "capacity x = 255"
    by (simp add: try_reserve_def dot_connection_start_def)
  then have d: "dialed t now p = set_caller t (Some (Holds (length (started p))))
      (p\<lparr>dialer := None, started := started p @ [x], pooled := pooled p @ [length (started p)]\<rparr>)" (is "_ = ?p")
    by (simp add: dialed_def Let_def)
  have dl: "dialer p = Some t" "length (pooled p) < MAX_DOT_CONNECTIONS"
    using p(2) t by (auto simp: shape_ok_def)
  have shape: "shape_ok ?p" using p(2) dl by (auto simp: shape_ok_def set_caller_def)
  have none: "holders (length (started p)) p = {}"
    using holds_less [OF p(1)] by (auto simp: holders_def)
  have h: "holders c ?p = (if c = length (started p) then {t} else holders c p)" for c
    using none t by (auto simp: holders_def set_caller_def)
  have "capacity (started ?p ! c) + card (holders c ?p) + count_list (probing ?p) c = MAX_DOT_IN_FLIGHT"
    if "c < length (started ?p)" for c
  proof (cases "c = length (started p)")
    case True
    then have "count_list (probing p) c = 0" using p(1) by (fastforce simp: permits_ok_def count_list_0_iff)
    moreover have "started ?p ! c = x" "probing ?p = probing p" by (simp_all add: set_caller_def True)
    ultimately show ?thesis using True x(2) by (simp add: h)
  next
    case False
    then have "c < length (started p)" using that by (simp add: set_caller_def)
    moreover from this have "started ?p ! c = started p ! c" "probing ?p = probing p" by (simp_all add: set_caller_def nth_append)
    ultimately show ?thesis using p(1) False by (simp add: h permits_ok_def)
  qed
  moreover have "finite {t. callers ?p t \<noteq> None}" using p(1) finite_callers [of "p\<lparr>dialer := None, started := started p @ [x], pooled := pooled p @ [length (started p)]\<rparr>" t]
    by (simp add: permits_ok_def)
  moreover have "caller_ok (length (started ?p)) (callers ?p t')" for t'
  proof -
    show ?thesis using caller_okD [OF p(1), of t'] by (auto simp: set_caller_def caller_ok_def split: option.splits caller.splits)
  qed
  moreover have "set (probing ?p) \<subseteq> {..<length (started ?p)}" using p(1) by (auto simp: permits_ok_def set_caller_def)
  ultimately show ?thesis using shape unfolding d by (simp add: permits_ok_def)
qed

lemma give_up_ok:
  assumes p: "permits_ok p" "shape_ok p" and t: "callers p t = Some (Holds c)"
  shows "permits_ok (set_caller t None (set_conn c (release_permits 1 (started p ! c)) p)) \<and>
    shape_ok (set_caller t None (set_conn c (release_permits 1 (started p ! c)) p))"
proof -
  obtain x where x: "release_permits 1 (started p ! c) = x" "capacity x = capacity (started p ! c) + 1"
    by (simp add: release_permits_def)
  let ?p = "set_caller t None (set_conn c x p)"
  note c = holds_less [OF p(1) t]
  have f: "started ?p = (started p)[c := x]" "probing ?p = probing p"
    by (simp_all add: set_caller_def set_conn_def)
  have h: "holders c' ?p = (if c' = c then holders c p - {t} else holders c' p)" for c'
    using t by (auto simp: holders_def set_caller_def set_conn_def)
  have "card (holders c p) = card (holders c p - {t}) + 1"
    using card.remove [OF finite_holders [OF p(1)], of t c] t by (simp add: holders_def)
  then have "capacity (started ?p ! c') + card (holders c' ?p) + count_list (probing ?p) c' = MAX_DOT_IN_FLIGHT"
    if "c' < length (started p)" for c'
    using p(1) that c by (auto simp: permits_ok_def h f x(2) nth_list_update)
  moreover have "caller_ok (length (started ?p)) (callers ?p t')" for t'
    using caller_okD [OF p(1), of t'] by (simp add: set_caller_def set_conn_def caller_ok_def)
  moreover have "finite {t. callers ?p t \<noteq> None}"
    using p(1) finite_callers [of "set_conn c x p" t None] by (simp add: permits_ok_def set_conn_def)
  moreover have "shape_ok ?p"
    by (rule shape_caller [OF shape_conn [OF p(2)]]) (simp_all add: set_conn_def t)
  ultimately show ?thesis using p(1) f unfolding x(1) by (simp add: permits_ok_def)
qed

lemma probe_targets_ok:
  assumes "probe_targets now cs p = (ts, p')" "set cs \<subseteq> {..<length (started p)}"
  shows "length (started p') = length (started p) \<and> callers p' = callers p \<and> pooled p' = pooled p \<and> dialer p' = dialer p \<and>
    set ts \<subseteq> set cs \<and>
    (\<forall>c<length (started p). capacity (started p ! c) = capacity (started p' ! c) + count_list ts c)"
  using assms
proof (induction now cs p arbitrary: ts rule: probe_targets.induct)
  case (2 now c cs p)
  let ?x = "if was_idle_for now DOT_KEEPALIVE_INTERVAL_MS (started p ! c) then try_reserve (started p ! c) else None"
  show ?case
  proof (cases ?x)
    case None
    then show ?thesis using 2(1) [OF None, of ts] "2.prems" by auto
  next
    case (Some x)
    then obtain ts' where ts': "probe_targets now cs (set_conn c (x\<lparr>conn_last_used := now\<rparr>) p) = (ts', p')" "ts = c # ts'"
      using "2.prems"(1) by (auto split: prod.splits)
    have x: "capacity (started p ! c) = capacity x + 1" using Some by (auto simp: try_reserve_def split: if_splits)
    have "length (started p') = length (started p) \<and> callers p' = callers p \<and> pooled p' = pooled p \<and> dialer p' = dialer p \<and>
        set ts' \<subseteq> set cs \<and>
        (\<forall>c'<length (started p). capacity ((started p)[c := x\<lparr>conn_last_used := now\<rparr>] ! c') = capacity (started p' ! c') + count_list ts' c')"
      using 2(2) [OF Some ts'(1)] "2.prems"(2) by (simp add: set_conn_def)
    then show ?thesis using x "2.prems"(2) unfolding ts'(2) by (auto simp: nth_list_update split: if_splits)
  qed
qed simp

lemma keepalive_start_ok:
  assumes p: "permits_ok p" "shape_ok p" and pr: "probing p = []"
  shows "permits_ok (keepalive_start now p) \<and> shape_ok (keepalive_start now p)"
proof -
  let ?p = "retain_alive p"
  have r: "permits_ok ?p" "shape_ok ?p" using permits_retain [OF p(1)] shape_retain [OF p(2)] .
  obtain ts p' where ts: "probe_targets now (pooled ?p) ?p = (ts, p')" by fastforce
  have k: "keepalive_start now p = p'\<lparr>probing := ts\<rparr>" using ts by (simp add: keepalive_start_def Let_def)
  have sub: "set (pooled ?p) \<subseteq> {..<length (started ?p)}" using r(2) by (simp add: shape_ok_def)
  note f = probe_targets_ok [OF ts this]
  have pr': "probing ?p = []" using pr by (simp add: retain_alive_def)
  have h: "holders c (p'\<lparr>probing := ts\<rparr>) = holders c ?p" for c using f by (simp add: holders_def)
  have "permits_ok (p'\<lparr>probing := ts\<rparr>)"
    using r(1) f sub pr' unfolding permits_ok_def h by (auto simp: add_ac)
  moreover have "shape_ok (p'\<lparr>probing := ts\<rparr>)" using r(2) f by (simp add: shape_ok_def)
  ultimately show ?thesis by (simp add: k)
qed

lemma count_remove1: "count_list (remove1 x xs) y = (if x = y \<and> x \<in> set xs then count_list xs y - 1 else count_list xs y)"
proof (induction xs)
  case (Cons a xs)
  then show ?case by (cases "y \<in> set xs") (auto simp: count_list_0_iff dest: count_notin)
qed simp

lemma probe_end_ok:
  assumes p: "permits_ok p" "shape_ok p" and c: "c \<in> set (probing p)"
  shows "permits_ok (probe_end c ok p) \<and> shape_ok (probe_end c ok p)"
proof -
  define x where "x = (if ok then release_permits 1 (started p ! c) else snd (mark_dead (release_permits 1 (started p ! c))))"
  have e: "probe_end c ok p = (set_conn c x p)\<lparr>probing := remove1 c (probing p)\<rparr>" by (simp add: probe_end_def x_def Let_def)
  have cap: "capacity x = capacity (started p ! c) + 1" by (simp add: x_def release_permits_def mark_dead_def)
  have lt: "c < length (started p)" using p(1) c by (auto simp: permits_ok_def)
  have "0 < count_list (probing p) c" using c by (metis count_list_0_iff not_gr_zero)
  then have "capacity ((started p)[c := x] ! c') + card (holders c' p) + count_list (remove1 c (probing p)) c' = MAX_DOT_IN_FLIGHT"
    if "c' < length (started p)" for c'
    using p(1) that c cap lt by (auto simp: permits_ok_def count_remove1 nth_list_update)
  moreover have "set (remove1 c (probing p)) \<subseteq> {..<length (started p)}"
    using p(1) set_remove1_subset [of c "probing p"] unfolding permits_ok_def by blast
  ultimately have "permits_ok (probe_end c ok p)" using p(1) unfolding e by (simp add: permits_ok_def set_conn_def holders_def)
  moreover have "shape_ok (probe_end c ok p)" using p(2) unfolding e by (simp add: shape_ok_def set_conn_def)
  ultimately show ?thesis ..
qed

lemma permits_set_dead: "permits_ok p \<Longrightarrow> c < length (started p) \<Longrightarrow> permits_ok (set_conn c (snd (mark_dead (started p ! c))) p)"
  by (auto simp: permits_ok_def set_conn_def holders_def mark_dead_def nth_list_update)

lemma permits_used:
  "permits_ok p \<Longrightarrow> c < length (started p) \<Longrightarrow> permits_ok (set_conn c ((started p ! c)\<lparr>conn_last_used := now\<rparr>) p)"
  by (auto simp: permits_ok_def set_conn_def holders_def nth_list_update)

lemma pool_step_ok:
  assumes p: "permits_ok p" "shape_ok p" and st: "pool_step e p = Some p'"
  shows "permits_ok p' \<and> shape_ok p'"
proof (cases e)
  case (Call t)
  then show ?thesis using st permits_caller [OF p(1), of t "Some Looking"] shape_caller [OF p(2), of t "Some Looking"]
    by (auto simp: caller_ok_def split: if_splits)
next
  case (Look t)
  then show ?thesis using st look_ok [OF p, of t] by (auto split: if_splits)
next
  case (Grant t c)
  then show ?thesis using st granted_ok [OF p] by (auto split: option.splits caller.splits if_splits)
next
  case (Lock t)
  then show ?thesis using st lock_ok [OF p, of t] by (auto split: if_splits)
next
  case (Dialed t now)
  then show ?thesis using st dialed_ok [OF p, of t] by (auto split: if_splits)
next
  case (Dial_Fails t)
  then have t: "callers p t = Some Dialing" "p' = (set_caller t (Some Failed) p)\<lparr>dialer := None\<rparr>"
    using st by (auto split: if_splits)
  have "permits_ok (set_caller t (Some Failed) p)" using permits_caller [OF p(1), of t "Some Failed"] t by (simp add: caller_ok_def)
  then show ?thesis using t p(2) by (auto simp: permits_ok_def holders_def shape_ok_def set_caller_def)
next
  case (Use t now)
  then obtain c where c: "callers p t = Some (Holds c)"
    "p' = (if dead (started p ! c) then p else set_conn c ((started p ! c)\<lparr>conn_last_used := now\<rparr>) p)"
    using st by (auto split: option.splits caller.splits)
  have "c < length (started p)" by (rule holds_less [OF p(1) c(1)])
  then show ?thesis using c(2) p permits_used shape_conn by auto
next
  case (Cancel t)
  then have t: "\<And>c. callers p t \<noteq> Some (Holds c)"
    "p' = (if callers p t = Some Dialing then (set_caller t None p)\<lparr>dialer := None\<rparr> else set_caller t None p)"
    using st by (auto split: option.splits caller.splits)
  have "permits_ok (set_caller t None p)" using permits_caller [OF p(1) t(1)] by (simp add: caller_ok_def)
  then show ?thesis using t p(2) shape_caller [OF p(2), of t None]
    by (auto simp: permits_ok_def holders_def) (auto simp: shape_ok_def set_caller_def)
next
  case (Give_Up t)
  then show ?thesis using st give_up_ok [OF p] by (auto split: option.splits caller.splits)
next
  case (Dies c)
  then show ?thesis using st permits_set_dead [OF p(1)] shape_conn [OF p(2)] by (auto split: if_splits)
next
  case (Probe now)
  then show ?thesis using st keepalive_start_ok [OF p] by (auto split: if_splits)
next
  case (Probed c ok)
  then show ?thesis using st probe_end_ok [OF p] by (auto split: if_splits)
qed

lemma pool_run_ok:
  "permits_ok p \<Longrightarrow> shape_ok p \<Longrightarrow> pool_run es p = Some p' \<Longrightarrow> permits_ok p' \<and> shape_ok p'"
  by (induction es arbitrary: p) (auto simp: bind_eq_Some_conv dest: pool_step_ok)

lemma pool_new_ok: "permits_ok pool_new" "shape_ok pool_new"
  by (simp_all add: permits_ok_def shape_ok_def pool_new_def caller_ok_def)

subsection \<open>Properties\<close>

text \<open>
  C23. A pool never has more than two connections, although tasks dial concurrently with others that
  look for one: at most one task dials, and only while there is room for its connection. Every
  connection has 256 permits, each of them free, held by a task or held by a keepalive probe.
\<close>

theorem dot_pool_bounded:
  assumes "pool_run es pool_new = Some p"
  shows "length (pooled p) \<le> MAX_DOT_CONNECTIONS \<and> distinct (pooled p) \<and>
    (\<forall>t. callers p t = Some Dialing \<longrightarrow> length (pooled p) < MAX_DOT_CONNECTIONS \<and> (\<forall>t'. callers p t' = Some Dialing \<longrightarrow> t' = t)) \<and>
    (\<forall>c<length (started p). capacity (started p ! c) + card {t. callers p t = Some (Holds c)} + count_list (probing p) c =
       MAX_DOT_IN_FLIGHT)"
  using pool_run_ok [OF pool_new_ok assms] by (auto simp: permits_ok_def shape_ok_def holders_def)

theorem dot_pool_bounded_witness:
  "\<exists>p. pool_run [Call 0, Look 0, Call 1, Look 1, Lock 0, Dialed 0 7, Lock 1] pool_new = Some p \<and>
     length (pooled p) = 1 \<and> capacity (started p ! 0) = 254 \<and>
     capacity (started p ! 0) + card {t. callers p t = Some (Holds 0)} + count_list (probing p) 0 = 256"
proof -
  have "\<exists>p. pool_run [Call 0, Look 0, Call 1, Look 1, Lock 0, Dialed 0 7, Lock 1] pool_new = Some p \<and>
      pooled p = [0] \<and> length (started p) = 1 \<and> capacity (started p ! 0) = 254"
    by (simp add: pool_new_def look_def lock_dialing_def dialed_def retain_alive_def take_first_def set_caller_def set_conn_def
        try_reserve_def dot_connection_start_def Let_def)
  then obtain p where p: "pool_run [Call 0, Look 0, Call 1, Look 1, Lock 0, Dialed 0 7, Lock 1] pool_new = Some p"
    "pooled p = [0]" "length (started p) = 1" "capacity (started p ! 0) = 254" by blast
  from dot_pool_bounded [OF p(1)] p show ?thesis by simp
qed

text \<open>
  A delay between \<open>5 * 2 ^ n\<close> seconds, at most a minute, and \<open>6 * 2 ^ n - 1\<close> seconds, less than 61, is
  one after \<open>n\<close> failures; the difference is the jitter, up to a second each time.
\<close>

definition backed_off :: "nat \<Rightarrow> nat \<Rightarrow> bool" where
  "backed_off n d \<longleftrightarrow> min (secs (5 * 2 ^ n)) (secs 60) \<le> d \<and> d + secs 1 \<le> secs (6 * 2 ^ n) \<and> d < secs 61"

lemma backed_off_Suc:
  assumes "backed_off n d" "j < secs 1" shows "backed_off (Suc n) (min (d * 2) (secs 60) + j)"
proof -
  have arith: "min (x * 2) m \<le> min (d * 2) m + j" "min (d * 2) m + j + k \<le> y * 2"
    if "min x m \<le> d" "d + k \<le> y" "j < k" for x m k y d j :: nat
    using that by (auto simp: min_def split: if_splits)
  have "min (secs (5 * 2 ^ n) * 2) (secs 60) \<le> min (d * 2) (secs 60) + j" "min (d * 2) (secs 60) + j + secs 1 \<le> secs (6 * 2 ^ n) * 2"
    using assms arith [of "secs (5 * 2 ^ n)" "secs 60" d "secs 1" "secs (6 * 2 ^ n)" j] by (simp_all add: backed_off_def)
  moreover have "min (d * 2) (secs 60) + j < secs 61" using assms(2) by simp
  ultimately show ?thesis by (simp add: backed_off_def mult.assoc mult.commute mult.left_commute)
qed

lemma failures_back_off:
  assumes "delay b = secs 5"
  defines "b' \<equiv> \<lambda>fails. fold (\<lambda>(h, r, now). next_backoff h r now) (map (Pair False) fails) b"
  shows "backed_off (length fails) (delay (b' fails)) \<and>
    (fails \<noteq> [] \<longrightarrow> retry_at (b' fails) = snd (last fails) + delay (b' fails))"
proof (induction fails rule: rev_induct)
  case Nil
  then show ?case using assms(1) by (simp add: b'_def backed_off_def)
next
  case (snoc x fails)
  obtain r now where x: "x = (r, now)" by (cases x)
  have "unat (r mod 1000) < 1000" by (simp add: unat_mod)
  then have j: "millis (unat (r mod 1000)) < secs 1" by simp
  have step: "b' (fails @ [x]) = next_backoff False r now (b' fails)" by (simp add: b'_def x)
  have "delay (b' (fails @ [x])) = min (delay (b' fails) * 2) (secs 60) + millis (unat (r mod 1000))"
    "retry_at (b' (fails @ [x])) = now + delay (b' (fails @ [x]))" unfolding step by (simp_all add: next_backoff_def Let_def)
  with backed_off_Suc [OF _ j] snoc.IH x show ?case by simp
qed

lemma healthy_delay:
  assumes "rounds = [] \<or> fst (last rounds)"
  shows "delay (fold (\<lambda>(h, r, now). next_backoff h r now) rounds (backoff_new t0)) = secs 5"
proof (cases rounds rule: rev_cases)
  case (snoc xs x)
  then show ?thesis using assms by (cases x) (simp add: next_backoff_def Let_def)
qed (simp add: backoff_new_def)

text \<open>
  C40. The keepalive of an upstream that stays unreachable backs off exponentially. After any number of
  rounds that end with a successful one, or from the start, and \<open>n\<close> failed rounds in a row, every tick
  that finds no living connection is skipped until \<open>5 * 2 ^ n\<close> seconds, at most a minute, after the
  last failure, and none is skipped from \<open>6 * 2 ^ n - 1\<close> seconds, at most 61, on. A tick that finds a
  living connection is never skipped.
\<close>

theorem keepalive_backs_off:
  assumes "rounds = [] \<or> fst (last rounds)" "fails \<noteq> []"
  shows "let b = fold (\<lambda>(h, r, now). next_backoff h r now) (rounds @ map (Pair False) fails) (backoff_new t0);
       n = length fails; since = snd (last fails)
   in (\<forall>t p. (\<forall>c\<in>set (pooled p). dead (started p ! c)) \<and> t < since + min (secs (5 * 2 ^ n)) (secs 60) \<longrightarrow> skips t p b) \<and>
      (\<forall>t p. since + min (secs (6 * 2 ^ n - 1)) (secs 61) \<le> t \<longrightarrow> \<not> skips t p b) \<and>
      (\<forall>t p. (\<exists>c\<in>set (pooled p). \<not> dead (started p ! c)) \<longrightarrow> \<not> skips t p b)"
proof -
  define b where "b = fold (\<lambda>(h, r, now). next_backoff h r now) (rounds @ map (Pair False) fails) (backoff_new t0)"
  have off: "backed_off (length fails) (delay b)" "retry_at b = snd (last fails) + delay b"
    using failures_back_off [OF healthy_delay [OF assms(1)], of fails t0] assms(2) by (simp_all add: b_def)
  have "delay b \<le> min (secs (6 * 2 ^ length fails - 1)) (secs 61)"
    using off(1) by (auto simp: backed_off_def diff_mult_distrib)
  then show ?thesis using off unfolding Let_def b_def [symmetric]
    by (auto simp: skips_def list_ex_iff backed_off_def)
qed

theorem keepalive_backs_off_witness:
  "let p = pool_new\<lparr>started := [snd (mark_dead (dot_connection_start 0))], pooled := [0]\<rparr>;
       b = next_backoff False 9 3 (next_backoff True 7 2 (backoff_new 0))
   in skips (2 + secs 10) p b \<and> \<not> skips (3 + secs 11) p b"
proof -
  define p where "p = pool_new\<lparr>started := [snd (mark_dead (dot_connection_start 0))], pooled := [0]\<rparr>"
  have dead: "\<forall>c\<in>set (pooled p). dead (started p ! c)" by (simp add: p_def mark_dead_def)
  show ?thesis
    using keepalive_backs_off [of "[(True, 7, 2)]" "[(9, 3)]" 0] dead unfolding p_def [symmetric] by (simp add: Let_def)
qed

end
