(* ===== verification/Dot_Server.thy ===== *)
theory Dot_Server
  imports Prelude "HOL-Library.Multiset"
begin

text \<open>
  The DNS-over-TLS listener (\<open>server/dot.rs\<close>): the length-prefixed framing, the session of one
  connection with its reader, its query tasks and its writer, and the limit on the number of
  connections. The stream a client sends is a list of bytes and the way it ends; a task runs alone
  between two suspensions, so a list of events is one interleaving. The query handler is not run here:
  its replies are carried by the events.
\<close>

subsection \<open>Framing\<close>

abbreviation (input) MAX_MESSAGE_SIZE :: nat where "MAX_MESSAGE_SIZE \<equiv> 65535"

text \<open>
  A stream ends by being closed, by an error, or by no byte arriving in time. What follows a timeout is
  never read, so such a stream consists of the bytes before it.
\<close>

datatype ending = Eof | Broken | Stalls

text \<open>The ways the loop of \<open>handle_stream\<close> returns: \<open>Ok(())\<close> and its three errors.\<close>

datatype stream_end = Closed | Prefix_Failed | Body_Failed | Body_Timeout

definition read_one :: "ending \<Rightarrow> bytes \<Rightarrow> stream_end + bytes \<times> bytes" where
  "read_one fin s =
     (case s of
        b0 # b1 # rest \<Rightarrow>
          (let len = unat (u16_of_be b0 b1)
           in if len = 0 \<or> MAX_MESSAGE_SIZE < len then Inl Closed
              else if length rest < len then
                Inl (case fin of Stalls \<Rightarrow> Body_Timeout | _ \<Rightarrow> Body_Failed)
              else Inr (take len rest, drop len rest))
      | _ \<Rightarrow> Inl (case fin of Broken \<Rightarrow> Prefix_Failed | _ \<Rightarrow> Closed))"

lemma read_one_shorter: "read_one fin s = Inr (m, rest) \<Longrightarrow> length rest < length s"
  by (auto simp: read_one_def Let_def split: list.splits if_splits)

text \<open>The messages of a stream and how it ends.\<close>

function read_frames :: "ending \<Rightarrow> bytes \<Rightarrow> bytes list \<times> stream_end" where
  "read_frames fin s =
     (case read_one fin s of
        Inl e \<Rightarrow> ([], e)
      | Inr (m, rest) \<Rightarrow> (let (ms, e) = read_frames fin rest in (m # ms, e)))"
  by auto
termination by (relation "measure (\<lambda>(fin, s). length s)") (auto dest: read_one_shorter)

declare read_frames.simps [simp del]

definition frame :: "bytes \<Rightarrow> bytes option" where
  "frame response =
     (if length response < 2 ^ 16 then Some (be16 (of_nat (length response)) @ response) else None)"

subsection \<open>A session\<close>

abbreviation (input) MAX_CONCURRENT_QUERIES_PER_CONNECTION :: nat where
  "MAX_CONCURRENT_QUERIES_PER_CONNECTION \<equiv> 32"

text \<open>
  The reader waits for the next message, holds one and waits for a permit, has a reply of its own to
  hand to the writer, or has left its loop. A task waits for the handler or hands over its reply.
\<close>

datatype reader = Reading | Has bytes | Replies bytes | Stopped stream_end

datatype query_task = Resolving bytes | Replying bytes

text \<open>
  The writer waits at the channel, has a framed reply under way, or has left its loop after a failed
  write, which closes the channel.
\<close>

datatype writer = Waiting | Writing bytes | Gone

text \<open>
  \<open>queue\<close> is the channel to the writer; \<open>wrote\<close> are the replies written so far and \<open>skipped\<close> those without
  a frame. \<open>received\<close> and \<open>served\<close> record the messages read and the replies given to them.
\<close>

record session =
  unread :: bytes
  reader :: reader
  permits :: nat
  tasks :: "query_task list"
  queue :: "bytes list"
  writer :: writer
  wrote :: "bytes list"
  skipped :: "bytes list"
  over :: bool
  received :: "bytes list"
  served :: "(bytes \<times> bytes) list"

definition session_new :: "bytes \<Rightarrow> session" where
  "session_new s =
     \<lparr>unread = s, reader = Reading, permits = MAX_CONCURRENT_QUERIES_PER_CONNECTION, tasks = [], queue = [],
      writer = Waiting, wrote = [], skipped = [], over = False, received = [], served = []\<rparr>"

datatype session_event =
    Read                     \<comment> \<open>the reader gets the next message, or the stream ends\<close>
  | Answer_Now bytes         \<comment> \<open>the first poll of the handler gives a reply\<close>
  | Park                     \<comment> \<open>it does not, and a task goes on with it\<close>
  | Send                     \<comment> \<open>the reader hands its reply to the writer\<close>
  | Answer nat bytes         \<comment> \<open>a task gets its reply\<close>
  | Send_Task nat            \<comment> \<open>and hands it to the writer\<close>
  | Take                     \<comment> \<open>the writer takes a reply from the channel\<close>
  | Write                    \<comment> \<open>it has been written\<close>
  | Write_Fails
  | Finish                   \<comment> \<open>the session returns\<close>

text \<open>
  Sending waits for room in the channel, and gives up at once when the writer is gone; either way the
  permit is given back.
\<close>

definition send :: "bytes \<Rightarrow> session \<Rightarrow> session option" where
  "send response s =
     (if writer s = Gone then Some (s\<lparr>permits := permits s + 1\<rparr>)
      else if length (queue s) < MAX_CONCURRENT_QUERIES_PER_CONNECTION
      then Some (s\<lparr>queue := queue s @ [response], permits := permits s + 1\<rparr>)
      else None)"

definition without_nth :: "nat \<Rightarrow> 'a list \<Rightarrow> 'a list" where
  "without_nth i xs = take i xs @ drop (Suc i) xs"

fun session_step :: "ending \<Rightarrow> session_event \<Rightarrow> session \<Rightarrow> session option" where
  "session_step fin Read s =
     (case reader s of
        Reading \<Rightarrow>
          (case read_one fin (unread s) of
             Inl e \<Rightarrow> Some (s\<lparr>reader := Stopped e\<rparr>)
           | Inr (m, rest) \<Rightarrow> Some (s\<lparr>unread := rest, reader := Has m, received := received s @ [m]\<rparr>))
      | _ \<Rightarrow> None)" |
  "session_step fin (Answer_Now w) s =
     (case reader s of
        Has m \<Rightarrow>
          (if 0 < permits s then Some (s\<lparr>permits := permits s - 1, reader := Replies w, served := served s @ [(m, w)]\<rparr>)
           else None)
      | _ \<Rightarrow> None)" |
  "session_step fin Park s =
     (case reader s of
        Has m \<Rightarrow>
          (if 0 < permits s then Some (s\<lparr>permits := permits s - 1, reader := Reading, tasks := tasks s @ [Resolving m]\<rparr>)
           else None)
      | _ \<Rightarrow> None)" |
  "session_step fin Send s =
     (case reader s of Replies w \<Rightarrow> map_option (\<lambda>s. s\<lparr>reader := Reading\<rparr>) (send w s) | _ \<Rightarrow> None)" |
  "session_step fin (Answer i w) s =
     (if i < length (tasks s) then
        (case tasks s ! i of
           Resolving m \<Rightarrow> Some (s\<lparr>tasks := (tasks s)[i := Replying w], served := served s @ [(m, w)]\<rparr>)
         | _ \<Rightarrow> None)
      else None)" |
  "session_step fin (Send_Task i) s =
     (if i < length (tasks s) then
        (case tasks s ! i of
           Replying w \<Rightarrow> map_option (\<lambda>s. s\<lparr>tasks := without_nth i (tasks s)\<rparr>) (send w s)
         | _ \<Rightarrow> None)
      else None)" |
  "session_step fin Take s =
     (case (writer s, queue s) of
        (Waiting, w # ws) \<Rightarrow>
          Some (case frame w of
             None \<Rightarrow> s\<lparr>queue := ws, skipped := skipped s @ [w]\<rparr>
           | Some f \<Rightarrow> s\<lparr>queue := ws, writer := Writing w\<rparr>)
      | _ \<Rightarrow> None)" |
  "session_step fin Write s =
     (case writer s of Writing w \<Rightarrow> Some (s\<lparr>writer := Waiting, wrote := wrote s @ [w]\<rparr>) | _ \<Rightarrow> None)" |
  "session_step fin Write_Fails s =
     (case writer s of Writing w \<Rightarrow> Some (s\<lparr>writer := Gone, queue := []\<rparr>) | _ \<Rightarrow> None)" |
  "session_step fin Finish s =
     (case reader s of
        Stopped e \<Rightarrow>
          if \<not> over s \<and> (writer s = Gone \<or> writer s = Waiting \<and> tasks s = [] \<and> queue s = [])
          then Some (s\<lparr>over := True\<rparr>) else None
      | _ \<Rightarrow> None)"

fun session_run :: "ending \<Rightarrow> session_event list \<Rightarrow> session \<Rightarrow> session option" where
  "session_run fin [] s = Some s" |
  "session_run fin (e # es) s = Option.bind (session_step fin e s) (session_run fin es)"

text \<open>The bytes of the complete writes; a write that fails may leave a part of a frame behind them.\<close>

definition sent_bytes :: "session \<Rightarrow> bytes" where
  "sent_bytes s = concat (map (\<lambda>w. the (frame w)) (wrote s))"

subsection \<open>The listener\<close>

abbreviation (input) MAX_CONCURRENT_CONNECTIONS :: nat where "MAX_CONCURRENT_CONNECTIONS \<equiv> 512"

record dot_listener =
  slots_free :: nat
  open_conns :: nat
  accepting :: bool

definition dot_listener_new :: dot_listener where
  "dot_listener_new = \<lparr>slots_free = MAX_CONCURRENT_CONNECTIONS, open_conns = 0, accepting = True\<rparr>"

datatype listener_event =
    Accepted         \<comment> \<open>a client connects\<close>
  | Accept_Failed
  | Conn_Ends        \<comment> \<open>the task of a connection ends\<close>
  | Shutdown

fun listener_step :: "listener_event \<Rightarrow> dot_listener \<Rightarrow> dot_listener option" where
  "listener_step Accepted l =
     (if accepting l then
        Some (if 0 < slots_free l then l\<lparr>slots_free := slots_free l - 1, open_conns := open_conns l + 1\<rparr> else l)
      else None)" |
  "listener_step Accept_Failed l = (if accepting l then Some l else None)" |
  "listener_step Conn_Ends l =
     (if 0 < open_conns l then Some (l\<lparr>slots_free := slots_free l + 1, open_conns := open_conns l - 1\<rparr>) else None)" |
  "listener_step Shutdown l = (if accepting l then Some (l\<lparr>accepting := False\<rparr>) else None)"

fun listener_run :: "listener_event list \<Rightarrow> dot_listener \<Rightarrow> dot_listener option" where
  "listener_run [] l = Some l" |
  "listener_run (e # es) l = Option.bind (listener_step e l) (listener_run es)"

end
