(* ===== verification/Dot_Server_Correct.thy ===== *)
theory Dot_Server_Correct
  imports Dot_Server
begin

text \<open>
  Correctness of the DNS-over-TLS listener: the framing is exact in both directions, a session never has
  more queries under way than permits, reads exactly the messages of the stream, writes the reply of
  each query it has read once, and can always be brought to its end.
\<close>

subsection \<open>Framing\<close>

definition message_ok :: "bytes \<Rightarrow> bool" where
  "message_ok m \<longleftrightarrow> m \<noteq> [] \<and> length m \<le> MAX_MESSAGE_SIZE"

lemma frame_ok [simp]: "message_ok m \<Longrightarrow> frame m = Some (be16 (of_nat (length m)) @ m)"
  by (simp add: message_ok_def frame_def)

lemma read_one_frame:
  assumes "message_ok m" shows "read_one fin (the (frame m) @ rest) = Inr (m, rest)"
proof -
  have len: "unat (of_nat (length m) :: u16) = length m"
    using assms by (simp add: message_ok_def unat_of_nat take_bit_nat_eq_self)
  have "read_one fin (be16 w @ m @ rest) =
      (if unat w = 0 \<or> MAX_MESSAGE_SIZE < unat w then Inl Closed
       else if length (m @ rest) < unat w then Inl (case fin of Stalls \<Rightarrow> Body_Timeout | _ \<Rightarrow> Body_Failed)
       else Inr (take (unat w) (m @ rest), drop (unat w) (m @ rest)))" for w
    by (simp add: read_one_def be16_def Let_def)
  from this [of "of_nat (length m)"] show ?thesis using assms len by (simp add: message_ok_def)
qed

lemma read_one_Inr:
  assumes "read_one fin s = Inr (m, rest)" shows "message_ok m \<and> s = the (frame m) @ rest"
proof -
  obtain b0 b1 t where s: "s = b0 # b1 # t" using assms by (auto simp: read_one_def split: list.splits)
  let ?w = "u16_of_be b0 b1"
  have w: "unat ?w \<noteq> 0" "unat ?w \<le> MAX_MESSAGE_SIZE" "unat ?w \<le> length t" "m = take (unat ?w) t" "rest = drop (unat ?w) t"
    using assms s by (auto simp: read_one_def Let_def split: if_splits)
  then have len: "length m = unat ?w" by simp
  with w have ok: "message_ok m" by (auto simp: message_ok_def)
  have "be16 (of_nat (length m)) = [b0, b1]" using len by simp
  then have "the (frame m) = [b0, b1] @ m" using ok by simp
  then show ?thesis using w s ok by simp
qed

lemma read_frames_frame: "message_ok m \<Longrightarrow>
  read_frames fin (the (frame m) @ rest) = (m # fst (read_frames fin rest), snd (read_frames fin rest))"
  by (subst read_frames.simps) (simp only: read_one_frame, simp split: prod.split)

lemma read_frames_Inl: "read_one fin s = Inl e \<Longrightarrow> read_frames fin s = ([], e)"
  by (subst read_frames.simps) simp

lemma read_frames_Inr: "read_one fin s = Inr (m, rest) \<Longrightarrow>
  read_frames fin s = (m # fst (read_frames fin rest), snd (read_frames fin rest))"
  by (subst read_frames.simps) (simp split: prod.split)

lemma read_frames_split:
  "read_frames fin s = (ms, e) \<Longrightarrow>
     \<exists>rest. s = concat (map (\<lambda>m. the (frame m)) ms) @ rest \<and> list_all message_ok ms \<and> read_one fin rest = Inl e"
proof (induction fin s arbitrary: ms rule: read_frames.induct)
  case (1 fin s)
  show ?case
  proof (cases "read_one fin s")
    case (Inl e')
    then show ?thesis using 1 by (auto simp: read_frames_Inl)
  next
    case (Inr x)
    obtain m rest where x: "x = (m, rest)" by fastforce
    with Inr have r: "read_one fin s = Inr (m, rest)" by simp
    then have ms: "ms = m # fst (read_frames fin rest)" "e = snd (read_frames fin rest)"
      using "1.prems" by (auto simp: read_frames_Inr)
    have "\<exists>t. rest = concat (map (\<lambda>m. the (frame m)) (fst (read_frames fin rest))) @ t \<and>
        list_all message_ok (fst (read_frames fin rest)) \<and> read_one fin t = Inl e"
      by (rule "1.IH" [OF Inr x [symmetric]]) (simp add: ms)
    with read_one_Inr [OF r] show ?thesis by (auto simp: ms(1))
  qed
qed

lemma read_frames_join:
  "list_all message_ok ms \<Longrightarrow> read_one fin rest = Inl e \<Longrightarrow>
     read_frames fin (concat (map (\<lambda>m. the (frame m)) ms) @ rest) = (ms, e)"
proof (induction ms)
  case (Cons m ms)
  then show ?case using read_frames_frame [of m fin "concat (map (\<lambda>m. the (frame m)) ms) @ rest"] by simp
qed (simp add: read_frames_Inl)

text \<open>What is left of a stream when the loop returns, and how it returns.\<close>

definition stops :: "ending \<Rightarrow> bytes \<Rightarrow> stream_end \<Rightarrow> bool" where
  "stops fin rest e \<longleftrightarrow>
     length rest < 2 \<and> e = (if fin = Broken then Prefix_Failed else Closed) \<or>
     (\<exists>t. rest = [0, 0] @ t) \<and> e = Closed \<or>
     (\<exists>n t. 0 < n \<and> n \<le> MAX_MESSAGE_SIZE \<and> length t < n \<and> rest = be16 (of_nat n) @ t) \<and>
       e = (if fin = Stalls then Body_Timeout else Body_Failed)"

lemma u16_zero: "unat (u16_of_be b0 b1) = 0 \<longleftrightarrow> b0 = 0 \<and> b1 = 0"
proof
  assume "unat (u16_of_be b0 b1) = 0"
  then have "u16_of_be b0 b1 = 0" by (simp add: unat_eq_0)
  moreover have "be16 (u16_of_be b0 b1) = [b0, b1]" "be16 0 = [0, 0]" by (simp, simp add: be16_def)
  ultimately show "b0 = 0 \<and> b1 = 0" by simp
qed (simp add: u16_of_be_def)

lemma read_one_stops: "read_one fin rest = Inl e \<longleftrightarrow> stops fin rest e"
proof (cases "length rest < 2")
  case True
  then have "rest = [] \<or> (\<exists>b. rest = [b])" by (cases rest; cases "tl rest") auto
  then show ?thesis by (auto simp: read_one_def stops_def be16_def split: ending.splits)
next
  case False
  then obtain b0 b1 t where r: "rest = b0 # b1 # t" by (cases rest; cases "tl rest") auto
  let ?n = "unat (u16_of_be b0 b1)"
  have n: "?n \<le> MAX_MESSAGE_SIZE" using unsigned_less [of "u16_of_be b0 b1", where 'a = nat] by simp
  have "(\<exists>n t'. 0 < n \<and> n \<le> MAX_MESSAGE_SIZE \<and> length t' < n \<and> rest = be16 (of_nat n) @ t') \<longleftrightarrow> 0 < ?n \<and> length t < ?n"
  proof
    assume "\<exists>n t'. 0 < n \<and> n \<le> MAX_MESSAGE_SIZE \<and> length t' < n \<and> rest = be16 (of_nat n) @ t'"
    then obtain n t' where h: "0 < n" "n \<le> MAX_MESSAGE_SIZE" "length t' < n" "rest = be16 (of_nat n) @ t'" by blast
    then have "t' = t" "u16_of_be b0 b1 = of_nat n" using r by (auto simp: be16_def)
    moreover have "unat (of_nat n :: u16) = n" using h(2) by (simp add: unat_of_nat take_bit_nat_eq_self)
    ultimately show "0 < ?n \<and> length t < ?n" using h by simp
  next
    assume "0 < ?n \<and> length t < ?n"
    then show "\<exists>n t'. 0 < n \<and> n \<le> MAX_MESSAGE_SIZE \<and> length t' < n \<and> rest = be16 (of_nat n) @ t'"
      using r n by (intro exI [of _ ?n] exI [of _ t]) simp
  qed
  then show ?thesis using r n u16_zero [of b0 b1]
    by (auto simp: read_one_def stops_def Let_def split: ending.splits)
qed

text \<open>
  C25. The reader of a DNS-over-TLS connection splits a stream into messages \<open>ms\<close> and returns with \<open>e\<close>
  exactly when the stream is the frames of \<open>ms\<close>, each message of 1 to 65535 bytes after its length in two
  bytes, followed by a rest that stops it: less than a length prefix, the length zero, or a body shorter
  than its length.
\<close>

theorem dot_framing_exact:
  "read_frames fin s = (ms, e) \<longleftrightarrow>
     (\<exists>rest. s = concat (map (\<lambda>m. the (frame m)) ms) @ rest \<and>
        list_all (\<lambda>m. 0 < length m \<and> length m \<le> 65535 \<and> frame m = Some (be16 (of_nat (length m)) @ m)) ms \<and>
        stops fin rest e)"
proof -
  have ok: "message_ok = (\<lambda>m. 0 < length m \<and> length m \<le> 65535 \<and> frame m = Some (be16 (of_nat (length m)) @ m))"
    by (rule ext) (auto simp: message_ok_def frame_def)
  show ?thesis
    using read_frames_split [of fin s ms e] read_frames_join [of ms fin _ e]
    unfolding ok [symmetric] read_one_stops by blast
qed

subsection \<open>The invariant of a session\<close>

fun resolving :: "query_task \<Rightarrow> bytes option" where
  "resolving (Resolving m) = Some m" |
  "resolving (Replying w) = None"

fun replying :: "query_task \<Rightarrow> bytes option" where
  "replying (Resolving m) = None" |
  "replying (Replying w) = Some w"

fun held :: "reader \<Rightarrow> bytes list" where
  "held (Has m) = [m]" |
  "held _ = []"

fun handing :: "reader \<Rightarrow> bytes list" where
  "handing (Replies w) = [w]" |
  "handing _ = []"

fun picks :: "('a \<Rightarrow> 'b option) \<Rightarrow> 'a list \<Rightarrow> 'b multiset" where
  "picks f [] = {#}" |
  "picks f (x # xs) = (case f x of None \<Rightarrow> picks f xs | Some y \<Rightarrow> add_mset y (picks f xs))"

lemma picks_append [simp]: "picks f (xs @ ys) = picks f xs + picks f ys"
  by (induction xs) (auto split: option.splits)

lemma picks_nth:
  "i < length xs \<Longrightarrow> picks f xs = picks f (without_nth i xs) + picks f [xs ! i]"
proof -
  assume "i < length xs"
  then have "xs = take i xs @ xs ! i # drop (Suc i) xs" by (simp add: id_take_nth_drop)
  then have "picks f xs = picks f (take i xs) + (picks f [xs ! i] + picks f (drop (Suc i) xs))"
    using picks_append [of f "take i xs" "[xs ! i] @ drop (Suc i) xs"] picks_append [of f "[xs ! i]" "drop (Suc i) xs"] by simp
  then show ?thesis by (simp add: without_nth_def)
qed

lemma length_without_nth [simp]: "i < length xs \<Longrightarrow> length (without_nth i xs) = length xs - 1"
  by (simp add: without_nth_def)

lemma without_nth_update [simp]: "without_nth i (xs[i := x]) = without_nth i xs"
  by (simp add: without_nth_def)

fun in_hand :: "writer \<Rightarrow> bytes list" where
  "in_hand (Writing w) = [w]" |
  "in_hand _ = []"

definition reads_ok :: "ending \<Rightarrow> bytes \<Rightarrow> session \<Rightarrow> bool" where
  "reads_ok fin inp s \<longleftrightarrow>
     (case reader s of
        Stopped e \<Rightarrow> read_frames fin inp = (received s, e)
      | _ \<Rightarrow> read_frames fin inp = (received s @ fst (read_frames fin (unread s)), snd (read_frames fin (unread s))))"

definition counts_ok :: "session \<Rightarrow> bool" where
  "counts_ok s \<longleftrightarrow>
     permits s + length (tasks s) + length (handing (reader s)) = MAX_CONCURRENT_QUERIES_PER_CONNECTION \<and>
     length (queue s) \<le> MAX_CONCURRENT_QUERIES_PER_CONNECTION \<and> (writer s = Gone \<longrightarrow> queue s = [])"

definition served_ok :: "session \<Rightarrow> bool" where
  "served_ok s \<longleftrightarrow> mset (received s) = mset (map fst (served s)) + picks resolving (tasks s) + mset (held (reader s))"

text \<open>Every reply given is written, skipped, on its way, or lost to a writer that is gone.\<close>

definition given :: "session \<Rightarrow> bytes multiset" where
  "given s = mset (wrote s) + mset (skipped s) + mset (in_hand (writer s)) + mset (queue s) +
     picks replying (tasks s) + mset (handing (reader s))"

definition replies_ok :: "bytes multiset \<Rightarrow> session \<Rightarrow> bool" where
  "replies_ok lost s \<longleftrightarrow> given s + lost = mset (map snd (served s)) \<and> (writer s \<noteq> Gone \<longrightarrow> lost = {#})"

definition frames_ok :: "session \<Rightarrow> bool" where
  "frames_ok s \<longleftrightarrow> list_all (\<lambda>w. frame w \<noteq> None) (wrote s @ in_hand (writer s)) \<and> list_all (\<lambda>w. frame w = None) (skipped s)"

definition over_ok :: "session \<Rightarrow> bool" where
  "over_ok s \<longleftrightarrow> (over s \<longrightarrow> (\<exists>e. reader s = Stopped e) \<and>
     (writer s = Gone \<or> writer s = Waiting \<and> tasks s = [] \<and> queue s = []))"

definition session_inv :: "ending \<Rightarrow> bytes \<Rightarrow> session \<Rightarrow> bool" where
  "session_inv fin inp s \<longleftrightarrow> reads_ok fin inp s \<and> counts_ok s \<and> served_ok s \<and> (\<exists>lost. replies_ok lost s) \<and>
     frames_ok s \<and> over_ok s"

lemmas session_parts = counts_ok_def served_ok_def replies_ok_def given_def frames_ok_def over_ok_def

lemma session_invI:
  "reads_ok fin inp s \<Longrightarrow> counts_ok s \<Longrightarrow> served_ok s \<Longrightarrow> replies_ok lost s \<Longrightarrow> frames_ok s \<Longrightarrow> over_ok s \<Longrightarrow>
     session_inv fin inp s"
  by (auto simp: session_inv_def)

lemma session_invE:
  assumes "session_inv fin inp s"
  obtains lost where "reads_ok fin inp s" "counts_ok s" "served_ok s" "replies_ok lost s" "frames_ok s" "over_ok s"
  using assms by (auto simp: session_inv_def)

lemma reads_ok_frame [simp]:
  "reads_ok fin inp (tasks_update f s) = reads_ok fin inp s"
  "reads_ok fin inp (queue_update g s) = reads_ok fin inp s"
  "reads_ok fin inp (writer_update h s) = reads_ok fin inp s"
  "reads_ok fin inp (permits_update k s) = reads_ok fin inp s"
  "reads_ok fin inp (wrote_update l s) = reads_ok fin inp s"
  "reads_ok fin inp (skipped_update l s) = reads_ok fin inp s"
  "reads_ok fin inp (over_update b s) = reads_ok fin inp s"
  "reads_ok fin inp (served_update r s) = reads_ok fin inp s"
  by (simp_all add: reads_ok_def cong: reader.case_cong)

lemma session_inv_new: "session_inv fin inp (session_new inp)"
  by (rule session_invI [of _ _ _ "{#}"]) (simp_all add: session_parts session_new_def reads_ok_def)

lemma read_inv:
  assumes "session_inv fin inp s" "session_step fin Read s = Some s'" shows "session_inv fin inp s'"
  using assms(1)
proof (rule session_invE)
  fix lost assume i: "reads_ok fin inp s" "counts_ok s" "served_ok s" "replies_ok lost s" "frames_ok s" "over_ok s"
  have r: "reader s = Reading" using assms(2) by (auto split: reader.splits)
  show ?thesis
  proof (cases "read_one fin (unread s)")
    case (Inl e)
    then have "s' = s\<lparr>reader := Stopped e\<rparr>" using assms(2) r by simp
    then show ?thesis using i r read_frames_Inl [OF Inl]
      by (intro session_invI [of _ _ _ lost]) (simp_all add: session_parts reads_ok_def)
  next
    case (Inr x)
    obtain m rest where x: "x = (m, rest)" by fastforce
    then have "s' = s\<lparr>unread := rest, reader := Has m, received := received s @ [m]\<rparr>" using assms(2) r Inr by simp
    then show ?thesis using i r read_frames_Inr [OF Inr [unfolded x]]
      by (intro session_invI [of _ _ _ lost]) (simp_all add: session_parts reads_ok_def)
  qed
qed

lemma answer_now_inv:
  assumes "session_inv fin inp s" "session_step fin (Answer_Now w) s = Some s'" shows "session_inv fin inp s'"
  using assms(1)
proof (rule session_invE)
  fix lost assume i: "reads_ok fin inp s" "counts_ok s" "served_ok s" "replies_ok lost s" "frames_ok s" "over_ok s"
  obtain m where m: "reader s = Has m" "0 < permits s"
    "s' = s\<lparr>permits := permits s - 1, reader := Replies w, served := served s @ [(m, w)]\<rparr>"
    using assms(2) by (auto split: reader.splits if_splits)
  then show ?thesis using i
    by (intro session_invI [of _ _ _ lost]) (simp_all add: session_parts reads_ok_def)
qed

lemma park_inv:
  assumes "session_inv fin inp s" "session_step fin Park s = Some s'" shows "session_inv fin inp s'"
  using assms(1)
proof (rule session_invE)
  fix lost assume i: "reads_ok fin inp s" "counts_ok s" "served_ok s" "replies_ok lost s" "frames_ok s" "over_ok s"
  obtain m where m: "reader s = Has m" "0 < permits s"
    "s' = s\<lparr>permits := permits s - 1, reader := Reading, tasks := tasks s @ [Resolving m]\<rparr>"
    using assms(2) by (auto split: reader.splits if_splits)
  then show ?thesis using i
    by (intro session_invI [of _ _ _ lost]) (simp_all add: session_parts reads_ok_def)
qed

lemma send_eq:
  "send w s = Some s' \<longleftrightarrow>
     (writer s = Gone \<and> s' = s\<lparr>permits := permits s + 1\<rparr> \<or>
      writer s \<noteq> Gone \<and> length (queue s) < MAX_CONCURRENT_QUERIES_PER_CONNECTION \<and>
        s' = s\<lparr>queue := queue s @ [w], permits := permits s + 1\<rparr>)"
  by (auto simp: send_def)

lemma send_inv:
  assumes "session_inv fin inp s" "session_step fin Send s = Some s'" shows "session_inv fin inp s'"
  using assms(1)
proof (rule session_invE)
  fix lost assume i: "reads_ok fin inp s" "counts_ok s" "served_ok s" "replies_ok lost s" "frames_ok s" "over_ok s"
  obtain w t where t: "reader s = Replies w" "send w s = Some t" "s' = t\<lparr>reader := Reading\<rparr>"
    using assms(2) by (auto split: reader.splits)
  from t(2) [unfolded send_eq] show ?thesis
  proof (elim disjE conjE)
    assume "writer s = Gone" "t = s\<lparr>permits := permits s + 1\<rparr>"
    then show ?thesis using i t(1,3)
      by (intro session_invI [of _ _ _ "add_mset w lost"]) (simp_all add: session_parts reads_ok_def)
  next
    assume "writer s \<noteq> Gone" "length (queue s) < 32" "t = s\<lparr>queue := queue s @ [w], permits := permits s + 1\<rparr>"
    then show ?thesis using i t(1,3)
      by (intro session_invI [of _ _ _ lost]) (auto simp: session_parts reads_ok_def)
  qed
qed

lemma task_answer_inv:
  assumes "session_inv fin inp s" "session_step fin (Answer i w) s = Some s'" shows "session_inv fin inp s'"
  using assms(1)
proof (rule session_invE)
  fix lost assume i: "reads_ok fin inp s" "counts_ok s" "served_ok s" "replies_ok lost s" "frames_ok s" "over_ok s"
  obtain m where m: "i < length (tasks s)" "tasks s ! i = Resolving m"
    "s' = s\<lparr>tasks := (tasks s)[i := Replying w], served := served s @ [(m, w)]\<rparr>"
    using assms(2) by (auto split: query_task.splits if_splits)
  have p: "picks f (tasks s) = picks f (without_nth i (tasks s)) + picks f [Resolving m]"
    "picks f ((tasks s)[i := Replying w]) = picks f (without_nth i (tasks s)) + picks f [Replying w]" for f :: "query_task \<Rightarrow> bytes option"
    using picks_nth [of i "tasks s" f] picks_nth [of i "(tasks s)[i := Replying w]" f] m(1,2) by simp_all
  have "over_ok s'" using i(6) m by (auto simp: over_ok_def)
  then show ?thesis using i m
    by (intro session_invI [of _ _ _ lost]) (simp_all add: session_parts p)
qed

lemma send_task_inv:
  assumes "session_inv fin inp s" "session_step fin (Send_Task i) s = Some s'" shows "session_inv fin inp s'"
  using assms(1)
proof (rule session_invE)
  fix lost assume i: "reads_ok fin inp s" "counts_ok s" "served_ok s" "replies_ok lost s" "frames_ok s" "over_ok s"
  obtain w t where t: "i < length (tasks s)" "tasks s ! i = Replying w" "send w s = Some t"
    "s' = t\<lparr>tasks := without_nth i (tasks t)\<rparr>"
    using assms(2) by (auto split: query_task.splits if_splits)
  have p: "picks f (tasks s) = picks f (without_nth i (tasks s)) + picks f [Replying w]" for f :: "query_task \<Rightarrow> bytes option"
    using picks_nth [of i "tasks s" f] t(1,2) by simp
  have c: "permits s + 1 + (length (tasks s) - 1) + length (handing (reader s)) = 32"
    using i(2) t(1) by (simp add: counts_ok_def)
  from t(3) [unfolded send_eq] show ?thesis
  proof (elim disjE conjE)
    assume g: "writer s = Gone" "t = s\<lparr>permits := permits s + 1\<rparr>"
    have "over_ok s'" using i(6) g t(4) by (auto simp: over_ok_def)
    then show ?thesis using i t(1,4) g c
      by (intro session_invI [of _ _ _ "add_mset w lost"]) (simp_all add: session_parts p)
  next
    assume g: "writer s \<noteq> Gone" "length (queue s) < 32" "t = s\<lparr>queue := queue s @ [w], permits := permits s + 1\<rparr>"
    have "over_ok s'" using i(6) g(1,3) t(1,4) by (auto simp: over_ok_def)
    then show ?thesis using i t(1,4) g c
      by (intro session_invI [of _ _ _ lost]) (auto simp: session_parts p)
  qed
qed

lemma take_inv:
  assumes "session_inv fin inp s" "session_step fin Take s = Some s'" shows "session_inv fin inp s'"
  using assms(1)
proof (rule session_invE)
  fix lost assume i: "reads_ok fin inp s" "counts_ok s" "served_ok s" "replies_ok lost s" "frames_ok s" "over_ok s"
  obtain w ws where q: "writer s = Waiting" "queue s = w # ws" using assms(2) by (auto split: list.splits writer.splits)
  have o: "\<not> over s" using i(6) q by (simp add: over_ok_def)
  show ?thesis
    by (cases "frame w"; rule session_invI [of _ _ _ lost]) (use i q o assms(2) in \<open>auto simp: session_parts\<close>)
qed

lemma write_inv:
  assumes "session_inv fin inp s" "session_step fin Write s = Some s'" shows "session_inv fin inp s'"
  using assms(1)
proof (rule session_invE)
  fix lost assume i: "reads_ok fin inp s" "counts_ok s" "served_ok s" "replies_ok lost s" "frames_ok s" "over_ok s"
  obtain w where q: "writer s = Writing w" "s' = s\<lparr>writer := Waiting, wrote := wrote s @ [w]\<rparr>"
    using assms(2) by (auto split: writer.splits)
  then show ?thesis using i by (intro session_invI [of _ _ _ lost]) (auto simp: session_parts)
qed

lemma write_fails_inv:
  assumes "session_inv fin inp s" "session_step fin Write_Fails s = Some s'" shows "session_inv fin inp s'"
  using assms(1)
proof (rule session_invE)
  fix lost assume i: "reads_ok fin inp s" "counts_ok s" "served_ok s" "replies_ok lost s" "frames_ok s" "over_ok s"
  obtain w where q: "writer s = Writing w" "s' = s\<lparr>writer := Gone, queue := []\<rparr>"
    using assms(2) by (auto split: writer.splits)
  then show ?thesis using i
    by (intro session_invI [of _ _ _ "add_mset w (mset (queue s)) + lost"]) (auto simp: session_parts ac_simps)
qed

lemma finish_inv:
  assumes "session_inv fin inp s" "session_step fin Finish s = Some s'" shows "session_inv fin inp s'"
  using assms(1)
proof (rule session_invE)
  fix lost assume i: "reads_ok fin inp s" "counts_ok s" "served_ok s" "replies_ok lost s" "frames_ok s" "over_ok s"
  then show ?thesis using assms(2)
    by (intro session_invI [of _ _ _ lost]) (auto simp: session_parts split: reader.splits if_splits)
qed

lemma session_step_inv: "session_inv fin inp s \<Longrightarrow> session_step fin e s = Some s' \<Longrightarrow> session_inv fin inp s'"
  by (cases e) (blast intro: read_inv answer_now_inv park_inv send_inv task_answer_inv send_task_inv take_inv write_inv
      write_fails_inv finish_inv)+

lemma session_run_inv: "session_inv fin inp s \<Longrightarrow> session_run fin es s = Some s' \<Longrightarrow> session_inv fin inp s'"
  by (induction es arbitrary: s) (auto simp: bind_eq_Some_conv intro: session_step_inv)

subsection \<open>Properties of a session\<close>

lemma filter_frames:
  "frames_ok s \<Longrightarrow> writer s = Waiting \<Longrightarrow> mset (wrote s) + mset (skipped s) = M \<Longrightarrow>
     mset (wrote s) = filter_mset (\<lambda>w. frame w \<noteq> None) M"
proof -
  assume f: "frames_ok s" "writer s = Waiting" and m: "mset (wrote s) + mset (skipped s) = M"
  have "filter (\<lambda>w. frame w \<noteq> None) (wrote s) = wrote s" "filter (\<lambda>w. frame w \<noteq> None) (skipped s) = []"
    using f by (auto simp: frames_ok_def list_all_iff filter_id_conv filter_empty_conv)
  then show ?thesis using m by (metis filter_union_mset mset_filter mset.simps(1) add_0_right)
qed

lemma wrote_read_back:
  assumes "frames_ok s" "[] \<notin> set (wrote s)"
  shows "read_frames Eof (sent_bytes s) = (wrote s, Closed)"
proof -
  have "message_ok w" if w: "w \<in> set (wrote s)" for w
  proof -
    have "frame w \<noteq> None" using assms(1) w by (simp add: frames_ok_def list_all_iff)
    then have "length w < 65536" by (simp add: frame_def split: if_splits)
    moreover have "w \<noteq> []" using assms(2) w by auto
    ultimately show ?thesis by (simp add: message_ok_def)
  qed
  then have "list_all message_ok (wrote s)" by (simp add: list_all_iff)
  then show ?thesis
    using read_frames_join [of "wrote s" Eof "[]" Closed] by (simp add: sent_bytes_def read_one_def)
qed

lemma session_over_all:
  assumes i: "session_inv fin inp s" and o: "over s" "writer s \<noteq> Gone"
  shows "read_frames fin inp = (received s, (case reader s of Stopped e \<Rightarrow> e | _ \<Rightarrow> Closed)) \<and>
    mset (map fst (served s)) = mset (received s) \<and>
    mset (wrote s) = mset (filter (\<lambda>w. length w < 2 ^ 16) (map snd (served s)))"
proof -
  from i obtain lost
    where i: "reads_ok fin inp s" "counts_ok s" "served_ok s" "replies_ok lost s" "frames_ok s" "over_ok s"
    by (rule session_invE)
  obtain e where d: "reader s = Stopped e" "writer s = Waiting" "tasks s = []" "queue s = []"
    using i(6) o by (auto simp: over_ok_def)
  have "mset (wrote s) + mset (skipped s) = mset (map snd (served s))"
    using i(4) d by (auto simp: replies_ok_def given_def)
  from filter_frames [OF i(5) d(2) this] show ?thesis
    using i(1,3) d by (simp add: reads_ok_def served_ok_def frame_def mset_filter flip: mset_map)
qed

text \<open>
  C14. After any interleaving of the reader, the query tasks and the writer of a DNS-over-TLS session on a
  stream \<open>inp\<close>: at most 32 queries are under way and at most 32 replies wait in the channel; the messages
  read are the first of the stream; each is answered at most once, and each reply written at most once;
  the bytes sent split, in the client's own framing, into just these replies. A session that has returned
  without a write error has read the whole stream, answered every message and written every reply that
  fits a frame.
\<close>

theorem dot_session_sound:
  assumes "session_run fin es (session_new inp) = Some s"
  shows "length (tasks s) + length (handing (reader s)) \<le> 32 \<and> length (queue s) \<le> 32 \<and>
    (\<exists>later. fst (read_frames fin inp) = received s @ later) \<and>
    mset (map fst (served s)) \<subseteq># mset (received s) \<and> mset (wrote s) \<subseteq># mset (map snd (served s)) \<and>
    ([] \<notin> set (wrote s) \<longrightarrow> read_frames Eof (sent_bytes s) = (wrote s, Closed)) \<and>
    (over s \<and> writer s \<noteq> Gone \<longrightarrow>
       read_frames fin inp = (received s, (case reader s of Stopped e \<Rightarrow> e | _ \<Rightarrow> Closed)) \<and>
       mset (map fst (served s)) = mset (received s) \<and>
       mset (wrote s) = mset (filter (\<lambda>w. length w < 2 ^ 16) (map snd (served s))))"
proof -
  note inv = session_run_inv [OF session_inv_new assms]
  then obtain lost
    where i: "reads_ok fin inp s" "counts_ok s" "served_ok s" "replies_ok lost s" "frames_ok s" "over_ok s"
    by (rule session_invE)
  have "\<exists>later. fst (read_frames fin inp) = received s @ later"
    using i(1) by (auto simp: reads_ok_def split: reader.splits)
  moreover have "mset (map snd (served s)) = mset (wrote s) + (mset (skipped s) + mset (in_hand (writer s)) + mset (queue s) +
      picks replying (tasks s) + mset (handing (reader s)) + lost)"
    using i(4) by (simp add: replies_ok_def given_def ac_simps)
  then have "mset (wrote s) \<subseteq># mset (map snd (served s))" by (simp del: mset_map)
  moreover have "mset (map fst (served s)) \<subseteq># mset (received s)"
    using i(3) by (simp add: served_ok_def ac_simps)
  ultimately show ?thesis using i(2) session_over_all [OF inv] wrote_read_back [OF i(5)] by (auto simp: counts_ok_def)
qed

text \<open>What a session has still to do, so that each of the steps below leaves less of it.\<close>

fun reader_work :: "reader \<Rightarrow> nat" where
  "reader_work Reading = 1" |
  "reader_work (Has m) = 5" |
  "reader_work (Replies w) = 4" |
  "reader_work (Stopped e) = 0"

fun task_work :: "query_task \<Rightarrow> nat" where
  "task_work (Resolving m) = 4" |
  "task_work (Replying w) = 3"

definition work :: "session \<Rightarrow> nat" where
  "work s = 5 * length (unread s) + reader_work (reader s) + sum_list (map task_work (tasks s)) +
     2 * length (queue s) + length (in_hand (writer s)) + (if over s then 0 else 1)"

text \<open>The writer first, then the oldest task, then the reader; \<open>reply\<close> gives the replies of the handler.\<close>

definition next_event :: "(bytes \<Rightarrow> bytes) \<Rightarrow> session \<Rightarrow> session_event" where
  "next_event reply s =
     (case writer s of
        Writing w \<Rightarrow> Write
      | _ \<Rightarrow>
          if queue s \<noteq> [] then Take
          else (case tasks s of
             Resolving m # _ \<Rightarrow> Answer 0 (reply m)
           | Replying w # _ \<Rightarrow> Send_Task 0
           | [] \<Rightarrow> (case reader s of
                Reading \<Rightarrow> Read
              | Has m \<Rightarrow> Answer_Now (reply m)
              | Replies w \<Rightarrow> Send
              | Stopped e \<Rightarrow> Finish)))"

lemma read_less:
  assumes "reader s = Reading" "\<not> over s"
  shows "\<exists>s'. session_step fin Read s = Some s' \<and> work s' < work s \<and> writer s' = writer s"
proof (cases "read_one fin (unread s)")
  case (Inl e)
  then show ?thesis using assms by (simp add: work_def)
next
  case (Inr x)
  obtain m rest where x: "x = (m, rest)" by fastforce
  with Inr have "length rest < length (unread s)" by (auto dest: read_one_shorter)
  then show ?thesis using assms Inr x by (simp add: work_def)
qed

lemma idle_writer_less:
  assumes i: "counts_ok s" "over_ok s" and w: "in_hand (writer s) = []" "queue s = []" "\<not> over s"
  shows "\<exists>s'. session_step fin (next_event reply s) s = Some s' \<and> work s' < work s \<and> (writer s \<noteq> Gone \<longrightarrow> writer s' \<noteq> Gone)"
proof (cases "tasks s")
  case (Cons t ts)
  have e: "next_event reply s = (case t of Resolving m \<Rightarrow> Answer 0 (reply m) | Replying w \<Rightarrow> Send_Task 0)"
    using w Cons by (auto simp: next_event_def split: writer.splits query_task.splits)
  show ?thesis
    using w Cons e by (cases t) (auto simp: send_def without_nth_def work_def)
next
  case Nil
  have e: "next_event reply s = (case reader s of Reading \<Rightarrow> Read | Has m \<Rightarrow> Answer_Now (reply m) | Replies w \<Rightarrow> Send | Stopped e \<Rightarrow> Finish)"
    using w Nil by (auto simp: next_event_def split: writer.splits)
  have f: "writer s = Gone \<or> writer s = Waiting" using w(1) by (cases "writer s") auto
  show ?thesis
  proof (cases "reader s")
    case Reading
    from read_less [OF this w(3), of fin] show ?thesis using e Reading by auto
  next
    case (Has m)
    then have "0 < permits s" using i(1) Nil by (simp add: counts_ok_def)
    then show ?thesis using e Has by (simp add: work_def)
  next
    case (Replies r)
    then show ?thesis using e f w Nil by (auto simp: send_def work_def)
  next
    case (Stopped r)
    then show ?thesis using e f w Nil by (auto simp: work_def)
  qed
qed

lemma next_event_less:
  assumes i: "session_inv fin inp s" and o: "\<not> over s"
  shows "\<exists>s'. session_step fin (next_event reply s) s = Some s' \<and> work s' < work s \<and> (writer s \<noteq> Gone \<longrightarrow> writer s' \<noteq> Gone)"
proof -
  have c: "counts_ok s" "over_ok s" using i by (auto simp: session_inv_def)
  consider (writing) w where "writer s = Writing w" | (take) w ws where "writer s = Waiting" "queue s = w # ws"
    | (idle) "in_hand (writer s) = []" "queue s = []"
    using c(1) by (cases "writer s"; cases "queue s") (auto simp: counts_ok_def)
  then show ?thesis
  proof cases
    case writing
    then show ?thesis by (simp add: next_event_def work_def)
  next
    case take
    then show ?thesis by (cases "frame w") (auto simp: next_event_def work_def)
  next
    case idle
    then show ?thesis using idle_writer_less [OF c idle o] by blast
  qed
qed

lemma session_finishes:
  "session_inv fin inp s \<Longrightarrow>
     \<exists>es s'. session_run fin es s = Some s' \<and> over s' \<and> (writer s \<noteq> Gone \<longrightarrow> writer s' \<noteq> Gone)"
proof (induction "work s" arbitrary: s rule: less_induct)
  case less
  show ?case
  proof (cases "over s")
    case True
    then show ?thesis by (intro exI [of _ "[]"]) simp
  next
    case False
    obtain t where t: "session_step fin (next_event id s) s = Some t" "work t < work s" "writer s \<noteq> Gone \<longrightarrow> writer t \<noteq> Gone"
      using next_event_less [OF less.prems False, of id] by blast
    from less.hyps [OF t(2) session_step_inv [OF less.prems t(1)]] obtain es s'
      where "session_run fin es t = Some s'" "over s'" "writer t \<noteq> Gone \<longrightarrow> writer s' \<noteq> Gone" by blast
    then show ?thesis using t by (intro exI [of _ "next_event id s # es"] exI [of _ s']) auto
  qed
qed

text \<open>
  C24. From every state a DNS-over-TLS session can reach, a schedule without further write errors brings it
  to its end; if the writer was alive, every message of the stream has then been answered, and every
  reply that fits a frame has been written, whatever permits were taken and however full the channel was.
\<close>

theorem dot_session_completes:
  assumes "session_run fin es (session_new inp) = Some s"
  shows "\<exists>es' s'. session_run fin es' s = Some s' \<and> over s' \<and>
    (writer s \<noteq> Gone \<longrightarrow>
       mset (map fst (served s')) = mset (fst (read_frames fin inp)) \<and>
       mset (wrote s') = mset (filter (\<lambda>w. length w < 2 ^ 16) (map snd (served s'))))"
proof -
  note inv = session_run_inv [OF session_inv_new assms]
  from session_finishes [OF this] obtain es' s'
    where r: "session_run fin es' s = Some s'" "over s'" "writer s \<noteq> Gone \<longrightarrow> writer s' \<noteq> Gone" by blast
  from session_over_all [OF session_run_inv [OF inv r(1)] r(2)] r show ?thesis by (metis fst_conv)
qed

subsection \<open>A session of two queries\<close>

text \<open>
  Two messages and the first byte of a third length. The first query waits for its answer while the
  second is answered at once, and its reply overtakes.
\<close>

definition demo_stream :: bytes where
  "demo_stream = [0, 1, 7] @ [0, 2, 8, 9] @ [0]"

definition demo_session :: "session_event list" where
  "demo_session = [Read, Park, Read, Answer_Now [5, 5], Send, Take, Answer 0 [6], Write, Send_Task 0, Read]"

theorem dot_session_sound_witness:
  "\<exists>s. session_run Eof (demo_session @ [Take, Write, Finish]) (session_new demo_stream) = Some s \<and>
     over s \<and> received s = [[7], [8, 9]] \<and> wrote s = [[5, 5], [6]] \<and>
     read_frames Eof (sent_bytes s) = ([[5, 5], [6]], Closed) \<and> mset (map fst (served s)) = mset [[7], [8, 9]]"
proof -
  have "\<exists>s. session_run Eof (demo_session @ [Take, Write, Finish]) (session_new demo_stream) = Some s \<and>
     over s \<and> writer s = Waiting \<and> received s = [[7], [8, 9]] \<and> wrote s = [[5, 5], [6]]"
    by (simp add: demo_session_def demo_stream_def session_new_def read_one_def u16_of_be_def send_def frame_def without_nth_def)
  then obtain s where r: "session_run Eof (demo_session @ [Take, Write, Finish]) (session_new demo_stream) = Some s"
    "over s" "writer s = Waiting" "received s = [[7], [8, 9]]" "wrote s = [[5, 5], [6]]" by blast
  from dot_session_sound [OF r(1)] r show ?thesis by auto
qed

theorem dot_session_completes_witness:
  "\<exists>s es' s'. session_run Eof demo_session (session_new demo_stream) = Some s \<and> \<not> over s \<and> queue s = [[6]] \<and>
     session_run Eof es' s = Some s' \<and> over s' \<and> mset (map fst (served s')) = mset (fst (read_frames Eof demo_stream))"
proof -
  have "\<exists>s. session_run Eof demo_session (session_new demo_stream) = Some s \<and> \<not> over s \<and> writer s = Waiting \<and> queue s = [[6]]"
    by (simp add: demo_session_def demo_stream_def session_new_def read_one_def u16_of_be_def send_def frame_def without_nth_def)
  then obtain s where r: "session_run Eof demo_session (session_new demo_stream) = Some s" "\<not> over s" "writer s = Waiting"
    "queue s = [[6]]" by blast
  from dot_session_completes [OF r(1)] r show ?thesis by auto
qed

subsection \<open>The listener\<close>

text \<open>
  A DNS-over-TLS listener never has more than 512 connections open, and a connection that ends makes
  room for another.
\<close>

lemma listener_conserved:
  "listener_run es l = Some l' \<Longrightarrow> slots_free l' + open_conns l' = slots_free l + open_conns l"
proof (induction es arbitrary: l)
  case (Cons e es)
  then obtain l1 where "listener_step e l = Some l1" "listener_run es l1 = Some l'" by (auto simp: bind_eq_Some_conv)
  then show ?case using Cons.IH [of l1] by (cases e) (auto split: if_splits)
qed simp

lemma listener_bounded:
  "listener_run es dot_listener_new = Some l \<Longrightarrow> open_conns l \<le> MAX_CONCURRENT_CONNECTIONS"
  using listener_conserved [of es dot_listener_new l] by (simp add: dot_listener_new_def)

end
