(* ===== verification/App_Build.thy ===== *)
theory App_Build
  imports Resolver_Correct Config_Correct
begin

text \<open>
  From a configuration to the state of a running resolver: \<open>upstream::build\<close> with the addresses of its
  DoT hosts (\<open>dns/upstream.rs\<close>) and \<open>AppState::build\<close> (\<open>state.rs\<close>). The lemmas show that a validated
  configuration gives a state from which the resolver can run. Name lookup, the check of a TLS server
  name and the construction of the HTTP client belong to tokio, rustls and reqwest: they are the
  fields of \<open>platform\<close>.
\<close>

subsection \<open>Addresses of a DoT host\<close>

type_synonym socket_addr = "ip_addr \<times> u16"

datatype lookup_result = Timed_Out | Lookup_Failed | Found "socket_addr list"

record platform =
  lookup_host :: "bytes \<Rightarrow> u16 \<Rightarrow> lookup_result"
  valid_server_name :: "bytes \<Rightarrow> bool"
  http_client_builds :: bool

datatype address_error = Lookup_Timed_Out | Cannot_Resolve | No_Addresses | Dial_Failed

definition trim_brackets :: "bytes \<Rightarrow> bytes" where
  "trim_brackets s =
     (let bracket = (\<lambda>b. b = 91 \<or> b = 93) in rev (dropWhile bracket (rev (dropWhile bracket s))))"

definition resolve_addresses :: "platform \<Rightarrow> bytes \<Rightarrow> u16 \<Rightarrow> address_error + socket_addr list" where
  "resolve_addresses pf host port =
     (case parse_ip (trim_brackets host) of
        Some ip \<Rightarrow> Inr [(ip, port)]
      | None \<Rightarrow>
          (case lookup_host pf host port of
             Timed_Out \<Rightarrow> Inl Lookup_Timed_Out
           | Lookup_Failed \<Rightarrow> Inl Cannot_Resolve
           | Found addresses \<Rightarrow> if addresses = [] then Inl No_Addresses else Inr addresses))"

text \<open>
  Dialing from a pool: the result, and the addresses the pool holds afterwards. The TCP connection
  and the TLS handshake to a list of addresses are the argument \<open>dial\<close>.
\<close>

definition connect_to :: "(socket_addr list \<Rightarrow> 'tls option) \<Rightarrow> socket_addr list \<Rightarrow> address_error + 'tls" where
  "connect_to dial addresses =
     (if addresses = [] then Inl No_Addresses
      else case dial addresses of None \<Rightarrow> Inl Dial_Failed | Some tls \<Rightarrow> Inr tls)"

definition connect ::
  "platform \<Rightarrow> (socket_addr list \<Rightarrow> 'tls option) \<Rightarrow> bytes \<Rightarrow> u16 \<Rightarrow> socket_addr list
    \<Rightarrow> (address_error + 'tls) \<times> socket_addr list" where
  "connect pf dial host port cached =
     (if cached \<noteq> [] then (connect_to dial cached, cached)
      else case resolve_addresses pf host port of
             Inl e \<Rightarrow> (Inl e, cached)
           | Inr refreshed \<Rightarrow> (connect_to dial refreshed, refreshed))"

subsection \<open>The upstreams\<close>

datatype backend = Dot_Backend bytes u16 "socket_addr list" bytes | Doh_Backend bytes

record single_upstream =
  up_label :: bytes
  up_backend :: backend

record multi_upstream =
  upstreams :: "single_upstream list"
  up_strategy :: upstream_strategy

datatype build_error = Bad_Config config_error | No_Http_Client | Invalid_Tls_Name bytes

definition build_one :: "platform \<Rightarrow> upstream_config \<Rightarrow> build_error + single_upstream" where
  "build_one pf cfg =
     (case cfg of
        Dot host port tls_name \<Rightarrow>
          if \<not> valid_server_name pf tls_name then Inl (Invalid_Tls_Name tls_name)
          else
            (let addresses = (case resolve_addresses pf host port of Inr addresses \<Rightarrow> addresses | Inl _ \<Rightarrow> [])
             in Inr \<lparr>up_label = bytes_of ''dot://'' @ host @ [58] @ nat_text (unat port),
                     up_backend = Dot_Backend host port addresses tls_name\<rparr>)
      | Doh url \<Rightarrow> Inr \<lparr>up_label = bytes_of ''doh://'' @ url, up_backend = Doh_Backend url\<rparr>)"

definition upstream_build ::
  "platform \<Rightarrow> upstream_config list \<Rightarrow> upstream_strategy \<Rightarrow> build_error + multi_upstream" where
  "upstream_build pf configs str =
     (if \<not> http_client_builds pf then Inl No_Http_Client
      else and_then (mapE (build_one pf) configs) (\<lambda>us. Inr \<lparr>upstreams = us, up_strategy = str\<rparr>))"

subsection \<open>The state\<close>

definition app_state_of ::
  "('h, 'rt, 'cl) services \<Rightarrow> config \<Rightarrow> domain_index \<Rightarrow> ('h, 'rt, 'cl) app_state" where
  "app_state_of sv c merged =
     \<lparr>app_hosts = static_hosts_map c, app_blocklist = merged,
      app_cache = response_cache_new (cache_env_of sv) (cache_enabled (cache c)) (unat (max_size_bytes (cache c))),
      app_block_mode = mode (blocking c), app_sinkhole_ip = sinkhole_ip (blocking c),
      app_sinkhole_ttl = default_ttl (server c)\<rparr>"

text \<open>
  \<open>AppState::build\<close>, with the responses of the list servers to the initial fetches; \<open>None\<close> would be a
  panic of the block list.
\<close>

definition app_build ::
  "('h, 'rt, 'cl) services \<Rightarrow> platform \<Rightarrow> http_response list \<Rightarrow> http_response list \<Rightarrow> config
    \<Rightarrow> (build_error + ('h, 'rt, 'cl) app_state \<times> multi_upstream) option" where
  "app_build sv pf block_resps allow_resps c = do {
     m \<leftarrow> manager_start (name_hash sv) block_resps allow_resps (manager_new (blocklists c) (whitelist c));
     Some (case parsed_upstreams c of
        Inl e \<Rightarrow> Inl (Bad_Config e)
      | Inr us \<Rightarrow>
          and_then (upstream_build pf us (upstreams_config.strategy (upstream c)))
            (\<lambda>mu. Inr (app_state_of sv c (m_merged m), mu)))
   }"

subsection \<open>Lemmas\<close>

lemma resolve_addresses_nonempty: "resolve_addresses pf host port \<noteq> Inr []"
  by (auto simp: resolve_addresses_def split: option.splits lookup_result.splits)

lemma connect_to_eq_Inr: "connect_to dial as = Inr tls \<longleftrightarrow> as \<noteq> [] \<and> dial as = Some tls"
  by (auto simp: connect_to_def split: option.splits)

text \<open>
  A pool that holds addresses keeps them, whatever becomes of the connections: the host is looked up
  again only as long as no lookup has succeeded.
\<close>

lemma connect_keeps_addresses:
  "cached \<noteq> [] \<Longrightarrow> snd (connect pf dial host port cached) = cached"
  "fst (connect pf dial host port cached) = Inr tls \<Longrightarrow>
     snd (connect pf dial host port cached) \<noteq> [] \<and> dial (snd (connect pf dial host port cached)) = Some tls"
  by (auto simp: connect_def connect_to_eq_Inr split: if_splits sum.splits)

lemma response_cache_disabled:
  "response_cache_new env False n = response_cache_new env False 0"
  by (simp add: response_cache_new_def Let_def)

lemma validated_cache:
  assumes "validate ft fs c = Inr ()"
  shows "\<exists>en n. n \<le> 2 ^ 30 \<and>
    response_cache_new env (cache_enabled (cache c)) (unat (max_size_bytes (cache c))) = response_cache_new env en n"
proof (cases "cache_enabled (cache c)")
  case True
  then have "unat (max_size_bytes (cache c)) \<le> 2 ^ 30" using assms validate_iff by blast
  then show ?thesis by blast
next
  case False
  then have "response_cache_new env (cache_enabled (cache c)) (unat (max_size_bytes (cache c))) = response_cache_new env False 0"
    using response_cache_disabled by simp
  moreover have "0 \<le> (2 ^ 30 :: nat)" by simp
  ultimately show ?thesis by blast
qed

definition tls_names_ok :: "platform \<Rightarrow> upstream_config list \<Rightarrow> bool" where
  "tls_names_ok pf us = list_all (\<lambda>u. case u of Dot host port tls_name \<Rightarrow> valid_server_name pf tls_name | Doh _ \<Rightarrow> True) us"

definition backs :: "upstream_config \<Rightarrow> single_upstream \<Rightarrow> bool" where
  "backs u s =
     (case (u, up_backend s) of
        (Dot host port tls_name, Dot_Backend h p addresses n) \<Rightarrow> h = host \<and> p = port \<and> n = tls_name
      | (Doh url, Doh_Backend url') \<Rightarrow> url' = url
      | _ \<Rightarrow> False)"

lemma build_one_cases:
  "case build_one pf u of Inr s \<Rightarrow> tls_names_ok pf [u] \<and> backs u s
   | Inl e \<Rightarrow> \<exists>host port tls_name. u = Dot host port tls_name \<and> \<not> valid_server_name pf tls_name \<and> e = Invalid_Tls_Name tls_name"
  by (cases u) (auto simp: build_one_def tls_names_ok_def backs_def Let_def)

lemma build_all:
  "case mapE (build_one pf) us of Inr ss \<Rightarrow> tls_names_ok pf us \<and> list_all2 backs us ss
   | Inl e \<Rightarrow> \<exists>host port tls_name. Dot host port tls_name \<in> set us \<and> \<not> valid_server_name pf tls_name \<and> e = Invalid_Tls_Name tls_name"
proof (induction us)
  case (Cons u us)
  then show ?case using build_one_cases [where pf = pf and u = u]
    by (auto simp: and_then_def tls_names_ok_def split: sum.splits)
qed (simp add: tls_names_ok_def)

lemma upstream_build_Inr:
  "upstream_build pf us str = Inr mu \<Longrightarrow>
     http_client_builds pf \<and> tls_names_ok pf us \<and> up_strategy mu = str \<and> list_all2 backs us (upstreams mu)"
  using build_all [where pf = pf and us = us] by (auto simp: upstream_build_def and_then_eq_Inr split: if_splits)

lemma upstream_build_Inl:
  assumes "upstream_build pf us str = Inl e"
  shows "e = No_Http_Client \<and> \<not> http_client_builds pf \<or>
    (\<exists>host port n. e = Invalid_Tls_Name n \<and> Dot host port n \<in> set us \<and> \<not> valid_server_name pf n)"
  using assms build_all [where pf = pf and us = us]
  by (auto simp: upstream_build_def and_then_def split: if_splits sum.splits)

definition lists_fit :: "http_response list \<Rightarrow> http_response list \<Rightarrow> config \<Rightarrow> bool" where
  "lists_fit block_resps allow_resps c \<longleftrightarrow>
     length block_resps = length (list_urls (blocklists c)) \<and> length allow_resps = length (list_urls (whitelist c)) \<and>
     fits (map normalize_name (list_domains (blocklists c))) (length (list_urls (blocklists c))) \<and>
     fits (map normalize_name (list_domains (whitelist c))) (length (list_urls (whitelist c)))"

lemma app_build_result:
  assumes "validate ft fs c = Inr ()" "lists_fit block_resps allow_resps c"
  obtains m us where
    "manager_start (name_hash sv) block_resps allow_resps (manager_new (blocklists c) (whitelist c)) = Some m"
    "slots_ok (name_hash sv) (m_merged m)" "parsed_upstreams c = Inr us"
    "app_build sv pf block_resps allow_resps c =
       Some (and_then (upstream_build pf us (upstreams_config.strategy (upstream c)))
         (\<lambda>mu. Inr (app_state_of sv c (m_merged m), mu)))"
proof -
  obtain us where us: "parsed_upstreams c = Inr us" using assms(1) validate_iff by blast
  obtain m where "manager_start (name_hash sv) block_resps allow_resps (manager_new (blocklists c) (whitelist c)) = Some m"
    "index_ok (name_hash sv) (m_merged m)"
    using manager_start_ok [of block_resps "blocklists c" allow_resps "whitelist c"] assms(2) by (auto simp: lists_fit_def)
  then show thesis using us that by (simp add: app_build_def index_ok_def)
qed

lemma app_state_of_set_up:
  assumes "validate ft fs c = Inr ()" "heap_spec (heap_impl (cache_env_of sv)) R" "codec_ok (codec sv)"
    "slots_ok (name_hash sv) x"
  shows "set_up sv R (app_state_of sv c x)"
  using validated_cache [OF assms(1), of "cache_env_of sv"] assms(2-4) by (simp add: set_up_def app_state_of_def)

subsection \<open>Properties\<close>

text \<open>
  C15. A validated configuration whose lists fit gives a well-formed state. Building it does not panic
  and fails only when reqwest gives no client or a TLS name is not a server name. The state it returns
  has one upstream per configured one, in the configured order and with the configured strategy, the
  configured static hosts and block mode, and the block list of the initial fetch; and the resolver
  runs on it without a panic.
\<close>

theorem app_build_well_formed:
  fixes sv :: "('h, 'rt, 'cl) services"
  assumes "validate ft fs c = Inr ()" "lists_fit block_resps allow_resps c"
    "heap_spec (heap_impl (cache_env_of sv)) R" "codec_ok (codec sv)"
  shows "\<exists>m us. manager_start (name_hash sv) block_resps allow_resps (manager_new (blocklists c) (whitelist c)) = Some m \<and>
    parsed_upstreams c = Inr us \<and>
    (case app_build sv pf block_resps allow_resps c of
       None \<Rightarrow> False
     | Some (Inl e) \<Rightarrow> e = No_Http_Client \<and> \<not> http_client_builds pf \<or>
         (\<exists>host port n. e = Invalid_Tls_Name n \<and> Dot host port n \<in> set us \<and> \<not> valid_server_name pf n)
     | Some (Inr (st, mu)) \<Rightarrow>
         set_up sv R st \<and> list_all2 backs us (upstreams mu) \<and> up_strategy mu = upstreams_config.strategy (upstream c) \<and>
         app_blocklist st = m_merged m \<and> app_hosts st = static_hosts_map c \<and> app_block_mode st = mode (blocking c) \<and>
         (\<forall>es e s. env_ok sv (es @ [e]) \<and> resolver_run sv es (resolver_new st) = Some s \<and> possible e s \<longrightarrow>
            (\<exists>s'. resolver_step sv e s = Some s')))"
proof (rule app_build_result [OF assms(1,2), of sv pf])
  fix m us
  assume m: "manager_start (name_hash sv) block_resps allow_resps (manager_new (blocklists c) (whitelist c)) = Some m"
    "slots_ok (name_hash sv) (m_merged m)" and us: "parsed_upstreams c = Inr us"
    and b: "app_build sv pf block_resps allow_resps c =
       Some (and_then (upstream_build pf us (upstreams_config.strategy (upstream c)))
         (\<lambda>mu. Inr (app_state_of sv c (m_merged m), mu)))"
  let ?st = "app_state_of sv c (m_merged m)"
  have st: "set_up sv R ?st" by (rule app_state_of_set_up [OF assms(1,3,4) m(2)])
  have runs: "\<exists>s'. resolver_step sv e s = Some s'"
    if "env_ok sv (es @ [e])" "resolver_run sv es (resolver_new ?st) = Some s" "possible e s" for es e s
    using reachable_step [OF st that] by blast
  have sel: "app_blocklist ?st = m_merged m" "app_hosts ?st = static_hosts_map c" "app_block_mode ?st = mode (blocking c)"
    by (simp_all add: app_state_of_def)
  show ?thesis
  proof (cases "upstream_build pf us (upstreams_config.strategy (upstream c))")
    case (Inl e)
    then have "e = No_Http_Client \<and> \<not> http_client_builds pf \<or>
        (\<exists>host port n. e = Invalid_Tls_Name n \<and> Dot host port n \<in> set us \<and> \<not> valid_server_name pf n)"
      by (rule upstream_build_Inl)
    then show ?thesis using m(1) us b Inl by simp
  next
    case (Inr mu)
    then show ?thesis using m(1) us b st sel runs upstream_build_Inr [OF Inr] by auto
  qed
qed

definition demo_config :: config where
  "demo_config =
     \<lparr>server = \<lparr>bind_address = V4 (0, 0, 0, 0), dot_port = 853, doh_port = 443, tls_cert = [], tls_key = [], default_ttl = 300\<rparr>,
      blocking = \<lparr>mode = Nxdomain, sinkhole_ip = (0, 0, 0, 0)\<rparr>,
      blocklists = one_blocked, whitelist = one_allowed, static_hosts = [],
      upstream = \<lparr>upstreams_config.strategy = Hedged, upstream_urls = [bytes_of ''tls://1.1.1.1:853#one'']\<rparr>,
      cache = \<lparr>cache_enabled = True, max_size_bytes = 4096\<rparr>\<rparr>"

definition demo_platform :: platform where
  "demo_platform = \<lparr>lookup_host = (\<lambda>_ _. Timed_Out), valid_server_name = (\<lambda>_. True), http_client_builds = True\<rparr>"

lemma demo_upstreams:
  "parsed_upstreams demo_config = Inr [Dot (bytes_of ''1.1.1.1'') 853 (bytes_of ''one'')]"
  by (simp add: parsed_upstreams_def demo_config_def upstream_config_parse_def strip_prefix_def rsplit_once_def bytes_of_def
      parse_uint_def to_digit_def)

lemma demo_valid: "validate container_features no_files demo_config = Inr ()"
  unfolding validate_iff by (simp add: demo_upstreams) (simp add: demo_config_def container_features_def one_blocked_def one_allowed_def)

lemma demo_fit: "lists_fit [] [] demo_config"
  using one_blocked_facts one_allowed_facts by (simp add: lists_fit_def demo_config_def)

lemma demo_environment:
  "heap_spec (heap_impl (cache_env_of demo_services)) first_fit_holds" "codec_ok (codec demo_services)"
  using demo_set_up [OF empty_index(1), of False] by (simp_all add: set_up_def)

theorem app_build_well_formed_witness:
  "\<exists>st mu. app_build demo_services demo_platform [] [] demo_config = Some (Inr (st, mu)) \<and>
     set_up demo_services first_fit_holds st \<and>
     list_all2 backs [Dot (bytes_of ''1.1.1.1'') 853 (bytes_of ''one'')] (upstreams mu)"
proof (cases "app_build demo_services demo_platform [] [] demo_config")
  case None
  then show ?thesis using app_build_well_formed [OF demo_valid demo_fit demo_environment, of demo_platform] by simp
next
  case (Some r)
  then show ?thesis using app_build_well_formed [OF demo_valid demo_fit demo_environment, of demo_platform]
    by (cases r) (auto simp: demo_upstreams demo_platform_def)
qed

subsection \<open>Static hosts\<close>











end
