(* ===== verification/Server_Main.thy ===== *)
theory Server_Main
  imports App_Build "HOL-Library.Multiset"
begin

text \<open>
  The program around the resolver (\<open>main.rs\<close>): reading the configuration file, starting the listeners
  and the loop that waits for their end, for a signal or for a new configuration. The tasks of the
  listeners, the signal and the polls of the file are events; a poll carries what the reads of the file
  returned. The TOML reader and the loader of the certificate are parameters.
\<close>

subsection \<open>Loading\<close>

record loaded_config =
  l_config :: config
  l_raw :: bytes

datatype main_error = Unreadable | Rejected config_error | Cannot_Build build_error | Bad_Certificate

record ('h, 'rt, 'cl) host =
  feats :: features
  files :: file_system
  toml :: "bytes \<Rightarrow> config_error + config"
  tls_loads :: "bytes \<Rightarrow> bytes \<Rightarrow> bool"
  svcs :: "('h, 'rt, 'cl) services"
  plat :: platform

text \<open>The two reads of \<open>load_config\<close>: its own and that of \<open>Config::load\<close>.\<close>

definition load_config ::
  "('h, 'rt, 'cl) host \<Rightarrow> bytes option \<Rightarrow> bytes option \<Rightarrow> main_error + loaded_config" where
  "load_config hs read1 read2 =
     (case read1 of
        None \<Rightarrow> Inl Unreadable
      | Some raw \<Rightarrow>
          (case read2 of
             None \<Rightarrow> Inl Unreadable
           | Some text \<Rightarrow>
               (case config_load (feats hs) (files hs) (toml hs text) of
                  Inl e \<Rightarrow> Inl (Rejected e)
                | Inr c \<Rightarrow> Inr \<lparr>l_config = c, l_raw = raw\<rparr>)))"

subsection \<open>Listeners\<close>

datatype listener_kind = DoT | DoH

type_synonym listener = "listener_kind \<times> socket_addr"

definition dot_listen :: "server_config \<Rightarrow> socket_addr" where
  "dot_listen s = (bind_address s, dot_port s)"

definition doh_listen :: "server_config \<Rightarrow> socket_addr" where
  "doh_listen s = (bind_address s, doh_port s)"

definition listeners_of :: "features \<Rightarrow> config \<Rightarrow> listener list" where
  "listeners_of ft c =
     (if f_dot ft then [(DoT, dot_listen (server c))] else []) @
     (if f_doh ft then [(DoH, doh_listen (server c))] else [])"

text \<open>
  The tasks \<open>spawn_listeners\<close> starts besides the listeners are modelled with the resolver, whose events
  \<open>Tick\<close> and \<open>Expire\<close> are their rounds; the warm-up of the upstreams opens connections of the pools and
  its result is ignored. A listener that cannot bind its socket, or load its certificate in the case of
  DoH, is one that ends.
\<close>

definition spawn_listeners ::
  "('h, 'rt, 'cl) host \<Rightarrow> http_response list \<Rightarrow> http_response list \<Rightarrow> config
    \<Rightarrow> (main_error + ('h, 'rt, 'cl) app_state \<times> listener list) option" where
  "spawn_listeners hs block_resps allow_resps c =
     map_option (\<lambda>built.
       case built of
         Inl e \<Rightarrow> Inl (Cannot_Build e)
       | Inr (st, mu) \<Rightarrow>
           if f_dot (feats hs) \<and> \<not> f_certless (feats hs) \<and> \<not> tls_loads hs (tls_cert (server c)) (tls_key (server c))
           then Inl Bad_Certificate
           else Inr (st, listeners_of (feats hs) c))
       (app_build (svcs hs) (plat hs) block_resps allow_resps c)"

subsection \<open>The main loop\<close>

text \<open>
  The program serves with the listeners of one configuration, waits for those that are left to stop,
  with the configuration to load afterwards if there is one, or has ended with a result.
\<close>

datatype main_phase = Starting | Serving | Stopping "loaded_config option" | Ended "main_error + unit"

record ('h, 'rt, 'cl) program =
  current :: loaded_config
  state_of :: "('h, 'rt, 'cl) app_state option"
  running :: "listener list"
  main_phase :: main_phase

definition swap_remove :: "nat \<Rightarrow> 'a list \<Rightarrow> 'a list" where
  "swap_remove i xs = butlast (xs[i := last xs])"

datatype main_event =
    Spawn "http_response list" "http_response list"   \<comment> \<open>the head of the loop, with the initial list fetches\<close>
  | Listener_Ends nat                                   \<comment> \<open>the task of a listener ends\<close>
  | Interrupt                                           \<comment> \<open>Ctrl-C\<close>
  | Poll "bytes option" "bytes option" "bytes option"   \<comment> \<open>the file as read by the poll and by the loader\<close>
  | All_Stopped                                         \<comment> \<open>the last handle has been awaited\<close>

definition poll ::
  "('h, 'rt, 'cl) host \<Rightarrow> bytes option \<Rightarrow> bytes option \<Rightarrow> bytes option \<Rightarrow> ('h, 'rt, 'cl) program \<Rightarrow> ('h, 'rt, 'cl) program" where
  "poll hs seen read1 read2 p =
     (case seen of
        None \<Rightarrow> p
      | Some raw \<Rightarrow>
          if raw = l_raw (current p) then p
          else (case load_config hs read1 read2 of
                  Inl _ \<Rightarrow> p
                | Inr next \<Rightarrow> p\<lparr>main_phase := Stopping (Some next)\<rparr>))"

fun main_step ::
  "('h, 'rt, 'cl) host \<Rightarrow> main_event \<Rightarrow> ('h, 'rt, 'cl) program \<Rightarrow> ('h, 'rt, 'cl) program option" where
  "main_step hs (Spawn block_resps allow_resps) p =
     (if main_phase p = Starting then
        map_option (\<lambda>r. case r of
            Inl e \<Rightarrow> p\<lparr>main_phase := Ended (Inl e)\<rparr>
          | Inr (st, ls) \<Rightarrow> p\<lparr>state_of := Some st, running := ls, main_phase := Serving\<rparr>)
          (spawn_listeners hs block_resps allow_resps (l_config (current p)))
      else None)" |
  "main_step hs (Listener_Ends i) p =
     (if i < length (running p) then
        (case main_phase p of
           Serving \<Rightarrow> Some (p\<lparr>running := swap_remove i (running p), main_phase := Stopping None\<rparr>)
         | Stopping next \<Rightarrow> Some (p\<lparr>running := swap_remove i (running p)\<rparr>)
         | _ \<Rightarrow> None)
      else None)" |
  "main_step hs Interrupt p = (if main_phase p = Serving then Some (p\<lparr>main_phase := Stopping None\<rparr>) else None)" |
  "main_step hs (Poll seen read1 read2) p = (if main_phase p = Serving then Some (poll hs seen read1 read2 p) else None)" |
  "main_step hs All_Stopped p =
     (if running p = [] then
        (case main_phase p of
           Stopping None \<Rightarrow> Some (p\<lparr>main_phase := Ended (Inr ())\<rparr>)
         | Stopping (Some next) \<Rightarrow> Some (p\<lparr>current := next, main_phase := Starting\<rparr>)
         | _ \<Rightarrow> None)
      else None)"

fun main_run ::
  "('h, 'rt, 'cl) host \<Rightarrow> main_event list \<Rightarrow> ('h, 'rt, 'cl) program \<Rightarrow> ('h, 'rt, 'cl) program option" where
  "main_run hs [] p = Some p" |
  "main_run hs (e # es) p = Option.bind (main_step hs e p) (main_run hs es)"

definition run_configured ::
  "('h, 'rt, 'cl) host \<Rightarrow> bytes option \<Rightarrow> bytes option \<Rightarrow> main_error + ('h, 'rt, 'cl) program" where
  "run_configured hs read1 read2 =
     (case load_config hs read1 read2 of
        Inl e \<Rightarrow> Inl e
      | Inr loaded \<Rightarrow> Inr \<lparr>current = loaded, state_of = None, running = [], main_phase = Starting\<rparr>)"

subsection \<open>Without a configuration file\<close>

text \<open>
  \<open>run_serverless\<close>: the configuration comes from the environment and is never reloaded, and the result
  of the listener that ends first is the result of the program.
\<close>

datatype listener_result = Finished | Failed_With_Error | Panicked

datatype serverless_phase = Up | Draining "(listener_kind \<times> listener_result) option" | Down "(listener_kind \<times> listener_result) option"

record serverless =
  s_running :: "listener list"
  s_phase :: serverless_phase

fun serverless_result :: "(listener_kind \<times> listener_result) option \<Rightarrow> (listener_kind \<times> listener_result) + unit" where
  "serverless_result (Some (k, Failed_With_Error)) = Inl (k, Failed_With_Error)" |
  "serverless_result (Some (k, Panicked)) = Inl (k, Panicked)" |
  "serverless_result _ = Inr ()"

datatype serverless_event = Ends nat listener_result | Signal | Drained

fun serverless_step :: "serverless_event \<Rightarrow> serverless \<Rightarrow> serverless option" where
  "serverless_step (Ends i r) p =
     (if i < length (s_running p) then
        (case s_phase p of
           Up \<Rightarrow> Some (p\<lparr>s_running := swap_remove i (s_running p), s_phase := Draining (Some (fst (s_running p ! i), r))\<rparr>)
         | Draining x \<Rightarrow> Some (p\<lparr>s_running := swap_remove i (s_running p)\<rparr>)
         | Down _ \<Rightarrow> None)
      else None)" |
  "serverless_step Signal p = (if s_phase p = Up then Some (p\<lparr>s_phase := Draining None\<rparr>) else None)" |
  "serverless_step Drained p =
     (if s_running p = [] then (case s_phase p of Draining x \<Rightarrow> Some (p\<lparr>s_phase := Down x\<rparr>) | _ \<Rightarrow> None) else None)"

fun serverless_run :: "serverless_event list \<Rightarrow> serverless \<Rightarrow> serverless option" where
  "serverless_run [] p = Some p" |
  "serverless_run (e # es) p = Option.bind (serverless_step e p) (serverless_run es)"

definition run_serverless ::
  "('h, 'rt, 'cl) host \<Rightarrow> environment \<Rightarrow> http_response list \<Rightarrow> http_response list
    \<Rightarrow> (main_error + ('h, 'rt, 'cl) app_state \<times> serverless) option" where
  "run_serverless hs env block_resps allow_resps =
     (case from_env (feats hs) (files hs) env of
        Inl e \<Rightarrow> Some (Inl (Rejected e))
      | Inr c \<Rightarrow>
          map_option (\<lambda>r. and_then r (\<lambda>(st, ls). Inr (st, \<lparr>s_running = ls, s_phase = Up\<rparr>)))
            (spawn_listeners hs block_resps allow_resps c))"

subsection \<open>Lemmas\<close>

lemma load_config_eq_Inr:
  "load_config hs r1 r2 = Inr l \<longleftrightarrow>
     (\<exists>raw text. r1 = Some raw \<and> r2 = Some text \<and> toml hs text = Inr (l_config l) \<and> l_raw l = raw \<and>
        validate (feats hs) (files hs) (l_config l) = Inr ())"
  by (cases l) (auto simp: load_config_def config_load_def and_then_eq_Inr split: option.splits sum.splits)

lemma length_swap_remove [simp]: "length (swap_remove i xs) = length xs - 1"
  by (simp add: swap_remove_def)

lemma mset_swap_remove:
  assumes "i < length xs" shows "add_mset (xs ! i) (mset (swap_remove i xs)) = mset xs"
proof -
  from assms have ne: "xs \<noteq> []" by auto
  let ?ys = "xs[i := last xs]"
  have "?ys \<noteq> []" using ne by simp
  then have "mset ?ys = add_mset (last ?ys) (mset (butlast ?ys))"
    using append_butlast_last_id [of ?ys] mset_append [of "butlast ?ys" "[last ?ys]"] by simp
  moreover have "last ?ys = last xs"
    using assms ne by (cases "i = length xs - 1") (auto simp: last_conv_nth nth_list_update)
  moreover have "mset ?ys = add_mset (last xs) (mset xs - {#xs ! i#})"
    using assms by (simp add: mset_update)
  ultimately have "mset (butlast ?ys) = mset xs - {#xs ! i#}" by simp
  then show ?thesis using assms by (simp add: swap_remove_def)
qed

definition main_inv :: "('h, 'rt, 'cl) host \<Rightarrow> ('h, 'rt, 'cl) program \<Rightarrow> bool" where
  "main_inv hs p \<longleftrightarrow>
     validate (feats hs) (files hs) (l_config (current p)) = Inr () \<and>
     (case main_phase p of
        Starting \<Rightarrow> running p = []
      | Serving \<Rightarrow> running p = listeners_of (feats hs) (l_config (current p)) \<and>
          (\<exists>b a st mu. state_of p = Some st \<and> app_build (svcs hs) (plat hs) b a (l_config (current p)) = Some (Inr (st, mu)))
      | Stopping next \<Rightarrow> mset (running p) \<subseteq># mset (listeners_of (feats hs) (l_config (current p))) \<and>
          (\<forall>l. next = Some l \<longrightarrow> validate (feats hs) (files hs) (l_config l) = Inr ())
      | Ended _ \<Rightarrow> running p = [])"

lemma spawn_listeners_Inr:
  "spawn_listeners hs b a c = Some (Inr (st, ls)) \<Longrightarrow>
     ls = listeners_of (feats hs) c \<and> (\<exists>mu. app_build (svcs hs) (plat hs) b a c = Some (Inr (st, mu)))"
  by (cases "app_build (svcs hs) (plat hs) b a c") (auto simp: spawn_listeners_def split: sum.splits if_splits)

lemma main_step_inv:
  assumes "main_inv hs p" "main_step hs e p = Some p'" shows "main_inv hs p'"
proof (cases e)
  case (Spawn b a)
  from assms(2) Spawn obtain r where r: "main_phase p = Starting" "spawn_listeners hs b a (l_config (current p)) = Some r"
    by (auto split: if_splits)
  then show ?thesis using assms Spawn spawn_listeners_Inr [of hs b a "l_config (current p)"]
    by (cases r) (force simp: main_inv_def)+
next
  case (Listener_Ends i)
  then have i: "i < length (running p)" using assms(2) by (auto split: if_splits)
  have "mset (swap_remove i (running p)) \<subseteq># mset (running p)"
    using mset_swap_remove [OF i] by (metis mset_subset_eq_add_right add_mset_add_single add.commute)
  moreover have "mset (running p) \<subseteq># mset (listeners_of (feats hs) (l_config (current p)))"
    using assms Listener_Ends by (auto simp: main_inv_def split: main_phase.splits if_splits)
  ultimately have "mset (swap_remove i (running p)) \<subseteq># mset (listeners_of (feats hs) (l_config (current p)))"
    by (rule subset_mset.order_trans)
  then show ?thesis using assms Listener_Ends i by (auto simp: main_inv_def split: main_phase.splits)
next
  case (Poll seen r1 r2)
  then show ?thesis using assms
    by (auto simp: main_inv_def poll_def load_config_eq_Inr split: if_splits option.splits sum.splits)
qed (use assms in \<open>auto simp: main_inv_def split: if_splits main_phase.splits option.splits\<close>)

lemma main_run_inv: "main_inv hs p \<Longrightarrow> main_run hs es p = Some p' \<Longrightarrow> main_inv hs p'"
  by (induction es arbitrary: p) (auto simp: bind_eq_Some_conv intro: main_step_inv)

lemma run_configured_inv: "run_configured hs r1 r2 = Inr p \<Longrightarrow> main_inv hs p"
  by (auto simp: run_configured_def main_inv_def load_config_eq_Inr split: sum.splits)

lemma listeners_distinct:
  assumes "validate ft fs c = Inr ()" shows "distinct (map snd (listeners_of ft c))"
  using assms unfolding validate_iff by (auto simp: listeners_of_def dot_listen_def doh_listen_def)

lemma distinct_subset:
  assumes "mset xs \<subseteq># mset ys" "distinct ys" shows "distinct xs"
proof -
  have ys: "count (mset ys) a = (if a \<in> set ys then 1 else 0)" for a
    using assms(2) unfolding distinct_count_atmost_1 by blast
  have "count (mset xs) a \<le> (if a \<in> set ys then 1 else 0)" for a
    using mset_subset_eq_count [OF assms(1), of a] unfolding ys .
  then have le: "count (mset xs) a \<le> 1" for a
    by (rule order_trans) simp
  have "count (mset xs) a = (if a \<in> set xs then 1 else 0)" for a
  proof (cases "a \<in> set xs")
    case True
    then have "0 < count (mset xs) a" by simp
    with le [of a] have "count (mset xs) a = 1" by linarith
    with True show ?thesis by simp
  qed (simp add: count_eq_zero_iff)
  then show ?thesis unfolding distinct_count_atmost_1 by blast
qed

lemma distinct_map_subset:
  "mset xs \<subseteq># mset ys \<Longrightarrow> distinct (map f ys) \<Longrightarrow> distinct (map f xs)"
  by (rule distinct_subset) (simp_all add: image_mset_subseteq_mono)


text \<open>
  Without a file the program ends only once every listener has ended, and its result is that of the
  first event: of the listener that ended first, or none after a signal.
\<close>

lemma serverless_draining:
  "serverless_run es p = Some p' \<Longrightarrow> s_phase p = Draining x \<or> s_phase p = Down x \<and> s_running p = [] \<Longrightarrow>
     s_phase p' = Draining x \<or> s_phase p' = Down x \<and> s_running p' = []"
proof (induction es arbitrary: p)
  case (Cons e es)
  then show ?case
    by (cases e) (force simp: bind_eq_Some_conv split: if_splits)+
qed simp

lemma serverless_first_event:
  assumes "serverless_run (e # es) p = Some p'" "s_phase p = Up" "s_phase p' = Down x"
  shows "s_running p' = [] \<and> x = (case e of Ends i r \<Rightarrow> Some (fst (s_running p ! i), r) | _ \<Rightarrow> None)"
proof -
  obtain p1 where p1: "serverless_step e p = Some p1" "serverless_run es p1 = Some p'"
    using assms(1) by (auto simp: bind_eq_Some_conv)
  then have "s_phase p1 = Draining (case e of Ends i r \<Rightarrow> Some (fst (s_running p ! i), r) | _ \<Rightarrow> None)"
    using assms(2) by (cases e) (auto split: if_splits)
  with serverless_draining [OF p1(2)] assms(3) show ?thesis by fastforce
qed

text \<open>
  The loader reads the file twice, so a write in between gives the text of one version with the
  configuration of the other; the polls then compare with the former.
\<close>

lemma load_config_mixed:
  assumes "toml hs new = Inr c" "validate (feats hs) (files hs) c = Inr ()"
  shows "load_config hs (Some old) (Some new) = Inr \<lparr>l_config = c, l_raw = old\<rparr>"
    and "current p = \<lparr>l_config = c, l_raw = old\<rparr> \<Longrightarrow> poll hs (Some old) r1 r2 p = p"
  using assms by (simp_all add: load_config_eq_Inr poll_def)


subsection \<open>Properties\<close>

text \<open>
  C16. Whatever happens to the file, the listeners and the signals, the program only ever runs a
  validated configuration. While it serves, its state is built from this configuration and exactly its
  listeners run, on distinct sockets; while it stops only listeners of this configuration are left, and
  none is left when the next ones are started or the program has ended.
\<close>

theorem main_serves_valid_config:
  assumes "run_configured hs read1 read2 = Inr p0" "main_run hs es p0 = Some p"
  shows "validate (feats hs) (files hs) (l_config (current p)) = Inr () \<and> distinct (map snd (running p)) \<and>
    (main_phase p = Serving \<longrightarrow> running p = listeners_of (feats hs) (l_config (current p)) \<and>
       (\<exists>b a st mu. state_of p = Some st \<and> app_build (svcs hs) (plat hs) b a (l_config (current p)) = Some (Inr (st, mu)))) \<and>
    (\<forall>next. main_phase p = Stopping next \<longrightarrow> mset (running p) \<subseteq># mset (listeners_of (feats hs) (l_config (current p)))) \<and>
    (main_phase p = Starting \<or> (\<exists>r. main_phase p = main_phase.Ended r) \<longrightarrow> running p = [])"
proof -
  have inv: "main_inv hs p" by (rule main_run_inv [OF run_configured_inv [OF assms(1)] assms(2)])
  then have sub: "mset (running p) \<subseteq># mset (listeners_of (feats hs) (l_config (current p)))"
    by (auto simp: main_inv_def split: main_phase.splits)
  have "distinct (map snd (running p))"
    by (rule distinct_map_subset [OF sub listeners_distinct [of _ "files hs"]]) (use inv in \<open>simp add: main_inv_def\<close>)
  then show ?thesis using inv by (auto simp: main_inv_def)
qed


subsection \<open>Witnesses\<close>

definition demo_reload :: config where
  "demo_reload = demo_config\<lparr>upstream := \<lparr>upstreams_config.strategy = Hedged, upstream_urls = [bytes_of ''tls://1.1.1.1:853#two'']\<rparr>\<rparr>"

definition demo_host :: "((nat \<times> nat) list, u16, u16) host" where
  "demo_host =
     \<lparr>feats = container_features, files = no_files, toml = (\<lambda>text. Inr (if text = [] then demo_config else demo_reload)),
      tls_loads = (\<lambda>_ _. True), svcs = demo_services,
      plat = demo_platform\<lparr>valid_server_name := (\<lambda>n. n = bytes_of ''one'')\<rparr>\<rparr>"




lemma demo_started:
  "\<exists>p0 p st. run_configured demo_host (Some []) (Some []) = Inr p0 \<and> main_run demo_host [Spawn [] []] p0 = Some p \<and>
     main_phase p = Serving \<and> state_of p = Some st \<and> l_raw (current p) = []"
proof -
  let ?pf = "demo_platform\<lparr>valid_server_name := (\<lambda>n. n = bytes_of ''one'')\<rparr>"
  let ?p0 = "\<lparr>current = \<lparr>l_config = demo_config, l_raw = []\<rparr>, state_of = None, running = [], main_phase = Starting\<rparr>"
  have p0: "run_configured demo_host (Some []) (Some []) = Inr ?p0"
    using demo_valid by (simp add: run_configured_def load_config_def config_load_def demo_host_def)
  obtain st mu where "app_build demo_services ?pf [] [] demo_config = Some (Inr (st, mu))"
  proof (rule app_build_result [OF demo_valid demo_fit, of demo_services ?pf])
    fix m us
    assume us: "parsed_upstreams demo_config = Inr us"
      and b: "app_build demo_services ?pf [] [] demo_config =
        Some (and_then (upstream_build ?pf us (upstreams_config.strategy (upstream demo_config)))
          (\<lambda>mu. Inr (app_state_of demo_services demo_config (m_merged m), mu)))"
    have "\<exists>mu. upstream_build ?pf us (upstreams_config.strategy (upstream demo_config)) = Inr mu"
      using us by (auto simp: demo_upstreams upstream_build_def demo_platform_def build_one_def Let_def)
    with b that show thesis by auto
  qed
  then have "main_run demo_host [Spawn [] []] ?p0 =
      Some (?p0\<lparr>state_of := Some st, running := listeners_of container_features demo_config, main_phase := Serving\<rparr>)"
    by (simp add: spawn_listeners_def demo_host_def)
  with p0 show ?thesis by auto
qed

theorem main_serves_valid_config_witness:
  "\<exists>p0 p. run_configured demo_host (Some []) (Some []) = Inr p0 \<and> main_run demo_host [Spawn [] []] p0 = Some p \<and>
     main_phase p = Serving \<and> running p = listeners_of container_features (l_config (current p)) \<and> distinct (map snd (running p))"
proof -
  obtain p0 p where p: "run_configured demo_host (Some []) (Some []) = Inr p0" "main_run demo_host [Spawn [] []] p0 = Some p"
    "main_phase p = Serving" using demo_started by blast
  have "feats demo_host = container_features" by (simp add: demo_host_def)
  with main_serves_valid_config [OF p(1,2)] p show ?thesis by auto
qed


end
