(* ===== verification/Spec2Isabelle.thy ===== *)
theory Spec2Isabelle
  imports Wire_Correct Blocklist_Lists Blocklist_Manager Config_Correct Cache_Correct Resolver_Correct Dot_Pool_Correct Dot_Server_Correct Server_Main
begin

text \<open>
  A verification of \<^bold>\<open>dns-rs\<close>, a filtering and caching DNS forwarder written in Rust. This theory only
  collects the development; the definitions and the proofs are in the theories it imports.

  \<^bold>\<open>The program.\<close> \<open>main.rs\<close> reads a configuration (\<open>config.rs\<close>), builds the shared state (\<open>state.rs\<close>) and
  starts listeners for DNS over TLS (\<open>server/dot.rs\<close>) and DNS over HTTPS (\<open>server/doh.rs\<close>). A listener
  hands the bytes of each message to \<open>handle_query\<close> (\<open>dns/handler.rs\<close>). The handler reads the question in
  place (\<open>dns/wire.rs\<close>), answers static hosts, looks into the response cache (\<open>dns/cache.rs\<close>) and then into
  the set of blocked names (\<open>blocklist.rs\<close>), and sends what is left to the upstream resolvers
  (\<open>dns/upstream.rs\<close>), where identical queries share one fetch (\<open>dns/inflight.rs\<close>). Background tasks
  refresh the domain lists, refresh popular answers before they expire, sweep expired ones and keep the
  connections to the upstreams alive. The runtime has one thread: a task runs alone from one
  suspension to the next.

  \<^bold>\<open>How code becomes definitions.\<close> Bytes are lists of 8-bit words, machine integers keep their width, a
  struct is a \<open>record\<close> and an enum a \<open>datatype\<close>. A function of the source is a function here, with the same
  name where possible. A function that can panic is in the option monad and \<open>None\<close> is the panic; a \<open>Result\<close>
  is a sum with the error on the left. Tasks are step functions on an explicit state, one step for
  each stretch between two suspensions or critical sections, so that a list of events is one
  interleaving; statements about all lists of events, or about all states that a step relation
  reaches, cover every schedule. The clock, random numbers, what the network returns and the choice
  of the next task are arguments or events. Third-party code is a parameter: the hash function, the
  allocator of the cache's byte pool, the record types and the message parser of \<open>hickory_proto\<close>, the
  TOML reader, the HTTP client, name lookup and TLS. What the proofs need of such a parameter is a
  named hypothesis (\<open>heap_spec\<close> for the allocator: blocks it hands out lie in the pool and do not overlap;
  \<open>codec_ok\<close> for the record types: a type or class read from a number has that number, and A and IN have
  the number 1), and the witnesses of the theorems
  instantiate it, with \<open>first_fit\<close> and \<open>codec_id\<close>.

  \<^bold>\<open>The theories.\<close>

  \<^item> \<open>Prelude\<close>, \<open>Probe\<close>, \<open>Names\<close>, \<open>Addr\<close>: byte slices and big-endian integers; linear probing as both hash
    tables use it; \<open>util.rs\<close> and \<open>dns/inline_name.rs\<close> with the string methods they call; the number and
    address parsers of the standard library.

  \<^item> \<open>Wire\<close> is \<open>dns/wire.rs\<close>, function by function. \<open>Wire_Correct\<close> has a grammar of DNS messages that is
    independent of the code, and shows which messages \<open>parse_query\<close> accepts and what it reports of them,
    what \<open>synthesize\<close> builds, what \<open>age_ttls\<close> changes and when a question key matches.

  \<^item> \<open>Blocklist\<close> is the domain index and the list parser of \<open>blocklist.rs\<close>. \<open>Blocklist_Correct\<close> has the
    invariant of the index and the interface \<open>name_set\<close>, interpreted on it; \<open>Blocklist_Lists\<close> shows that the
    index is a set and that a list in the documented formats means what it says. \<open>Blocklist_Manager\<close> is
    \<open>BlocklistManager\<close> with its refresh loops as a step relation, and what is published when.

  \<^item> \<open>Config\<close> is \<open>config.rs\<close>. \<open>Config_Correct\<close> shows what a validated configuration guarantees, that \<open>from_env\<close>
    returns only such ones, and that upstream entries are read as written.

  \<^item> \<open>Cache\<close> is \<open>dns/cache.rs\<close>: pool, table, slab and LRU list. \<open>Cache_Lru\<close>, \<open>Cache_Table\<close>, \<open>Cache_Inv\<close>, \<open>Cache_Core\<close>,
    \<open>Cache_Rehash\<close>, \<open>Cache_Evict\<close> and \<open>Cache_Insert\<close> build its invariant up part by part. \<open>Cache_Spec\<close> says what a
    cache promises, a list of answers with distinct keys in the order of their use; \<open>Cache_Refine\<close> and
    \<open>Cache_Trace\<close> show that the operations, and sequences of them, implement it. \<open>Cache_Runs\<close> has the
    interface \<open>answer_cache\<close> of the handler and its interpretation, \<open>Cache_Correct\<close> the properties.

  \<^item> \<open>Inflight\<close> is \<open>dns/inflight.rs\<close>: every task gets a result fetched for its own key, and a cell is
    fetched once. Its steps are finer than those of the one-threaded program, so what holds of its
    schedules holds of the program.

  \<^item> \<open>Dot_Connection\<close>, \<open>Dot_Pool\<close> and \<open>Upstream\<close> are \<open>dns/upstream.rs\<close>: a pipelined connection, the pool with its
    keepalive, and one attempt and the three strategies. \<open>Dot_Correct\<close>, \<open>Dot_Pool_Correct\<close> and
    \<open>Upstream_Correct\<close> show that IDs and permits never run out, that a reply reaches the query it answers,
    that no query is left behind, that the pool stays within its limit and backs off, and, through the
    locale \<open>strategy\<close> and its three interpretations, what the strategies return.

  \<^item> \<open>Handler\<close> is \<open>dns/handler.rs\<close> and the struct of \<open>state.rs\<close>; \<open>Resolver\<close> runs its tasks over the cache, the
    block list and the registry. \<open>Handler_Correct\<close> and \<open>Resolver_Inv\<close> prove the invariant, \<open>Resolver_Correct\<close> the
    properties of the resolver as a whole: it never panics, a reply answers its query, a blocked name
    never leaves it, a fetched answer is served again, and every client can be answered.

  \<^item> \<open>App_Build\<close> is \<open>upstream::build\<close> and \<open>AppState::build\<close>: a validated configuration gives a state on which
    these theorems hold, and its static hosts are answered. \<open>Server_Main\<close> is the rest of \<open>main.rs\<close>, the
    listeners, the reload of the configuration and the serverless variant.

  \<^item> \<open>Dot_Server\<close> is \<open>server/dot.rs\<close>: framing, a session with its reader, query tasks and writer, and the
    limit on connections. \<open>Dot_Server_Correct\<close> shows that the framing is exact, that a session answers
    what it reads and that it can always end.

  \<^bold>\<open>Bounds and fuel.\<close> A probing loop has the number of slots as fuel: after that many steps it would visit
  the same slots again, and the invariants keep a slot free, so it ends before. The eviction loop has
  one more than the number of entries, since each round evicts one; the lemmas on both loops prove that the fuel
  suffices and never only assume a result. The reading loop of a session and the walkers over messages
  terminate because their input shrinks. The hedged strategy is bounded by its number of upstreams.
  Sizes are those of the code: a byte pool of at most 1 GiB, which \<open>validate\<close> enforces, and lists whose names
  fit the 32-bit offsets of the index (\<open>fits\<close>), which the limit on downloads gives for all but huge
  inline lists.

  \<^bold>\<open>Not modelled.\<close> The DoH listener (\<open>server/doh.rs\<close>) consists of calls of axum and hyper and of a readiness
  probe built by \<open>hickory_proto\<close>; what it does with a message is \<open>handle_query\<close>. \<open>tls.rs\<close> loads certificates with
  rustls, whose outcome is a parameter. Timers appear only as events in any order. The warm-up of upstreams,
  logging, error texts, \<open>Debug\<close> output and the tests are left out.
\<close>

end
